(* ===== verification/NB_Prelude.thy ===== *)
theory NB_Prelude
  imports Main "HOL-Library.Signed_Division"
begin

text \<open>
  Prelude of the development: what every component shares.

  \<^item> \<open>outcome\<close>: a C++ call returns a value or stops (an exception nobody catches, an \<open>abort()\<close>, a
    trap, or undefined behaviour), and \<open>bind_outcome\<close> sequences such calls.
  \<^item> C integers: the \<open>COERCE_IN\<close> macro of \<open>thread_pool.h\<close> and the \<open>%\<close> operator with its trap.
  \<^item> \<open>std::vector\<close>: \<open>at\<close>, \<open>operator[]\<close> and \<open>resize\<close> over lists, out-of-range indexes included.
  \<^item> index arithmetic of a ring, counting over updated lists.
  \<^item> transition systems: \<open>reach\<close>, the locale \<open>safe_system\<close> (an inductive invariant holds in every
    reachable state) and its extensions \<open>locked_system\<close> (a lock that names its holder gives mutual
    exclusion) and \<open>refined_system\<close> (refinement to a specification by a function); \<open>progressing_system\<close>
    (a rank that can always be lowered gives a run to a goal).
  \<^item> the locale \<open>fifo\<close>: the contract of a first-in first-out queue, with the conservation law of a
    whole run of operations proved once for every queue of the program.
\<close>

named_theorems outcome_simps \<open>sequencing of calls that may stop\<close>
named_theorems vec_simps \<open>std::vector accesses that are in range\<close>

section \<open>Outcomes of a call\<close>

datatype fault =
    Out_Of_Range        \<comment> \<open>the exception of \<open>vector::at\<close> and \<open>map::at\<close>\<close>
  | Bad_Index           \<comment> \<open>\<open>operator[]\<close> past the end\<close>
  | Div_By_Zero         \<comment> \<open>\<open>x % 0\<close>: SIGFPE\<close>
  | Bad_Function_Call   \<comment> \<open>calling an empty \<open>std::function\<close>\<close>
  | Abort_Called        \<comment> \<open>\<open>abort()\<close>\<close>
  | Would_Block         \<comment> \<open>locking a mutex that is held\<close>
  | Mutex_Misuse        \<comment> \<open>undefined use of a mutex\<close>
  | Null_Deref          \<comment> \<open>a null pointer is followed\<close>
  | Buffer_Overflow     \<comment> \<open>a write past the end of a character array\<close>

datatype 'a outcome = Ret 'a | Stop fault

definition bind_outcome :: "'a outcome \<Rightarrow> ('a \<Rightarrow> 'b outcome) \<Rightarrow> 'b outcome" where
  "bind_outcome m f = (case m of Ret x \<Rightarrow> f x | Stop e \<Rightarrow> Stop e)"

lemma bind_outcome_Ret [simp, outcome_simps]: "bind_outcome (Ret x) f = f x"
  by (simp add: bind_outcome_def)

lemma bind_outcome_Stop [simp, outcome_simps]: "bind_outcome (Stop e) f = Stop e"
  by (simp add: bind_outcome_def)

lemma bind_outcome_eq_Ret:
  "bind_outcome m f = Ret y \<longleftrightarrow> (\<exists>x. m = Ret x \<and> f x = Ret y)"
  by (cases m) auto

lemma bind_outcome_RetE:
  assumes "bind_outcome m f = Ret y"
  obtains x where "m = Ret x" and "f x = Ret y"
  using assms by (auto simp: bind_outcome_eq_Ret)

section \<open>C integers\<close>

text \<open>
  The macro \<open>COERCE_IN(a, l, r)\<close>, \<open>(a) < (l) ? (l) : ((a) > (r) ? (r) : (a))\<close>, on values of type
  \<open>int\<close>.
\<close>

definition coerce_in :: "int \<Rightarrow> int \<Rightarrow> int \<Rightarrow> int" where
  "coerce_in a l r = (if a < l then l else if a > r then r else a)"

lemma coerce_in_bounds: "l \<le> r \<Longrightarrow> l \<le> coerce_in a l r \<and> coerce_in a l r \<le> r"
  by (simp add: coerce_in_def)

lemma coerce_in_inside [simp]: "l \<le> a \<Longrightarrow> a \<le> r \<Longrightarrow> coerce_in a l r = a"
  by (simp add: coerce_in_def)

lemma coerce_in_ge: "l \<le> r \<Longrightarrow> l \<le> coerce_in a l r"
  by (simp add: coerce_in_def)

text \<open>C's \<open>%\<close> truncates towards zero and traps on a zero divisor.\<close>

definition c_rem :: "int \<Rightarrow> int \<Rightarrow> int outcome" where
  "c_rem a b = (if b = 0 then Stop Div_By_Zero else Ret (a smod b))"

lemma c_rem_pos: "0 \<le> a \<Longrightarrow> 0 < b \<Longrightarrow> c_rem a b = Ret (a mod b)"
  by (simp add: c_rem_def signed_modulo_int_def signed_divide_int_def sgn_if minus_div_mult_eq_mod)

lemma c_rem_zero [simp]: "c_rem a 0 = Stop Div_By_Zero"
  by (simp add: c_rem_def)

section \<open>std::vector\<close>

definition vec_in :: "'a list \<Rightarrow> int \<Rightarrow> bool" where
  "vec_in xs i \<longleftrightarrow> 0 \<le> i \<and> i < int (length xs)"

definition vec_at :: "'a list \<Rightarrow> int \<Rightarrow> 'a outcome" where
  "vec_at xs i = (if vec_in xs i then Ret (xs ! nat i) else Stop Out_Of_Range)"

definition vec_put_at :: "'a list \<Rightarrow> int \<Rightarrow> 'a \<Rightarrow> 'a list outcome" where
  "vec_put_at xs i x = (if vec_in xs i then Ret (xs[nat i := x]) else Stop Out_Of_Range)"

definition vec_index :: "'a list \<Rightarrow> int \<Rightarrow> 'a outcome" where
  "vec_index xs i = (if vec_in xs i then Ret (xs ! nat i) else Stop Bad_Index)"

definition vec_put_index :: "'a list \<Rightarrow> int \<Rightarrow> 'a \<Rightarrow> 'a list outcome" where
  "vec_put_index xs i x = (if vec_in xs i then Ret (xs[nat i := x]) else Stop Bad_Index)"

definition vec_resize :: "nat \<Rightarrow> 'a \<Rightarrow> 'a list \<Rightarrow> 'a list" where
  "vec_resize n d xs = take n xs @ replicate (n - length xs) d"

lemma length_vec_resize [simp]: "length (vec_resize n d xs) = n"
  by (simp add: vec_resize_def)

lemma vec_in_range [vec_simps]:
  assumes "vec_in xs i"
  shows "vec_at xs i = Ret (xs ! nat i)" "vec_put_at xs i x = Ret (xs[nat i := x])"
    "vec_index xs i = Ret (xs ! nat i)" "vec_put_index xs i x = Ret (xs[nat i := x])"
  using assms by (simp_all add: vec_at_def vec_put_at_def vec_index_def vec_put_index_def)

lemma vec_inI [intro]: "0 \<le> i \<Longrightarrow> i < int (length xs) \<Longrightarrow> vec_in xs i"
  by (simp add: vec_in_def)

lemma all_list_update: "\<forall>x \<in> set xs. P x \<Longrightarrow> P y \<Longrightarrow> \<forall>x \<in> set (xs[i := y]). P x"
  using set_update_subset_insert [of xs i y] by auto

section \<open>Ring indexes\<close>

text \<open>Two offsets below the size of a ring name different slots.\<close>

lemma ring_slot_inj:
  fixes c n :: int
  assumes "0 \<le> i" "i < n" "0 \<le> j" "j < n" "(c + i) mod n = (c + j) mod n"
  shows "i = j"
proof -
  from assms(5) have "i mod n = j mod n"
    using mod_add_cong [of "- c" n "- c" "c + i" "c + j"] by simp
  with assms(1-4) show ?thesis by simp
qed

lemma ring_slot_range: "0 < (n::int) \<Longrightarrow> 0 \<le> x mod n \<and> x mod n < n"
  by simp

section \<open>Counting over a list of thread states\<close>

definition count_if :: "('a \<Rightarrow> bool) \<Rightarrow> 'a list \<Rightarrow> nat" where
  "count_if P xs = length (filter P xs)"

lemma count_if_Nil [simp]: "count_if P [] = 0"
  by (simp add: count_if_def)

lemma count_if_Cons [simp]: "count_if P (x # xs) = (if P x then Suc (count_if P xs) else count_if P xs)"
  by (simp add: count_if_def)

lemma count_if_append [simp]: "count_if P (xs @ ys) = count_if P xs + count_if P ys"
  by (simp add: count_if_def)

lemma count_if_replicate [simp]: "count_if P (replicate n x) = (if P x then n else 0)"
  by (induction n) auto

lemma count_if_le_length: "count_if P xs \<le> length xs"
  by (simp add: count_if_def)

lemma count_if_pos: "i < length xs \<Longrightarrow> P (xs ! i) \<Longrightarrow> 0 < count_if P xs"
  by (auto simp: count_if_def filter_empty_conv intro!: bexI [of _ "xs ! i"])

lemma count_if_zero: "count_if P xs = 0 \<longleftrightarrow> (\<forall>x \<in> set xs. \<not> P x)"
  by (simp add: count_if_def filter_empty_conv)

lemma count_if_update_int:
  "i < length xs \<Longrightarrow> int (count_if P (xs[i := y])) =
     int (count_if P xs) - (if P (xs ! i) then 1 else 0) + (if P y then 1 else 0)"
proof (induction xs arbitrary: i)
  case Nil
  then show ?case by simp
next
  case (Cons x xs)
  then show ?case by (cases i) (simp_all, fastforce+)
qed

lemma count_if_update:
  "i < length xs \<Longrightarrow> count_if P (xs[i := y]) + (if P (xs ! i) then 1 else 0) =
     count_if P xs + (if P y then 1 else 0)"
  using count_if_update_int [of i xs P y] by (auto split: if_splits)

lemma count_if_same: "i < length xs \<Longrightarrow> P (xs ! i) = P y \<Longrightarrow> count_if P (xs[i := y]) = count_if P xs"
  using count_if_update [of i xs P y] by (auto split: if_splits)

lemma count_if_up: "i < length xs \<Longrightarrow> \<not> P (xs ! i) \<Longrightarrow> P y \<Longrightarrow> count_if P (xs[i := y]) = Suc (count_if P xs)"
  using count_if_update [of i xs P y] by simp

lemma count_if_down: "i < length xs \<Longrightarrow> P (xs ! i) \<Longrightarrow> \<not> P y \<Longrightarrow> Suc (count_if P (xs[i := y])) = count_if P xs"
  using count_if_update [of i xs P y] by simp

lemmas count_if_moves = count_if_same count_if_up

lemma count_if_full: "count_if P xs = length xs \<longleftrightarrow> (\<forall>x \<in> set xs. P x)"
proof (induction xs)
  case (Cons x xs)
  then show ?case using count_if_le_length [of P xs] by auto
qed simp

lemma count_if_prefix_only:
  assumes "count_if P xs \<le> k" "k \<le> length xs" "\<forall>j < k. P (xs ! j)" "k \<le> j" "j < length xs"
  shows "\<not> P (xs ! j)"
proof -
  have "count_if P (take k xs) = length (take k xs)"
    using assms(2,3) by (subst count_if_full) (auto simp: in_set_conv_nth)
  moreover have "count_if P xs = count_if P (take k xs) + count_if P (drop k xs)"
    by (simp flip: count_if_append)
  ultimately have "count_if P (drop k xs) = 0" using assms(1,2) by simp
  moreover have "xs ! j \<in> set (drop k xs)"
    using assms(4,5) by (auto simp: in_set_conv_nth intro!: exI [of _ "j - k"])
  ultimately show ?thesis by (simp add: count_if_zero)
qed

lemma sum_update:
  fixes f :: "'b \<Rightarrow> nat"
  shows "i < length xs \<Longrightarrow> sum_list (map f (xs[i := x])) + f (xs ! i) = sum_list (map f xs) + f x"
proof (induction xs arbitrary: i)
  case (Cons y ys)
  then show ?case by (cases i) (auto simp: ac_simps)
qed simp

section \<open>Transition systems\<close>

inductive reach :: "('s \<Rightarrow> bool) \<Rightarrow> ('s \<Rightarrow> 's \<Rightarrow> bool) \<Rightarrow> 's \<Rightarrow> bool"
  for init :: "'s \<Rightarrow> bool" and step :: "'s \<Rightarrow> 's \<Rightarrow> bool" where
  reach_init: "init s \<Longrightarrow> reach init step s"
| reach_step: "reach init step s \<Longrightarrow> step s s' \<Longrightarrow> reach init step s'"

text \<open>A run of several steps.\<close>

inductive steps :: "('s \<Rightarrow> 's \<Rightarrow> bool) \<Rightarrow> 's \<Rightarrow> 's \<Rightarrow> bool" for step :: "'s \<Rightarrow> 's \<Rightarrow> bool" where
  steps_refl: "steps step s s"
| steps_more: "steps step s s' \<Longrightarrow> step s' s'' \<Longrightarrow> steps step s s''"

lemma reach_steps: "steps step s s' \<Longrightarrow> reach init step s \<Longrightarrow> reach init step s'"
  by (induction rule: steps.induct) (auto intro: reach_step)

lemma steps_head: "steps step s' s'' \<Longrightarrow> step s s' \<Longrightarrow> steps step s s''"
  by (induction rule: steps.induct) (auto intro: steps_refl steps_more)

lemma steps_one: "step s s' \<Longrightarrow> steps step s s'"
  by (rule steps_more [OF steps_refl])

lemma steps_trans: "steps step s s' \<Longrightarrow> steps step s' s'' \<Longrightarrow> steps step s s''"
  by (induction rule: steps.induct) (auto intro: steps_head)

lemma steps_keep:
  assumes "steps step s s'" "P s" "\<And>u v. step u v \<Longrightarrow> P u \<Longrightarrow> P v"
  shows "P s'"
  using assms by (induction rule: steps.induct) auto

locale safe_system =
  fixes init :: "'s \<Rightarrow> bool" and step :: "'s \<Rightarrow> 's \<Rightarrow> bool" and inv :: "'s \<Rightarrow> bool"
  assumes init_inv: "init s \<Longrightarrow> inv s"
    and step_inv: "inv s \<Longrightarrow> step s s' \<Longrightarrow> inv s'"
begin

lemma reach_inv: "reach init step s \<Longrightarrow> inv s"
  by (induction rule: reach.induct) (auto intro: init_inv step_inv)

lemma steps_inv: "steps step s s' \<Longrightarrow> inv s \<Longrightarrow> inv s'"
  by (induction rule: steps.induct) (auto intro: step_inv)

lemma reach_keep:
  assumes "reach init step s"
    and "\<And>s. init s \<Longrightarrow> P s"
    and "\<And>s s'. inv s \<Longrightarrow> step s s' \<Longrightarrow> P s \<Longrightarrow> P s'"
  shows "P s"
  using assms(1)
proof (induction rule: reach.induct)
  case (reach_init s)
  then show ?case by (rule assms(2))
next
  case (reach_step s s')
  then show ?case using assms(3) reach_inv by blast
qed

end

locale locked_system = safe_system +
  fixes holder :: "'s \<Rightarrow> 't option" and critical :: "'s \<Rightarrow> 't \<Rightarrow> bool"
  assumes critical_holds: "inv s \<Longrightarrow> critical s t \<Longrightarrow> holder s = Some t"
begin

lemma reach_mutex: "reach init step s \<Longrightarrow> critical s t \<Longrightarrow> critical s u \<Longrightarrow> t = u"
  by (drule reach_inv) (metis critical_holds option.inject)

end

text \<open>
  Refinement by a function \<open>abs\<close> to a specification: a step of the system is a step of the specification or changes
  nothing that the specification sees. Then every reachable state is seen as a reachable one, and what holds of those
  holds of it.
\<close>

locale refined_system = safe_system +
  fixes ainit :: "'a \<Rightarrow> bool" and astep :: "'a \<Rightarrow> 'a \<Rightarrow> bool" and abs :: "'s \<Rightarrow> 'a"
  assumes abs_init: "init s \<Longrightarrow> ainit (abs s)"
    and abs_step: "inv s \<Longrightarrow> step s s' \<Longrightarrow> abs s' = abs s \<or> astep (abs s) (abs s')"
begin

lemma reach_abs: "reach init step s \<Longrightarrow> reach ainit astep (abs s)"
proof (induction rule: reach.induct)
  case (reach_init s)
  then show ?case by (intro reach.reach_init abs_init)
next
  case (reach_step s s')
  then show ?case using abs_step [OF reach_inv] reach.reach_step [of ainit astep] by metis
qed

lemma steps_abs: "steps step s s' \<Longrightarrow> inv s \<Longrightarrow> steps astep (abs s) (abs s')"
proof (induction rule: steps.induct)
  case (steps_refl s)
  then show ?case by (intro steps.steps_refl)
next
  case (steps_more s s' s'')
  then show ?case using abs_step [OF steps_inv] steps.steps_more [of astep] by metis
qed

end

text \<open>
  Progress: while the goal is not reached, a live state has a run to a live state of smaller rank. Then a run to the goal exists. Nothing
  is said of other runs: this is what the system can still do, not what it must do.
\<close>

locale progressing_system =
  fixes step :: "'s \<Rightarrow> 's \<Rightarrow> bool" and live :: "'s \<Rightarrow> bool" and goal :: "'s \<Rightarrow> bool" and rank :: "'s \<Rightarrow> nat"
  assumes progress: "live s \<Longrightarrow> \<not> goal s \<Longrightarrow> \<exists>s'. steps step s s' \<and> live s' \<and> rank s' < rank s"
begin

lemma goal_reachable: "live s \<Longrightarrow> \<exists>s'. steps step s s' \<and> live s' \<and> goal s'"
proof (induction "rank s" arbitrary: s rule: less_induct)
  case less
  show ?case
  proof (cases "goal s")
    case True
    then show ?thesis using less.prems by (intro exI [of _ s]) (simp add: steps_refl)
  next
    case False
    obtain a where a: "steps step s a" "live a" "rank a < rank s" using progress [OF less.prems False] by blast
    obtain s' where "steps step a s'" "live s'" "goal s'" using less.hyps [OF a(3,2)] by blast
    then show ?thesis using steps_trans [OF a(1)] by blast
  qed
qed

end

text \<open>
  What a system must do: every run, however it is scheduled, comes to a state with \<open>P\<close> after finitely many steps, and no run ends before.
\<close>

inductive inevitable :: "('s \<Rightarrow> 's \<Rightarrow> bool) \<Rightarrow> ('s \<Rightarrow> bool) \<Rightarrow> 's \<Rightarrow> bool"
  for step :: "'s \<Rightarrow> 's \<Rightarrow> bool" and P :: "'s \<Rightarrow> bool" where
  now: "P s \<Longrightarrow> inevitable step P s"
| later: "\<exists>s'. step s s' \<Longrightarrow> \<forall>s'. step s s' \<longrightarrow> inevitable step P s' \<Longrightarrow> inevitable step P s"

lemma inevitable_run:
  assumes "inevitable step P s" "f 0 = s" "\<forall>i. step (f i) (f (Suc i))"
  shows "\<exists>i. P (f i)"
  using assms
proof (induction arbitrary: f rule: inevitable.induct)
  case (now s)
  then show ?case by blast
next
  case (later s)
  have "step s (f 1)" using later.prems by (metis One_nat_def)
  then have "\<forall>g. g 0 = f 1 \<longrightarrow> (\<forall>i. step (g i) (g (Suc i))) \<longrightarrow> (\<exists>i. P (g i))" using later.IH by blast
  from this [rule_format, of "\<lambda>i. f (Suc i)"] have "\<exists>i. P (f (Suc i))" using later.prems(2) by simp
  then show ?case by blast
qed

lemma inevitable_mono: "inevitable step P s \<Longrightarrow> (\<And>s. P s \<Longrightarrow> Q s) \<Longrightarrow> inevitable step Q s"
  by (induction rule: inevitable.induct) (auto intro: inevitable.intros)

text \<open>It is so when, short of the goal, a live state has a step and every step stays live and lowers the rank.\<close>

locale converging_system =
  fixes step :: "'s \<Rightarrow> 's \<Rightarrow> bool" and live :: "'s \<Rightarrow> bool" and goal :: "'s \<Rightarrow> bool" and rank :: "'s \<Rightarrow> nat"
  assumes goes_on: "live s \<Longrightarrow> \<not> goal s \<Longrightarrow> \<exists>s'. step s s'"
    and stays_live: "live s \<Longrightarrow> \<not> goal s \<Longrightarrow> step s s' \<Longrightarrow> live s'"
    and comes_closer: "live s \<Longrightarrow> \<not> goal s \<Longrightarrow> step s s' \<Longrightarrow> rank s' < rank s"
begin

lemma goal_inevitable: "live s \<Longrightarrow> inevitable step (\<lambda>s. live s \<and> goal s) s"
proof (induction "rank s" arbitrary: s rule: less_induct)
  case less
  show ?case
  proof (cases "goal s")
    case True
    then show ?thesis using less.prems by (blast intro: now)
  next
    case False
    have "inevitable step (\<lambda>s. live s \<and> goal s) s'" if "step s s'" for s'
      by (rule less.hyps [OF comes_closer stays_live]) (fact less.prems False that)+
    then show ?thesis using goes_on [OF less.prems False] by (intro later) simp_all
  qed
qed

end

text \<open>What must happen can happen.\<close>

sublocale converging_system \<subseteq> progressing_system step live goal rank
proof
  fix s
  assume s: "live s" "\<not> goal s"
  obtain s' where "step s s'" using goes_on [OF s] by blast
  then show "\<exists>s'. steps step s s' \<and> live s' \<and> rank s' < rank s" using stays_live [OF s] comes_closer [OF s] steps_one by metis
qed

section \<open>The contract of a first-in first-out queue\<close>

text \<open>
  The program has two queues: the ring \<open>work_queue\<close> of \<open>thread_pool\<close> and the \<open>std::queue\<close>
  \<open>event_storage_\<close> of \<open>tcp_worker_pool\<close>. Both promise the same: what goes in comes out once, in order.
  \<open>enq x q\<close> is \<open>None\<close> when the queue refuses the element.
\<close>

datatype 'a qop = Put 'a | Get

locale fifo =
  fixes qinv :: "'q \<Rightarrow> bool" and contents :: "'q \<Rightarrow> 'a list"
    and enq :: "'a \<Rightarrow> 'q \<Rightarrow> 'q option" and deq :: "'q \<Rightarrow> ('a \<times> 'q) option"
  assumes enq_inv: "qinv q \<Longrightarrow> enq x q = Some q' \<Longrightarrow> qinv q'"
    and enq_contents: "qinv q \<Longrightarrow> enq x q = Some q' \<Longrightarrow> contents q' = contents q @ [x]"
    and deq_inv: "qinv q \<Longrightarrow> deq q = Some (x, q') \<Longrightarrow> qinv q'"
    and deq_contents: "qinv q \<Longrightarrow> deq q = Some (x, q') \<Longrightarrow> contents q = x # contents q'"
    and deq_empty: "qinv q \<Longrightarrow> deq q = None \<longleftrightarrow> contents q = []"

text \<open>
  A run of operations, with what was accepted and what was delivered: a refused \<open>Put\<close> leaves the
  queue alone, a \<open>Get\<close> on an empty queue delivers nothing.
\<close>

fun qrun :: "('a \<Rightarrow> 'q \<Rightarrow> 'q option) \<Rightarrow> ('q \<Rightarrow> ('a \<times> 'q) option) \<Rightarrow> 'a qop list \<Rightarrow> 'q \<Rightarrow> 'a list \<times> 'a list \<times> 'q"
where
  "qrun enq deq [] q = ([], [], q)"
| "qrun enq deq (Put x # ops) q =
     (case enq x q of None \<Rightarrow> qrun enq deq ops q
      | Some q' \<Rightarrow> (case qrun enq deq ops q' of (acc, del, r) \<Rightarrow> (x # acc, del, r)))"
| "qrun enq deq (Get # ops) q =
     (case deq q of None \<Rightarrow> qrun enq deq ops q
      | Some (x, q') \<Rightarrow> (case qrun enq deq ops q' of (acc, del, r) \<Rightarrow> (acc, x # del, r)))"

context fifo
begin

lemma qrun_conserves:
  assumes "qinv q" "qrun enq deq ops q = (acc, del, r)"
  shows "qinv r \<and> contents q @ acc = del @ contents r"
  using assms
proof (induction ops arbitrary: q acc del r)
  case Nil
  then show ?case by simp
next
  case (Cons op ops)
  show ?case
  proof (cases op)
    case (Put x)
    with Cons show ?thesis
      by (auto split: option.splits prod.splits dest: enq_inv enq_contents) (metis enq_contents enq_inv append_Cons append_Nil append_assoc)+
  next
    case Get
    with Cons show ?thesis
      by (auto split: option.splits prod.splits) (metis deq_contents deq_inv append_Cons)+
  qed
qed

lemma deq_head: "qinv q \<Longrightarrow> contents q = x # xs \<Longrightarrow> \<exists>q'. deq q = Some (x, q') \<and> contents q' = xs \<and> qinv q'"
  using deq_empty [of q] deq_contents [of q] deq_inv [of q] by (cases "deq q") auto

end

end
