(* ===== verification/Worker_Sync.thy ===== *)
theory Worker_Sync
  imports NB_Prelude "HOL-Library.Word"
begin

text \<open>
  \<open>worker_sync.h\<close>: \<open>worker_lock\<close>, \<open>worker_lockguard\<close> and \<open>worker_cond\<close> over a POSIX mutex and condition
  variable.

  A default POSIX mutex is free, held by a thread, or destroyed. Locking a held mutex blocks its caller;
  unlocking one that the caller does not hold, destroying one that is held, and any use of a destroyed
  one are undefined (POSIX, \<open>pthread_mutex_destroy\<close>, \<open>pthread_mutex_unlock\<close>): the outcome
  \<open>Mutex_Misuse\<close>. The program ignores the return codes of these calls in this header, so the
  definitions have none; \<open>thread_pool.cpp\<close> tests them, and its model does.
\<close>

section \<open>POSIX mutexes\<close>

type_synonym tid = nat

datatype mutex = Mutex_Free | Mutex_Held tid | Mutex_Destroyed

fun mutex_lock :: "tid \<Rightarrow> mutex \<Rightarrow> mutex outcome" where
  "mutex_lock t Mutex_Free = Ret (Mutex_Held t)"
| "mutex_lock t (Mutex_Held u) = Stop Would_Block"
| "mutex_lock t Mutex_Destroyed = Stop Mutex_Misuse"

fun mutex_unlock :: "tid \<Rightarrow> mutex \<Rightarrow> mutex outcome" where
  "mutex_unlock t Mutex_Free = Stop Mutex_Misuse"
| "mutex_unlock t (Mutex_Held u) = (if t = u then Ret Mutex_Free else Stop Mutex_Misuse)"
| "mutex_unlock t Mutex_Destroyed = Stop Mutex_Misuse"

fun mutex_destroy :: "mutex \<Rightarrow> mutex outcome" where
  "mutex_destroy Mutex_Free = Ret Mutex_Destroyed"
| "mutex_destroy (Mutex_Held u) = Stop Mutex_Misuse"
| "mutex_destroy Mutex_Destroyed = Stop Mutex_Misuse"

fun mutex_holder :: "mutex \<Rightarrow> tid option" where
  "mutex_holder (Mutex_Held t) = Some t"
| "mutex_holder m = None"

fun_cases mutex_lock_RetE: "mutex_lock t m = Ret m'"
fun_cases mutex_unlock_RetE: "mutex_unlock t m = Ret m'"

lemma mutex_lock_Ret_iff: "mutex_lock t m = Ret m' \<longleftrightarrow> m = Mutex_Free \<and> m' = Mutex_Held t"
  by (cases m) auto

lemma mutex_unlock_Ret_iff: "mutex_unlock t m = Ret m' \<longleftrightarrow> m = Mutex_Held t \<and> m' = Mutex_Free"
  by (cases m) auto

section \<open>worker\_lock and worker\_lockguard\<close>

record worker_lock =
  wl_mutex :: mutex

definition worker_lock_ctor :: worker_lock where
  "worker_lock_ctor = \<lparr>wl_mutex = Mutex_Free\<rparr>"

definition worker_lock_lock :: "tid \<Rightarrow> worker_lock \<Rightarrow> worker_lock outcome" where
  "worker_lock_lock t l = bind_outcome (mutex_lock t (wl_mutex l)) (\<lambda>m. Ret (l\<lparr>wl_mutex := m\<rparr>))"

definition worker_lock_unlock :: "tid \<Rightarrow> worker_lock \<Rightarrow> worker_lock outcome" where
  "worker_lock_unlock t l = bind_outcome (mutex_unlock t (wl_mutex l)) (\<lambda>m. Ret (l\<lparr>wl_mutex := m\<rparr>))"

definition worker_lock_dtor :: "tid \<Rightarrow> worker_lock \<Rightarrow> worker_lock outcome" where
  "worker_lock_dtor t l =
     bind_outcome (mutex_lock t (wl_mutex l)) (\<lambda>m.
     bind_outcome (mutex_destroy m) (\<lambda>m'. Ret (l\<lparr>wl_mutex := m'\<rparr>)))"

text \<open>The guard holds a reference to the lock, so its operations are operations on that lock.\<close>

definition worker_lockguard_ctor :: "tid \<Rightarrow> worker_lock \<Rightarrow> worker_lock outcome" where
  "worker_lockguard_ctor t l = worker_lock_lock t l"

definition worker_lockguard_dtor :: "tid \<Rightarrow> worker_lock \<Rightarrow> worker_lock outcome" where
  "worker_lockguard_dtor t l = worker_lock_unlock t l"

definition worker_lockguard_unlock :: "tid \<Rightarrow> worker_lock \<Rightarrow> worker_lock outcome" where
  "worker_lockguard_unlock t l = worker_lock_unlock t l"

text \<open>
  A block \<open>{ worker_lockguard lck(l); body }\<close>: the constructor, the body on the data and the lock, the
  destructor at the closing brace.
\<close>

definition with_lockguard ::
  "tid \<Rightarrow> (worker_lock \<times> 's \<Rightarrow> ('a \<times> worker_lock \<times> 's) outcome) \<Rightarrow> worker_lock \<times> 's \<Rightarrow> ('a \<times> worker_lock \<times> 's) outcome"
where
  "with_lockguard t body ls =
     bind_outcome (worker_lockguard_ctor t (fst ls)) (\<lambda>l1.
     bind_outcome (body (l1, snd ls)) (\<lambda>(r, l2, s2).
     bind_outcome (worker_lockguard_dtor t l2) (\<lambda>l3. Ret (r, l3, s2))))"

lemmas worker_lock_defs = worker_lock_ctor_def worker_lock_lock_def worker_lock_unlock_def worker_lock_dtor_def
  worker_lockguard_ctor_def worker_lockguard_dtor_def worker_lockguard_unlock_def

lemma with_lockguard_free:
  assumes "wl_mutex l = Mutex_Free"
    and "body (l\<lparr>wl_mutex := Mutex_Held t\<rparr>, s) = Ret (r, l\<lparr>wl_mutex := Mutex_Held t\<rparr>, s')"
  shows "with_lockguard t body (l, s) = Ret (r, l, s')"
  using assms by (simp add: with_lockguard_def worker_lock_defs)

lemma with_lockguard_held:
  "wl_mutex l = Mutex_Held u \<Longrightarrow> with_lockguard t body (l, s) = Stop Would_Block"
  by (simp add: with_lockguard_def worker_lock_defs)

section \<open>worker\_cond\<close>

text \<open>
  A condition variable is the list of the threads blocked on it. \<open>notify_one\<close> wakes one of them; which
  one is the system's choice, the argument \<open>k\<close> (an index into the list).
\<close>

record timespec =
  tv_sec :: int
  tv_nsec :: int

record worker_cond =
  blocked :: "tid list"

definition ETIMEDOUT :: int where
  "ETIMEDOUT = 110"

definition worker_cond_ctor :: worker_cond where
  "worker_cond_ctor = \<lparr>blocked = []\<rparr>"

definition worker_cond_notify_one :: "nat \<Rightarrow> worker_cond \<Rightarrow> tid option \<times> worker_cond" where
  "worker_cond_notify_one k c =
     (if blocked c = [] then (None, c)
      else let j = k mod length (blocked c)
           in (Some (blocked c ! j), c\<lparr>blocked := take j (blocked c) @ drop (Suc j) (blocked c)\<rparr>))"

definition worker_cond_notify_all :: "worker_cond \<Rightarrow> tid list \<times> worker_cond" where
  "worker_cond_notify_all c = (blocked c, c\<lparr>blocked := []\<rparr>)"

text \<open>\<open>wait()\<close> first releases the mutex and blocks, in one step; once woken it takes the mutex again.\<close>

definition worker_cond_wait_begin :: "tid \<Rightarrow> worker_lock \<Rightarrow> worker_cond \<Rightarrow> (worker_lock \<times> worker_cond) outcome" where
  "worker_cond_wait_begin t l c =
     bind_outcome (mutex_unlock t (wl_mutex l)) (\<lambda>m. Ret (l\<lparr>wl_mutex := m\<rparr>, c\<lparr>blocked := blocked c @ [t]\<rparr>))"

definition worker_cond_wait_end :: "tid \<Rightarrow> worker_lock \<Rightarrow> worker_lock outcome" where
  "worker_cond_wait_end t l = worker_lock_lock t l"

text \<open>\<open>wait_for\<close>: the absolute deadline, and its result from the code of \<open>pthread_cond_timedwait\<close>.\<close>

definition worker_cond_deadline :: "timespec \<Rightarrow> 32 word \<Rightarrow> timespec" where
  "worker_cond_deadline now seconds = now\<lparr>tv_sec := tv_sec now + uint seconds\<rparr>"

definition worker_cond_wait_for_result :: "int \<Rightarrow> bool" where
  "worker_cond_wait_for_result rc \<longleftrightarrow> rc = ETIMEDOUT"

lemma notify_one_removes:
  assumes "blocked c \<noteq> []" "worker_cond_notify_one k c = (w, c')"
  shows "\<exists>t. w = Some t \<and> t \<in> set (blocked c) \<and> length (blocked c') = length (blocked c) - 1
           \<and> set (blocked c) = insert t (set (blocked c'))"
proof -
  define j where "j = k mod length (blocked c)"
  have j: "j < length (blocked c)" using assms(1) by (simp add: j_def)
  have split: "blocked c = take j (blocked c) @ blocked c ! j # drop (Suc j) (blocked c)"
    using j by (rule id_take_nth_drop)
  have w: "w = Some (blocked c ! j)" and c': "blocked c' = take j (blocked c) @ drop (Suc j) (blocked c)"
    using assms by (auto simp: worker_cond_notify_one_def Let_def j_def)
  have "set (blocked c) = insert (blocked c ! j) (set (blocked c'))"
    unfolding c' by (subst split) auto
  with w c' j show ?thesis by simp
qed

section \<open>Properties\<close>

text \<open>
  A guarded block is balanced: on a free lock, a body that computes a result and a new data state and
  leaves the lock as the guard's constructor set it makes the whole block return exactly that result and
  state with the lock free again.
\<close>

theorem lockguard_scope:
  assumes "wl_mutex l = Mutex_Free"
    and "body (l\<lparr>wl_mutex := Mutex_Held t\<rparr>, s) = Ret (r, l\<lparr>wl_mutex := Mutex_Held t\<rparr>, s')"
  shows "with_lockguard t body (l, s) = Ret (r, l, s')"
  using assms by (rule with_lockguard_free)

theorem lockguard_scope_witness:
  "with_lockguard 3 (\<lambda>(l, q). Ret ((), l, q @ [7 :: int])) (worker_lock_ctor, [5]) = Ret ((), worker_lock_ctor, [5, 7])"
  by (rule lockguard_scope) (simp_all add: worker_lock_ctor_def)

text \<open>
  \<open>~worker_lock\<close> locks the mutex and then destroys it, so the destructor never completes: whatever the
  state of the lock, it blocks or ends in the undefined destruction of a locked mutex. In the same way
  calling \<open>worker_lockguard::unlock\<close> inside a guarded block makes the guard's destructor unlock a mutex
  that is already free, which is undefined.
\<close>

theorem worker_lock_misuse:
  "(\<nexists>l'. worker_lock_dtor t l = Ret l') \<and>
   (\<nexists>r. with_lockguard t (\<lambda>(l, s). bind_outcome (worker_lockguard_unlock t l) (\<lambda>l'. Ret ((), l', s))) (l, s) = Ret r)"
  by (cases "wl_mutex l") (simp_all add: with_lockguard_def worker_lock_defs)

end
