(* ===== verification/C_Strings.thy ===== *)
theory C_Strings
  imports NB_Prelude
begin

text \<open>
  C strings and character arrays: NUL-terminated strings in arrays of fixed size (\<open>strlen\<close>, \<open>strcpy\<close>, \<open>sprintf\<close> with
  the result given), decimal printing and reading (\<open>%d\<close>, \<open>atoi\<close>). Bytes are of type \<open>char\<close>. A write past the end
  of an array is the outcome \<open>Buffer_Overflow\<close>, a search for a terminator that is not there \<open>Bad_Index\<close>.
\<close>

section \<open>Arrays of characters\<close>

abbreviation NUL :: char where "NUL \<equiv> CHR 0x00"

definition c_strlen :: "char list \<Rightarrow> nat outcome" where
  "c_strlen buf = (if NUL \<in> set buf then Ret (length (takeWhile (\<lambda>c. c \<noteq> NUL) buf)) else Stop Bad_Index)"

text \<open>The C string that starts at an offset.\<close>

definition c_str :: "char list \<Rightarrow> nat \<Rightarrow> string" where
  "c_str buf off = takeWhile (\<lambda>c. c \<noteq> NUL) (drop off buf)"

text \<open>\<open>strcpy(buf + off, s)\<close>, also the effect of a \<open>sprintf\<close> that prints \<open>s\<close>.\<close>

definition put_cstr :: "char list \<Rightarrow> nat \<Rightarrow> string \<Rightarrow> char list outcome" where
  "put_cstr buf off s =
     (if off + length s + 1 \<le> length buf
      then Ret (take off buf @ s @ NUL # drop (off + length s + 1) buf) else Stop Buffer_Overflow)"

text \<open>\<open>read(fd, buf, n)\<close> stores the bytes it delivers at the start.\<close>

definition put_bytes :: "char list \<Rightarrow> string \<Rightarrow> char list" where
  "put_bytes buf bs = take (length buf) bs @ drop (length bs) buf"

definition no_nul :: "string \<Rightarrow> bool" where
  "no_nul s \<longleftrightarrow> NUL \<notin> set s"

lemma no_nul_append [simp]: "no_nul (s @ t) \<longleftrightarrow> no_nul s \<and> no_nul t"
  by (auto simp: no_nul_def)

lemma no_nul_simps [simp]: "no_nul []" "no_nul (c # s) \<longleftrightarrow> c \<noteq> NUL \<and> no_nul s"
  by (auto simp: no_nul_def)

lemma takeWhile_no_nul: "no_nul s \<Longrightarrow> takeWhile (\<lambda>c. c \<noteq> NUL) (s @ NUL # r) = s"
  by (induction s) auto

lemma length_put_cstr: "put_cstr buf off s = Ret buf' \<Longrightarrow> length buf' = length buf"
  by (auto simp: put_cstr_def split: if_splits)

lemma length_put_bytes [simp]: "length (put_bytes buf bs) = length buf"
  by (auto simp: put_bytes_def)

lemma put_cstr_ok:
  "off + length s + 1 \<le> length buf \<Longrightarrow>
     put_cstr buf off s = Ret (take off buf @ s @ NUL # drop (off + length s + 1) buf)"
  by (simp add: put_cstr_def)

lemma put_cstr_then_strlen:
  assumes "length s + 1 \<le> length buf" "no_nul s"
  shows "\<exists>buf'. put_cstr buf 0 s = Ret buf' \<and> c_strlen buf' = Ret (length s) \<and> length buf' = length buf
     \<and> buf' = s @ NUL # drop (length s + 1) buf"
  using assms by (auto simp: put_cstr_def c_strlen_def takeWhile_no_nul)

text \<open>Printing one string and a second one behind it gives the concatenation.\<close>

lemma put_cstr_twice:
  assumes "length s + length u + 1 \<le> length buf"
  shows "put_cstr (s @ NUL # drop (length s + 1) buf) (length s) u = Ret ((s @ u) @ NUL # drop (length (s @ u) + 1) buf)"
proof -
  have "length s + length u \<le> length buf - Suc 0" using assms by simp
  then show ?thesis using assms by (simp add: put_cstr_def add.commute)
qed

section \<open>Decimal numbers\<close>

definition digit_char :: "nat \<Rightarrow> char" where
  "digit_char d = char_of (48 + d)"

fun dec_nat :: "nat \<Rightarrow> string" where
  "dec_nat n = (if n < 10 then [digit_char n] else dec_nat (n div 10) @ [digit_char (n mod 10)])"

declare dec_nat.simps [simp del]

definition dec_int :: "int \<Rightarrow> string" where
  "dec_int i = (if i < 0 then CHR ''-'' # dec_nat (nat (- i)) else dec_nat (nat i))"

text \<open>
  \<open>atoi\<close>: leading white space, an optional sign, digits up to the first other character. The value is
  the mathematical one (\<open>atoi\<close> is undefined when it does not fit an \<open>int\<close>).
\<close>

definition is_digit :: "char \<Rightarrow> bool" where
  "is_digit c \<longleftrightarrow> 48 \<le> (of_char c :: nat) \<and> (of_char c :: nat) \<le> 57"

fun atoi_digits :: "nat \<Rightarrow> string \<Rightarrow> nat" where
  "atoi_digits acc [] = acc"
| "atoi_digits acc (c # cs) = (if is_digit c then atoi_digits (10 * acc + (of_char c - 48)) cs else acc)"

definition is_space :: "char \<Rightarrow> bool" where
  "is_space c \<longleftrightarrow> c \<in> {CHR '' '', CHR 0x09, CHR 0x0A, CHR 0x0B, CHR 0x0C, CHR 0x0D}"

definition atoi :: "string \<Rightarrow> int" where
  "atoi s = (case dropWhile is_space s of
      [] \<Rightarrow> 0
    | c # cs \<Rightarrow> if c = CHR ''-'' then - int (atoi_digits 0 cs)
                else if c = CHR ''+'' then int (atoi_digits 0 cs)
                else int (atoi_digits 0 (c # cs)))"

lemma digit_char_code: "d < 10 \<Longrightarrow> (of_char (digit_char d) :: nat) = 48 + d"
  by (simp add: digit_char_def)

lemma digit_char_digit: "d < 10 \<Longrightarrow> is_digit (digit_char d)"
  by (simp add: is_digit_def digit_char_code)

lemma not_digit_NUL: "\<not> is_digit NUL"
  by (simp add: is_digit_def)

lemma dec_nat_digits: "\<forall>c \<in> set (dec_nat n). is_digit c"
proof (induction n rule: dec_nat.induct)
  case (1 n)
  then show ?case by (subst dec_nat.simps) (auto simp: digit_char_digit)
qed

lemma dec_nat_nonempty: "dec_nat n \<noteq> []"
  by (subst dec_nat.simps) simp

lemma dec_nat_no_nul: "no_nul (dec_nat n)"
  using dec_nat_digits [of n] not_digit_NUL by (auto simp: no_nul_def)

lemma atoi_digits_append:
  "\<forall>c \<in> set s. is_digit c \<Longrightarrow> atoi_digits acc (s @ t) = atoi_digits (atoi_digits acc s) t"
  by (induction s arbitrary: acc) auto

lemma atoi_digits_dec: "atoi_digits 0 (dec_nat n) = n"
proof (induction n rule: dec_nat.induct)
  case (1 n)
  show ?case
  proof (cases "n < 10")
    case True
    then show ?thesis by (simp add: dec_nat.simps [of n] digit_char_digit digit_char_code)
  next
    case False
    then have "dec_nat n = dec_nat (n div 10) @ [digit_char (n mod 10)]" by (simp add: dec_nat.simps [of n])
    then show ?thesis
      using 1 False dec_nat_digits [of "n div 10"]
      by (simp add: atoi_digits_append digit_char_digit digit_char_code)
  qed
qed

text \<open>\<open>atoi\<close> reads back what \<open>%d\<close> prints.\<close>

lemma atoi_dec_nat: "atoi (dec_nat n) = int n"
proof -
  obtain c cs where c: "dec_nat n = c # cs" using dec_nat_nonempty by (cases "dec_nat n") auto
  then have d: "is_digit c" using dec_nat_digits [of n] by simp
  then have "\<not> is_space c" "c \<noteq> CHR ''-''" "c \<noteq> CHR ''+''"
    by (auto simp: is_space_def is_digit_def)
  then show ?thesis using atoi_digits_dec [of n] c by (simp add: atoi_def)
qed

end
