(* ===== verification/OS_Interface.thy ===== *)
theory OS_Interface
  imports C_Strings "HOL-Library.Word"
begin

text \<open>
  The calls the program makes into the operating system, and the sequencing of code that makes them.

  The system is not under src/: it is the parameter \<open>os\<close> of every definition that uses it, a function from the
  calls made so far, with their results, and the next call to its return value and what it writes
  through its pointer arguments. Quantifying over \<open>os\<close> covers every behaviour of the system. What a piece of code
  does is the list of calls it appends to the trace and its outcome; after a \<open>Stop\<close> nothing more happens.
\<close>

section \<open>Data that crosses the interface\<close>

type_synonym u16 = "16 word"
type_synonym u32 = "32 word"

record epoll_event =
  ev_events :: u32
  ev_fd :: int

record sockaddr_in =
  sin_family :: int
  sin_port :: u16
  sin_addr :: u32

record termios =
  c_iflag :: u32
  c_oflag :: u32
  c_cflag :: u32
  c_lflag :: u32
  c_cc :: "8 word list"

datatype syscall =
    Sys_socket int int int
  | Sys_setsockopt int int int int
  | Sys_bind int sockaddr_in
  | Sys_listen int int
  | Sys_accept int
  | Sys_connect int sockaddr_in
  | Sys_close int
  | Sys_read int nat
  | Sys_send int string int
  | Sys_fcntl_getfl int
  | Sys_fcntl_setfl int int
  | Sys_fcntl_setown int int
  | Sys_getpid
  | Sys_epoll_create1 int
  | Sys_epoll_ctl_add int int epoll_event
  | Sys_epoll_ctl_del int int
  | Sys_epoll_wait int nat int
  | Sys_sigaction int int
  | Sys_tcgetattr int
  | Sys_tcsetattr int termios
  | Sys_perror string
  | Sys_stdout string
  | Sys_stderr string
  | Sys_sleep int
  | Sys_open string int
  | Sys_gettid
  | Sys_sched_setaffinity int "int set"

text \<open>What a call writes through its pointer arguments.\<close>

datatype sysout =
    No_Out
  | Out_Bytes string
  | Out_Events "epoll_event list"
  | Out_Addr sockaddr_in
  | Out_Termios termios

type_synonym trace = "(syscall \<times> int) list"
type_synonym os = "trace \<Rightarrow> syscall \<Rightarrow> int \<times> sysout"
type_synonym 'a io = "trace \<Rightarrow> 'a outcome \<times> trace"

text \<open>The newline of a format string.\<close>

definition newline :: string where
  "newline = [CHR 0x0A]"

section \<open>Sequencing\<close>

named_theorems io_simps \<open>unfolding code that makes system calls\<close>

definition ret :: "'a \<Rightarrow> 'a io" where
  "ret x t = (Ret x, t)"

definition stop :: "fault \<Rightarrow> 'a io" where
  "stop e t = (Stop e, t)"

definition lift :: "'a outcome \<Rightarrow> 'a io" where
  "lift m t = (m, t)"

definition bind_io :: "'a io \<Rightarrow> ('a \<Rightarrow> 'b io) \<Rightarrow> 'b io" where
  "bind_io m f t = (case m t of (Ret x, t') \<Rightarrow> f x t' | (Stop e, t') \<Rightarrow> (Stop e, t'))"

text \<open>A system call whose return value, or return value and output, the code uses.\<close>

definition call_out :: "os \<Rightarrow> syscall \<Rightarrow> (int \<Rightarrow> sysout \<Rightarrow> 'a io) \<Rightarrow> 'a io" where
  "call_out os c k t = k (fst (os t c)) (snd (os t c)) (t @ [(c, fst (os t c))])"

definition call :: "os \<Rightarrow> syscall \<Rightarrow> (int \<Rightarrow> 'a io) \<Rightarrow> 'a io" where
  "call os c k = call_out os c (\<lambda>r out. k r)"

text \<open>A call whose result is ignored.\<close>

definition call_void :: "os \<Rightarrow> syscall \<Rightarrow> 'a io \<Rightarrow> 'a io" where
  "call_void os c k = call_out os c (\<lambda>r out. k)"

lemmas [io_simps] = ret_def stop_def lift_def bind_io_def call_out_def call_def call_void_def

lemma bind_io_eq_Ret:
  "bind_io m f t = (Ret y, t') \<longleftrightarrow> (\<exists>x t1. m t = (Ret x, t1) \<and> f x t1 = (Ret y, t'))"
  by (auto simp: bind_io_def split: prod.splits outcome.splits)

section \<open>The calls a piece of code makes\<close>

text \<open>The code only appends to the trace.\<close>

definition appends :: "'a io \<Rightarrow> bool" where
  "appends m \<longleftrightarrow> (\<forall>t. \<exists>cs. snd (m t) = t @ cs)"

definition new_calls :: "'a io \<Rightarrow> trace \<Rightarrow> trace" where
  "new_calls m t = drop (length t) (snd (m t))"

text \<open>Every call the code makes, whatever the system answers, satisfies \<open>P\<close>.\<close>

definition only_calls :: "(syscall \<Rightarrow> bool) \<Rightarrow> 'a io \<Rightarrow> bool" where
  "only_calls P m \<longleftrightarrow> (\<forall>t. \<exists>cs. snd (m t) = t @ cs \<and> (\<forall>c \<in> set cs. P (fst c)))"

lemma only_calls_ret [intro, simp]: "only_calls P (ret x)"
  by (simp add: only_calls_def ret_def)

lemma only_calls_stop [intro, simp]: "only_calls P (stop e)"
  by (simp add: only_calls_def stop_def)

lemma only_calls_lift [intro, simp]: "only_calls P (lift m)"
  by (simp add: only_calls_def lift_def)

lemma only_calls_call_out [intro]:
  assumes "P c" "\<And>r out. only_calls P (k r out)"
  shows "only_calls P (call_out os c k)"
  unfolding only_calls_def
proof
  fix t
  let ?t = "t @ [(c, fst (os t c))]"
  from assms(2) obtain cs where "snd (k (fst (os t c)) (snd (os t c)) ?t) = ?t @ cs" "\<forall>c \<in> set cs. P (fst c)"
    unfolding only_calls_def by blast
  with assms(1) show "\<exists>cs. snd (call_out os c k t) = t @ cs \<and> (\<forall>c \<in> set cs. P (fst c))"
    by (intro exI [of _ "(c, fst (os t c)) # cs"]) (simp add: call_out_def)
qed

lemma only_calls_call [intro]: "P c \<Longrightarrow> (\<And>r. only_calls P (k r)) \<Longrightarrow> only_calls P (call os c k)"
  by (simp add: call_def only_calls_call_out)

lemma only_calls_call_void [intro]: "P c \<Longrightarrow> only_calls P k \<Longrightarrow> only_calls P (call_void os c k)"
  by (simp add: call_void_def only_calls_call_out)

lemma only_calls_bind [intro]:
  assumes "only_calls P m" "\<And>x. only_calls P (f x)"
  shows "only_calls P (bind_io m f)"
  unfolding only_calls_def
proof
  fix t
  obtain r t1 where m: "m t = (r, t1)" by (cases "m t")
  from assms(1) obtain cs where cs: "snd (m t) = t @ cs" "\<forall>c \<in> set cs. P (fst c)"
    unfolding only_calls_def by blast
  with m have t1: "t1 = t @ cs" by simp
  show "\<exists>cs. snd (bind_io m f t) = t @ cs \<and> (\<forall>c \<in> set cs. P (fst c))"
  proof (cases r)
    case (Ret x)
    from assms(2) obtain ds where "snd (f x t1) = t1 @ ds" "\<forall>c \<in> set ds. P (fst c)"
      unfolding only_calls_def by blast
    then show ?thesis using m Ret t1 cs(2) by (intro exI [of _ "cs @ ds"]) (auto simp: bind_io_def)
  next
    case (Stop e)
    then show ?thesis using m t1 cs(2) by (intro exI [of _ cs]) (auto simp: bind_io_def)
  qed
qed

lemma only_calls_mono: "only_calls P m \<Longrightarrow> (\<And>c. P c \<Longrightarrow> Q c) \<Longrightarrow> only_calls Q m"
  unfolding only_calls_def by blast

lemma only_callsD:
  "only_calls P m \<Longrightarrow> m t = (r, t') \<Longrightarrow> \<exists>cs. t' = t @ cs \<and> (\<forall>c \<in> set cs. P (fst c))"
  unfolding only_calls_def by (metis snd_conv)

section \<open>The macros of utils.h\<close>

text \<open>
  \<open>CHECK_PERROR(ck, msg)\<close> reports a -1 and goes on; \<open>CHECK_PERROR_ABT(ck, msg)\<close> reports it and aborts.
\<close>

definition CHECK_PERROR :: "os \<Rightarrow> int \<Rightarrow> string \<Rightarrow> 'a io \<Rightarrow> 'a io" where
  "CHECK_PERROR os ck msg k = (if ck = -1 then call_void os (Sys_perror msg) k else k)"

definition CHECK_PERROR_ABT :: "os \<Rightarrow> int \<Rightarrow> string \<Rightarrow> 'a io \<Rightarrow> 'a io" where
  "CHECK_PERROR_ABT os ck msg k = (if ck = -1 then call_void os (Sys_perror msg) (stop Abort_Called) else k)"

lemma only_calls_CHECK_PERROR [intro]:
  "(ck = -1 \<Longrightarrow> P (Sys_perror msg)) \<Longrightarrow> only_calls P k \<Longrightarrow> only_calls P (CHECK_PERROR os ck msg k)"
  by (auto simp: CHECK_PERROR_def)

lemma only_calls_CHECK_PERROR_ABT [intro]:
  "(ck = -1 \<Longrightarrow> P (Sys_perror msg)) \<Longrightarrow> only_calls P k \<Longrightarrow> only_calls P (CHECK_PERROR_ABT os ck msg k)"
  by (auto simp: CHECK_PERROR_ABT_def)

section \<open>Byte order\<close>

text \<open>\<open>htons\<close> and \<open>htonl\<close> on a little-endian machine swap the bytes.\<close>

definition htons :: "u16 \<Rightarrow> u16" where
  "htons p = or (push_bit 8 p) (drop_bit 8 p)"

definition htonl :: "u32 \<Rightarrow> u32" where
  "htonl a = or (or (push_bit 24 a) (and (push_bit 8 a) 0x00FF0000)) (or (and (drop_bit 8 a) 0x0000FF00) (drop_bit 24 a))"

lemma htons_htons [simp]: "htons (htons p) = p"
  unfolding htons_def by (rule bit_eqI) (auto simp: bit_or_iff bit_push_bit_iff bit_drop_bit_eq)

end
