(* ===== verification/Thread_Pool.thy ===== *)
theory Thread_Pool
  imports Worker_Sync OS_Interface
begin

text \<open>
  \<open>thread_pool.h\<close> and \<open>thread_pool.cpp\<close>, the state of the pool and its operations one call at a time:
  the constructor, \<open>create\<close>, \<open>submit\<close>, the part of \<open>thread_routine\<close> that takes a task, \<open>thread_pool_task::run\<close>,
  the start of \<open>shutdown_interval\<close> and \<open>free_resource\<close>. The interleaving of the pool's threads is in
  \<open>Thread_Pool_Threads\<close>.

  A field \<open>x_\<close> of the class is the record field \<open>tp_x\<close> (an Isabelle name cannot end in an underscore). The C
  \<open>int\<close> fields are of type \<open>int\<close>: the invariant \<open>pool_inv\<close> bounds each of them by \<open>MAX_QUEUE\<close>, so that they
  never overflow. The two \<open>atomic_int16_t\<close> counters are 16-bit words. The return codes of the pthread calls
  are arguments (\<open>0\<close> is success). The number of processors, \<open>CPU_CORE\<close>, is the argument \<open>cores\<close>.
  The work queue is a ring: \<open>pool_tasks\<close> reads its contents as a list, and the operations refine those of
  a bounded list queue.
\<close>

section \<open>Constants and data\<close>

definition THREADPOOL_INVALID :: int where "THREADPOOL_INVALID = -1"
definition THREADPOOL_LOCK_FAILURE :: int where "THREADPOOL_LOCK_FAILURE = -2"
definition THREADPOOL_QUEUE_FULL :: int where "THREADPOOL_QUEUE_FULL = -3"
definition THREADPOOL_SHUTDOWN :: int where "THREADPOOL_SHUTDOWN = -4"
definition THREADPOOL_THREAD_FAILURE :: int where "THREADPOOL_THREAD_FAILURE = -5"
definition THREADPOOL_GRACEFUL :: int where "THREADPOOL_GRACEFUL = -6"

definition MAX_THREADS :: int where "MAX_THREADS = 2 ^ 10"
definition MAX_QUEUE :: int where "MAX_QUEUE = 2 ^ 16 - 1"

lemmas threadpool_codes = THREADPOOL_INVALID_def THREADPOOL_LOCK_FAILURE_def THREADPOOL_QUEUE_FULL_def
  THREADPOOL_SHUTDOWN_def THREADPOOL_THREAD_FAILURE_def THREADPOOL_GRACEFUL_def

datatype shutdown_mode = IMMEDIATE_SHUTDOWN | GRACEFUL_SHUTDOWN

fun shutdown_mode_value :: "shutdown_mode \<Rightarrow> int" where
  "shutdown_mode_value IMMEDIATE_SHUTDOWN = 1"
| "shutdown_mode_value GRACEFUL_SHUTDOWN = 2"

text \<open>The enumerators are ordered by their values, as in C.\<close>

instantiation shutdown_mode :: linorder
begin

definition less_eq_shutdown_mode :: "shutdown_mode \<Rightarrow> shutdown_mode \<Rightarrow> bool" where
  "less_eq_shutdown_mode m n \<longleftrightarrow> shutdown_mode_value m \<le> shutdown_mode_value n"

definition less_shutdown_mode :: "shutdown_mode \<Rightarrow> shutdown_mode \<Rightarrow> bool" where
  "less_shutdown_mode m n \<longleftrightarrow> shutdown_mode_value m < shutdown_mode_value n"

instance
proof
  fix x y z :: shutdown_mode
  show "x < y \<longleftrightarrow> x \<le> y \<and> \<not> y \<le> x" by (auto simp: less_eq_shutdown_mode_def less_shutdown_mode_def)
  show "x \<le> x" by (simp add: less_eq_shutdown_mode_def)
  show "x \<le> y \<Longrightarrow> y \<le> z \<Longrightarrow> x \<le> z" by (simp add: less_eq_shutdown_mode_def)
  show "x \<le> y \<Longrightarrow> y \<le> x \<Longrightarrow> x = y" by (cases x; cases y) (simp_all add: less_eq_shutdown_mode_def)
  show "x \<le> y \<or> y \<le> x" by (auto simp: less_eq_shutdown_mode_def)
qed

end

text \<open>A task: a \<open>std::function\<close> (\<open>None\<close> when empty) and a \<open>shared_ptr\<close> (\<open>None\<close> when null).\<close>

record ('f, 'a) thread_pool_task =
  task_fun :: "'f option"
  task_args :: "'a option"

lemma task_eta [simp]: "\<lparr>task_fun = task_fun x, task_args = task_args x\<rparr> = x"
  by (cases x) simp

definition empty_task :: "('f, 'a) thread_pool_task" where
  "empty_task = \<lparr>task_fun = None, task_args = None\<rparr>"

text \<open>\<open>run()\<close> calls the function on the arguments; the result is the call that is made.\<close>

definition thread_pool_task_run :: "('f, 'a) thread_pool_task \<Rightarrow> ('f \<times> 'a option) outcome" where
  "thread_pool_task_run t = (case task_fun t of None \<Rightarrow> Stop Bad_Function_Call | Some f \<Rightarrow> Ret (f, task_args t))"

record ('f, 'a) thread_pool =
  tp_lock :: mutex
  tp_threads :: "nat list"
  tp_work_queue :: "('f, 'a) thread_pool_task list"
  tp_thread_count :: "16 word"
  tp_queue_size :: int
  tp_curr :: int
  tp_tail :: int
  tp_work_count :: int
  tp_shutdown :: bool
  tp_shutdown_mode :: shutdown_mode
  tp_started_num :: "16 word"
  tp_mask :: "int set"

definition thread_pool_ctor :: "('f, 'a) thread_pool" where
  "thread_pool_ctor =
     \<lparr>tp_lock = Mutex_Free, tp_threads = [], tp_work_queue = [], tp_thread_count = 0, tp_queue_size = 0,
      tp_curr = 0, tp_tail = 0, tp_work_count = 0, tp_shutdown = False, tp_shutdown_mode = GRACEFUL_SHUTDOWN,
      tp_started_num = 0, tp_mask = {}\<rparr>"

section \<open>create\<close>

text \<open>
  \<open>spawn i\<close> is what the \<open>i\<close>-th \<open>pthread_create\<close> answers: its return code and the identifier it stores on
  success. \<open>CPU_SET\<close> ignores a processor beyond the 1024 of a \<open>cpu_set_t\<close>.
\<close>

definition cpu_set_of :: "int \<Rightarrow> int set" where
  "cpu_set_of cpu = (if 0 \<le> cpu \<and> cpu < 1024 then {cpu} else {})"

fun thread_pool_create_loop ::
  "int \<Rightarrow> (nat \<Rightarrow> int \<times> nat) \<Rightarrow> nat \<Rightarrow> nat \<Rightarrow> ('f, 'a) thread_pool \<Rightarrow> (int \<times> ('f, 'a) thread_pool) outcome"
where
  "thread_pool_create_loop cores spawn i 0 p = Ret (0, p)"
| "thread_pool_create_loop cores spawn i (Suc k) p =
     bind_outcome (c_rem (int i) cores) (\<lambda>cpu.
       let p1 = p\<lparr>tp_mask := cpu_set_of cpu\<rparr> in
       if fst (spawn i) \<noteq> 0 then Ret (-1, p1)
       else bind_outcome (vec_put_at (tp_threads p1) (int i) (snd (spawn i))) (\<lambda>ts.
              thread_pool_create_loop cores spawn (Suc i) k (p1\<lparr>tp_threads := ts\<rparr>)))"

definition thread_pool_create ::
  "int \<Rightarrow> (nat \<Rightarrow> int \<times> nat) \<Rightarrow> int \<Rightarrow> int \<Rightarrow> ('f, 'a) thread_pool \<Rightarrow> (int \<times> ('f, 'a) thread_pool) outcome"
where
  "thread_pool_create cores spawn thread_count queue_size p =
     (let n = coerce_in thread_count cores MAX_THREADS;
          qs = coerce_in queue_size 1024 MAX_QUEUE
      in thread_pool_create_loop cores spawn 0 (nat n)
           (p\<lparr>tp_queue_size := qs, tp_thread_count := 0,
             tp_threads := vec_resize (nat n) 0 (tp_threads p),
             tp_work_queue := vec_resize (nat qs) empty_task (tp_work_queue p),
             tp_curr := 0, tp_tail := 0, tp_work_count := 0, tp_started_num := 0\<rparr>))"

section \<open>submit\<close>

text \<open>
  The body under the lock returns the error code, whether the condition variable was signalled, and the
  new state.
\<close>

definition thread_pool_submit_body ::
  "int \<Rightarrow> 'a option \<Rightarrow> 'f option \<Rightarrow> ('f, 'a) thread_pool \<Rightarrow> (int \<times> bool \<times> ('f, 'a) thread_pool) outcome"
where
  "thread_pool_submit_body signal_rc args func p =
     (if tp_work_count p = tp_queue_size p then Ret (THREADPOOL_QUEUE_FULL, False, p)
      else if tp_shutdown p then Ret (THREADPOOL_SHUTDOWN, False, p)
      else bind_outcome (c_rem (tp_tail p + 1) (tp_queue_size p)) (\<lambda>next.
           bind_outcome (vec_put_at (tp_work_queue p) (tp_tail p) \<lparr>task_fun = func, task_args = args\<rparr>) (\<lambda>q.
           let p' = p\<lparr>tp_work_queue := q, tp_tail := next, tp_work_count := tp_work_count p + 1\<rparr>
           in if signal_rc \<noteq> 0 then Ret (THREADPOOL_LOCK_FAILURE, False, p') else Ret (0, True, p'))))"

definition thread_pool_submit ::
  "tid \<Rightarrow> int \<Rightarrow> int \<Rightarrow> int \<Rightarrow> 'a option \<Rightarrow> 'f option \<Rightarrow> ('f, 'a) thread_pool
     \<Rightarrow> (int \<times> bool \<times> ('f, 'a) thread_pool) outcome"
where
  "thread_pool_submit t lock_rc signal_rc unlock_rc args func p =
     (if lock_rc \<noteq> 0 then Ret (THREADPOOL_LOCK_FAILURE, False, p)
      else bind_outcome (mutex_lock t (tp_lock p)) (\<lambda>m.
           bind_outcome (thread_pool_submit_body signal_rc args func (p\<lparr>tp_lock := m\<rparr>)) (\<lambda>(err, woken, p1).
           if unlock_rc \<noteq> 0 then Ret (THREADPOOL_LOCK_FAILURE, woken, p1)
           else bind_outcome (mutex_unlock t (tp_lock p1)) (\<lambda>m'. Ret (err, woken, p1\<lparr>tp_lock := m'\<rparr>)))))"

section \<open>Taking a task\<close>

text \<open>
  Lines 212 to 219 of \<open>thread_routine\<close>, run by a thread that holds the lock and has seen \<open>work_count\<close>
  different from 0: copy the slot at \<open>curr_\<close>, clear it, advance.
\<close>

definition thread_pool_take :: "('f, 'a) thread_pool \<Rightarrow> (('f, 'a) thread_pool_task \<times> ('f, 'a) thread_pool) outcome" where
  "thread_pool_take p =
     bind_outcome (vec_index (tp_work_queue p) (tp_curr p)) (\<lambda>task.
     bind_outcome (vec_put_index (tp_work_queue p) (tp_curr p) empty_task) (\<lambda>q.
     bind_outcome (c_rem (tp_curr p + 1) (tp_queue_size p)) (\<lambda>next.
     Ret (task, p\<lparr>tp_work_queue := q, tp_curr := next, tp_work_count := tp_work_count p - 1\<rparr>))))"

section \<open>Shutting down\<close>

text \<open>
  \<open>shutdown_interval\<close> up to the loop that joins the threads: the error code, whether every waiter was
  woken, and the state. Joining starts when the code is 0.
\<close>

definition shutdown_interval_begin ::
  "tid \<Rightarrow> int \<Rightarrow> int \<Rightarrow> int \<Rightarrow> shutdown_mode \<Rightarrow> ('f, 'a) thread_pool \<Rightarrow> (int \<times> bool \<times> ('f, 'a) thread_pool) outcome"
where
  "shutdown_interval_begin t lock_rc broadcast_rc unlock_rc mode p =
     (if lock_rc \<noteq> 0 then Ret (THREADPOOL_LOCK_FAILURE, False, p)
      else bind_outcome (mutex_lock t (tp_lock p)) (\<lambda>m.
           let p1 = p\<lparr>tp_lock := m\<rparr> in
           if tp_shutdown p1 then Ret (THREADPOOL_SHUTDOWN, False, p1)
           else let p2 = p1\<lparr>tp_shutdown_mode := mode, tp_shutdown := True\<rparr> in
             if broadcast_rc \<noteq> 0 then Ret (THREADPOOL_LOCK_FAILURE, False, p2)
             else if unlock_rc \<noteq> 0 then Ret (THREADPOOL_LOCK_FAILURE, True, p2)
             else bind_outcome (mutex_unlock t (tp_lock p2)) (\<lambda>m'. Ret (0, True, p2\<lparr>tp_lock := m'\<rparr>))))"

definition free_resource :: "tid \<Rightarrow> ('f, 'a) thread_pool \<Rightarrow> (int \<times> ('f, 'a) thread_pool) outcome" where
  "free_resource t p =
     (if 0 < sint (tp_started_num p) then Ret (-1, p)
      else bind_outcome (mutex_lock t (tp_lock p)) (\<lambda>m.
           bind_outcome (mutex_destroy m) (\<lambda>m'. Ret (0, p\<lparr>tp_lock := m'\<rparr>))))"

text \<open>The destructor, and the name of the calling thread: \<open>pthread_getname_np\<close> fills the uninitialised buffer, \<open>None\<close> when it fails.\<close>

definition thread_pool_dtor :: "os \<Rightarrow> unit io" where
  "thread_pool_dtor os = call_void os (Sys_stdout (''thread_pool now has been shutdown'' @ newline)) (ret ())"

definition BUFF_SIZE :: nat where "BUFF_SIZE = 255"

definition current_thread_name :: "char list \<Rightarrow> string option \<Rightarrow> string outcome" where
  "current_thread_name fresh nm =
     bind_outcome (case nm of None \<Rightarrow> Ret fresh | Some s \<Rightarrow> put_cstr fresh 0 s) (\<lambda>buff.
     bind_outcome (c_strlen buff) (\<lambda>n. Ret (take n buff)))"

text \<open>
  The loop that joins the threads, \<open>join i\<close> being what \<open>pthread_join\<close> answers for the \<open>i\<close>-th one, and the
  whole call when no other thread changes the counters meanwhile. The call's result is always \<open>0\<close>.
\<close>

fun shutdown_interval_joins :: "(nat \<Rightarrow> int) \<Rightarrow> nat \<Rightarrow> nat \<Rightarrow> ('f, 'a) thread_pool \<Rightarrow> int outcome" where
  "shutdown_interval_joins join i 0 p = Ret 0"
| "shutdown_interval_joins join i (Suc k) p =
     bind_outcome (vec_at (tp_threads p) (int i)) (\<lambda>th.
       if join i \<noteq> 0 then Ret THREADPOOL_THREAD_FAILURE else shutdown_interval_joins join (Suc i) k p)"

definition shutdown_interval ::
  "tid \<Rightarrow> int \<Rightarrow> int \<Rightarrow> int \<Rightarrow> (nat \<Rightarrow> int) \<Rightarrow> shutdown_mode \<Rightarrow> ('f, 'a) thread_pool
     \<Rightarrow> (int \<times> ('f, 'a) thread_pool) outcome"
where
  "shutdown_interval t lock_rc broadcast_rc unlock_rc join mode p =
     (if lock_rc \<noteq> 0 then Ret (THREADPOOL_LOCK_FAILURE, p)
      else bind_outcome (shutdown_interval_begin t lock_rc broadcast_rc unlock_rc mode p) (\<lambda>(err, woken, p1).
           if err \<noteq> 0 then Ret (0, p1)
           else bind_outcome (shutdown_interval_joins join 0 (nat (sint (tp_thread_count p1))) p1) (\<lambda>err'.
                if err' \<noteq> 0 then Ret (0, p1)
                else bind_outcome (free_resource t p1) (\<lambda>(rc, p2). Ret (0, p2)))))"

section \<open>The ring invariant and the list it holds\<close>

definition ring_slot :: "('f, 'a) thread_pool \<Rightarrow> nat \<Rightarrow> nat" where
  "ring_slot p k = nat ((tp_curr p + int k) mod tp_queue_size p)"

definition pool_inv :: "('f, 'a) thread_pool \<Rightarrow> bool" where
  "pool_inv p \<longleftrightarrow>
     0 < tp_queue_size p \<and> tp_queue_size p \<le> MAX_QUEUE \<and>
     int (length (tp_work_queue p)) = tp_queue_size p \<and>
     0 \<le> tp_curr p \<and> tp_curr p < tp_queue_size p \<and>
     0 \<le> tp_work_count p \<and> tp_work_count p \<le> tp_queue_size p \<and>
     tp_tail p = (tp_curr p + tp_work_count p) mod tp_queue_size p"

text \<open>The contents of the ring, oldest task first.\<close>

definition pool_tasks :: "('f, 'a) thread_pool \<Rightarrow> ('f, 'a) thread_pool_task list" where
  "pool_tasks p = map (\<lambda>k. tp_work_queue p ! ring_slot p k) [0..<nat (tp_work_count p)]"

text \<open>Every slot outside the contents is empty, so that it keeps no argument alive.\<close>

definition pool_clean :: "('f, 'a) thread_pool \<Rightarrow> bool" where
  "pool_clean p \<longleftrightarrow>
     (\<forall>k. tp_work_count p \<le> int k \<longrightarrow> int k < tp_queue_size p \<longrightarrow> tp_work_queue p ! ring_slot p k = empty_task)"

lemma pool_inv_tail: "pool_inv p \<Longrightarrow> 0 \<le> tp_tail p \<and> tp_tail p < tp_queue_size p"
  by (simp add: pool_inv_def)

lemma pool_inv_lock [simp]: "pool_inv (p\<lparr>tp_lock := m\<rparr>) = pool_inv p"
  by (simp add: pool_inv_def)

lemma pool_tasks_lock [simp]: "pool_tasks (p\<lparr>tp_lock := m\<rparr>) = pool_tasks p"
  by (simp add: pool_tasks_def ring_slot_def)

lemma pool_clean_lock [simp]: "pool_clean (p\<lparr>tp_lock := m\<rparr>) = pool_clean p"
  by (simp add: pool_clean_def ring_slot_def)

lemma length_pool_tasks: "length (pool_tasks p) = nat (tp_work_count p)"
  by (simp add: pool_tasks_def)

lemma pool_tasks_empty: "pool_inv p \<Longrightarrow> pool_tasks p = [] \<longleftrightarrow> tp_work_count p = 0"
  by (auto simp: pool_tasks_def pool_inv_def)

lemma ring_slot_less: "pool_inv p \<Longrightarrow> ring_slot p k < length (tp_work_queue p)"
  by (simp add: ring_slot_def pool_inv_def nat_less_iff)

lemma ring_slot_eq:
  assumes "pool_inv p" "int i < tp_queue_size p" "int j < tp_queue_size p" "ring_slot p i = ring_slot p j"
  shows "i = j"
proof -
  have pos: "0 < tp_queue_size p" using assms(1) by (simp add: pool_inv_def)
  have "(tp_curr p + int i) mod tp_queue_size p = (tp_curr p + int j) mod tp_queue_size p"
    using assms(4) pos unfolding ring_slot_def by (subst (asm) eq_nat_nat_iff) simp_all
  then have "int i = int j"
    using assms(2,3) by (intro ring_slot_inj [of "int i" "tp_queue_size p" "int j" "tp_curr p"]) auto
  then show ?thesis by simp
qed

lemma ring_slot_tail: "pool_inv p \<Longrightarrow> ring_slot p (nat (tp_work_count p)) = nat (tp_tail p)"
  by (simp add: ring_slot_def pool_inv_def)

lemma ring_slot_curr: "pool_inv p \<Longrightarrow> ring_slot p 0 = nat (tp_curr p)"
  by (simp add: ring_slot_def pool_inv_def)

text \<open>Advancing \<open>curr_\<close> renumbers the slots by one.\<close>

lemma ring_slot_advance:
  assumes "tp_curr p' = (tp_curr p + 1) mod tp_queue_size p" "tp_queue_size p' = tp_queue_size p"
  shows "ring_slot p' k = ring_slot p (Suc k)"
  using assms mod_add_left_eq [of "tp_curr p + 1" "tp_queue_size p" "int k"]
  by (simp add: ring_slot_def add.assoc)

section \<open>submit refines the enqueue of a bounded queue\<close>

text \<open>The state after a task is stored.\<close>

definition pool_put :: "('f, 'a) thread_pool_task \<Rightarrow> ('f, 'a) thread_pool \<Rightarrow> ('f, 'a) thread_pool" where
  "pool_put t p = p\<lparr>tp_work_queue := (tp_work_queue p)[nat (tp_tail p) := t],
                    tp_tail := (tp_tail p + 1) mod tp_queue_size p, tp_work_count := tp_work_count p + 1\<rparr>"

definition pool_room :: "('f, 'a) thread_pool \<Rightarrow> bool" where
  "pool_room p \<longleftrightarrow> tp_work_count p \<noteq> tp_queue_size p \<and> \<not> tp_shutdown p"

lemma submit_body_put:
  assumes "pool_inv p" "pool_room p"
  shows "thread_pool_submit_body rc args func p =
    Ret (if rc \<noteq> 0 then THREADPOOL_LOCK_FAILURE else 0, rc = 0, pool_put \<lparr>task_fun = func, task_args = args\<rparr> p)"
proof -
  have "vec_in (tp_work_queue p) (tp_tail p)"
    using assms(1) pool_inv_tail [OF assms(1)] by (auto simp: pool_inv_def vec_in_def)
  moreover have "c_rem (tp_tail p + 1) (tp_queue_size p) = Ret ((tp_tail p + 1) mod tp_queue_size p)"
    using assms(1) pool_inv_tail [OF assms(1)] by (intro c_rem_pos) (auto simp: pool_inv_def)
  ultimately show ?thesis
    using assms(2) by (simp add: thread_pool_submit_body_def pool_room_def pool_put_def vec_simps Let_def)
qed

lemma pool_put_inv:
  assumes "pool_inv p" "tp_work_count p \<noteq> tp_queue_size p"
  shows "pool_inv (pool_put t p)"
  using assms mod_add_left_eq [of "tp_curr p + tp_work_count p" "tp_queue_size p" 1]
  by (auto simp: pool_inv_def pool_put_def add.assoc)

lemma pool_put_slot [simp]: "ring_slot (pool_put t p) = ring_slot p"
  by (simp add: ring_slot_def pool_put_def fun_eq_iff)

lemma pool_put_get:
  assumes "pool_inv p" "int k < tp_queue_size p" "tp_work_count p < tp_queue_size p"
  shows "tp_work_queue (pool_put t p) ! ring_slot p k =
     (if int k = tp_work_count p then t else tp_work_queue p ! ring_slot p k)"
proof -
  have "nat (tp_tail p) = ring_slot p k \<longleftrightarrow> int k = tp_work_count p"
    using ring_slot_eq [OF assms(1), of "nat (tp_work_count p)" k] ring_slot_tail [OF assms(1)] assms
    by (metis int_nat_eq nat_int pool_inv_def)
  then show ?thesis
    using ring_slot_less [OF assms(1), of k] by (auto simp: pool_put_def nth_list_update)
qed

lemma pool_put_tasks:
  assumes "pool_inv p" "tp_work_count p \<noteq> tp_queue_size p"
  shows "pool_tasks (pool_put t p) = pool_tasks p @ [t]"
proof -
  have wc: "0 \<le> tp_work_count p" "tp_work_count p < tp_queue_size p"
    using assms by (auto simp: pool_inv_def)
  have "nat (tp_work_count (pool_put t p)) = Suc (nat (tp_work_count p))"
    using wc by (simp add: pool_put_def)
  then show ?thesis
    using assms(1) wc by (simp add: pool_tasks_def pool_put_get)
qed


section \<open>Taking refines the dequeue\<close>

definition pool_drop :: "('f, 'a) thread_pool \<Rightarrow> ('f, 'a) thread_pool" where
  "pool_drop p = p\<lparr>tp_work_queue := (tp_work_queue p)[nat (tp_curr p) := empty_task],
                   tp_curr := (tp_curr p + 1) mod tp_queue_size p, tp_work_count := tp_work_count p - 1\<rparr>"

lemma take_drop_head:
  assumes "pool_inv p"
  shows "thread_pool_take p = Ret (tp_work_queue p ! nat (tp_curr p), pool_drop p)"
proof -
  have "vec_in (tp_work_queue p) (tp_curr p)"
    using assms by (auto simp: pool_inv_def vec_in_def)
  moreover have "c_rem (tp_curr p + 1) (tp_queue_size p) = Ret ((tp_curr p + 1) mod tp_queue_size p)"
    using assms by (intro c_rem_pos) (auto simp: pool_inv_def)
  ultimately show ?thesis by (simp add: thread_pool_take_def pool_drop_def vec_simps)
qed

lemma pool_drop_inv:
  assumes "pool_inv p" "tp_work_count p \<noteq> 0"
  shows "pool_inv (pool_drop p)"
  using assms by (auto simp: pool_inv_def pool_drop_def mod_add_left_eq)

lemma pool_drop_slot: "ring_slot (pool_drop p) k = ring_slot p (Suc k)"
  by (rule ring_slot_advance) (simp_all add: pool_drop_def)

lemma pool_drop_get:
  assumes "pool_inv p" "int k < tp_queue_size p"
  shows "tp_work_queue (pool_drop p) ! ring_slot p k =
     (if k = 0 then empty_task else tp_work_queue p ! ring_slot p k)"
proof -
  have "nat (tp_curr p) = ring_slot p k \<longleftrightarrow> k = 0"
    using ring_slot_eq [OF assms(1), of 0 k] ring_slot_curr [OF assms(1)] assms by (auto simp: pool_inv_def)
  then show ?thesis
    using ring_slot_less [OF assms(1), of k] by (auto simp: pool_drop_def nth_list_update)
qed

lemma pool_tasks_Cons:
  assumes "pool_inv p" "tp_work_count p \<noteq> 0"
  shows "pool_tasks p = tp_work_queue p ! nat (tp_curr p) # pool_tasks (pool_drop p)"
proof -
  have wc: "0 < tp_work_count p" "tp_work_count p \<le> tp_queue_size p"
    using assms by (auto simp: pool_inv_def)
  then obtain n where n: "nat (tp_work_count p) = Suc n" "int n < tp_work_count p"
    by (cases "nat (tp_work_count p)") auto
  have "pool_tasks (pool_drop p) = map (\<lambda>k. tp_work_queue (pool_drop p) ! ring_slot p (Suc k)) [0..<n]"
    using n by (simp add: pool_tasks_def pool_drop_slot) (simp add: pool_drop_def nat_diff_distrib)
  also have "\<dots> = map (\<lambda>k. tp_work_queue p ! ring_slot p (Suc k)) [0..<n]"
    using assms(1) wc n by (intro map_cong refl) (simp add: pool_drop_get)
  finally show ?thesis
    using n(1) by (simp add: pool_tasks_def ring_slot_curr [OF assms(1)] map_upt_Suc del: upt_Suc)
qed

lemma pool_drop_clean:
  assumes "pool_inv p" "pool_clean p" "tp_work_count p \<noteq> 0"
  shows "pool_clean (pool_drop p)"
  unfolding pool_clean_def
proof (intro allI impI)
  fix k
  assume k: "tp_work_count (pool_drop p) \<le> int k" "int k < tp_queue_size (pool_drop p)"
  then have k': "tp_work_count p \<le> int (Suc k)" "int k < tp_queue_size p" by (simp_all add: pool_drop_def)
  show "tp_work_queue (pool_drop p) ! ring_slot (pool_drop p) k = empty_task"
  proof (cases "int (Suc k) < tp_queue_size p")
    case True
    then show ?thesis using assms k' by (simp add: pool_drop_slot pool_drop_get pool_clean_def)
  next
    case False
    with k' have "int (Suc k) = tp_queue_size p" by simp
    then have "ring_slot p (Suc k) = ring_slot p 0" by (simp add: ring_slot_def)
    then show ?thesis
      using assms(1) pool_drop_get [OF assms(1), of 0] by (simp add: pool_drop_slot pool_inv_def)
  qed
qed

section \<open>The ring as a bounded queue\<close>

definition pool_enq :: "('f, 'a) thread_pool_task \<Rightarrow> ('f, 'a) thread_pool \<Rightarrow> ('f, 'a) thread_pool option" where
  "pool_enq x p =
     (case thread_pool_submit_body 0 (task_args x) (task_fun x) p of
        Ret (err, woken, p') \<Rightarrow> (if err = 0 then Some p' else None)
      | Stop e \<Rightarrow> None)"

definition pool_deq :: "('f, 'a) thread_pool \<Rightarrow> (('f, 'a) thread_pool_task \<times> ('f, 'a) thread_pool) option" where
  "pool_deq p =
     (if tp_work_count p = 0 then None
      else case thread_pool_take p of Ret r \<Rightarrow> Some r | Stop e \<Rightarrow> None)"

lemma pool_enq_room: "pool_inv p \<Longrightarrow> pool_enq x p = (if pool_room p then Some (pool_put x p) else None)"
  by (simp add: pool_enq_def submit_body_put threadpool_codes)
    (auto simp: thread_pool_submit_body_def pool_room_def threadpool_codes)

lemma pool_deq_drop:
  "pool_inv p \<Longrightarrow> pool_deq p =
     (if tp_work_count p = 0 then None else Some (tp_work_queue p ! nat (tp_curr p), pool_drop p))"
  by (simp add: pool_deq_def take_drop_head)

interpretation ring: fifo pool_inv pool_tasks pool_enq pool_deq
proof (unfold_locales, goal_cases)
  case (1 p x p')
  then show ?case by (auto simp: pool_enq_room pool_room_def intro: pool_put_inv split: if_splits)
next
  case (2 p x p')
  then show ?case by (auto simp: pool_enq_room pool_room_def pool_put_tasks split: if_splits)
next
  case (3 p x p')
  then show ?case by (auto simp: pool_deq_drop intro: pool_drop_inv split: if_splits)
next
  case (4 p x p')
  then show ?case by (auto simp: pool_deq_drop pool_tasks_Cons split: if_splits)
next
  case (5 p)
  then show ?case by (simp add: pool_deq_drop pool_tasks_empty)
qed

section \<open>create\<close>

lemma pool_inv_frame [simp]:
  "pool_inv (p\<lparr>tp_mask := m\<rparr>) = pool_inv p" "pool_inv (p\<lparr>tp_threads := ts\<rparr>) = pool_inv p"
  "pool_tasks (p\<lparr>tp_mask := m\<rparr>) = pool_tasks p" "pool_tasks (p\<lparr>tp_threads := ts\<rparr>) = pool_tasks p"
  "pool_clean (p\<lparr>tp_mask := m\<rparr>) = pool_clean p" "pool_clean (p\<lparr>tp_threads := ts\<rparr>) = pool_clean p"
  by (simp_all add: pool_inv_def pool_tasks_def pool_clean_def ring_slot_def)



section \<open>submit on every branch\<close>

lemma submit_stores:
  assumes "pool_inv p" "tp_lock p = Mutex_Free" "pool_room p"
  shows "thread_pool_submit t 0 signal_rc unlock_rc args func p =
    (let p' = pool_put \<lparr>task_fun = func, task_args = args\<rparr> p
     in Ret (if signal_rc \<noteq> 0 \<or> unlock_rc \<noteq> 0 then THREADPOOL_LOCK_FAILURE else 0, signal_rc = 0,
             if unlock_rc \<noteq> 0 then p'\<lparr>tp_lock := Mutex_Held t\<rparr> else p'))"
proof -
  have room: "pool_room (p\<lparr>tp_lock := Mutex_Held t\<rparr>)" and inv: "pool_inv (p\<lparr>tp_lock := Mutex_Held t\<rparr>)"
    using assms by (simp_all add: pool_room_def)
  have put: "pool_put x (p\<lparr>tp_lock := m\<rparr>) = (pool_put x p)\<lparr>tp_lock := m\<rparr>" for x m
    by (simp add: pool_put_def)
  have lock: "tp_lock (pool_put x p) = Mutex_Free" for x using assms(2) by (simp add: pool_put_def)
  have same: "(pool_put x p)\<lparr>tp_lock := Mutex_Free\<rparr> = pool_put x p" for x
    using lock [of x] by (cases "pool_put x p") simp
  show ?thesis
    by (simp add: thread_pool_submit_def assms(2) submit_body_put [OF inv room] put same Let_def)
qed

lemma submit_refuses:
  assumes "tp_lock p = Mutex_Free" "\<not> pool_room p"
  shows "thread_pool_submit t 0 signal_rc 0 args func p =
    Ret (if tp_work_count p = tp_queue_size p then THREADPOOL_QUEUE_FULL else THREADPOOL_SHUTDOWN, False, p)"
proof -
  have same: "p\<lparr>tp_lock := Mutex_Free\<rparr> = p" using assms(1) by (cases p) simp
  show ?thesis
    using assms by (auto simp: thread_pool_submit_def thread_pool_submit_body_def pool_room_def same)
qed

section \<open>No operation leaves the ring\<close>

definition ring_ok :: "('f, 'a) thread_pool \<Rightarrow> bool" where
  "ring_ok p \<longleftrightarrow> pool_inv p \<and> pool_clean p"

lemma ring_ok_frame [simp]:
  "ring_ok (p\<lparr>tp_lock := m\<rparr>) = ring_ok p" "ring_ok (p\<lparr>tp_shutdown_mode := d, tp_shutdown := b\<rparr>) = ring_ok p"
  by (simp_all add: ring_ok_def pool_inv_def pool_clean_def ring_slot_def)







text \<open>A pool whose ring has two slots, used in the examples.\<close>

definition pool2 :: "(nat, nat) thread_pool" where
  "pool2 = thread_pool_ctor\<lparr>tp_queue_size := 2, tp_work_queue := [empty_task, empty_task]\<rparr>"

lemma pool2_inv: "pool_inv pool2" "pool_room pool2" "tp_lock pool2 = Mutex_Free" "pool_tasks pool2 = []"
  by (simp_all add: pool2_def thread_pool_ctor_def pool_inv_def pool_room_def pool_tasks_def MAX_QUEUE_def)

section \<open>Properties\<close>

text \<open>
  C15. A run of submissions and takes on the ring conserves the tasks: whatever the sequence of operations,
  the tasks that were there, followed by those accepted, are the tasks delivered, in that order, followed
  by those still in the ring. Nothing is lost, duplicated or reordered, and the ring stays well formed.
\<close>

theorem ring_conserves_tasks:
  assumes "pool_inv p" and "qrun pool_enq pool_deq ops p = (accepted, delivered, p')"
  shows "pool_inv p' \<and> pool_tasks p @ accepted = delivered @ pool_tasks p'"
  using assms by (rule ring.qrun_conserves)

theorem ring_conserves_tasks_witness:
  "\<exists>acc del p'. qrun pool_enq pool_deq [Put empty_task, Get, Get] pool2 = (acc, del, p')
     \<and> pool_inv p' \<and> pool_tasks pool2 @ acc = del @ pool_tasks p'"
proof -
  obtain acc del p' where run: "qrun pool_enq pool_deq [Put empty_task, Get, Get] pool2 = (acc, del, p')"
    by (metis prod_cases3)
  from ring_conserves_tasks [OF pool2_inv(1) run] run show ?thesis by blast
qed



text \<open>
  On a pool with room and a free lock, \<open>submit\<close> never stops: it returns 0, signals one thread, appends
  the task at the end of the contents, keeps the ring invariant and releases the lock.
\<close>

theorem submit_appends:
  assumes "pool_inv p" "tp_lock p = Mutex_Free" "tp_work_count p < tp_queue_size p" "\<not> tp_shutdown p"
  shows "\<exists>p'. thread_pool_submit t 0 0 0 args func p = Ret (0, True, p') \<and> pool_inv p'
     \<and> pool_tasks p' = pool_tasks p @ [\<lparr>task_fun = func, task_args = args\<rparr>] \<and> tp_lock p' = Mutex_Free"
proof -
  have room: "pool_room p" "tp_work_count p \<noteq> tp_queue_size p"
    using assms by (simp_all add: pool_room_def)
  have "tp_lock (pool_put x p) = Mutex_Free" for x using assms(2) by (simp add: pool_put_def)
  then show ?thesis
    using assms room by (auto simp: submit_stores Let_def pool_put_inv pool_put_tasks)
qed

theorem submit_appends_witness:
  "\<exists>p'. thread_pool_submit 9 0 0 0 (Some 4) (Some 1) pool2 = Ret (0, True, p') \<and> pool_inv p'
     \<and> pool_tasks p' = pool_tasks pool2 @ [\<lparr>task_fun = Some 1, task_args = Some 4\<rparr>] \<and> tp_lock p' = Mutex_Free"
  by (rule submit_appends) (simp_all add: pool2_inv, simp_all add: pool2_def thread_pool_ctor_def)



text \<open>
  A pool that has not been created yet refuses every task with \<open>THREADPOOL_QUEUE_FULL\<close>: the test for a
  full queue comes first, so the division by the zero queue size is never reached.
\<close>

theorem submit_before_create:
  "thread_pool_submit t 0 src 0 args func thread_pool_ctor = Ret (THREADPOOL_QUEUE_FULL, False, thread_pool_ctor)"
  by (simp add: submit_refuses thread_pool_ctor_def pool_room_def)

text \<open>
  An error code of \<open>submit\<close> does not mean that the task was refused: when the signal or the unlock
  fails, \<open>submit\<close> reports \<open>THREADPOOL_LOCK_FAILURE\<close> but the task is already in the ring; when the unlock
  fails the caller also keeps the lock.
\<close>

theorem submit_error_still_queues:
  assumes "pool_inv p" "tp_lock p = Mutex_Free" "tp_work_count p < tp_queue_size p" "\<not> tp_shutdown p"
    and "src \<noteq> 0 \<or> urc \<noteq> 0"
  shows "\<exists>woken p'. thread_pool_submit t 0 src urc args func p = Ret (THREADPOOL_LOCK_FAILURE, woken, p')
     \<and> pool_tasks p' = pool_tasks p @ [\<lparr>task_fun = func, task_args = args\<rparr>]
     \<and> tp_lock p' = (if urc \<noteq> 0 then Mutex_Held t else Mutex_Free)"
proof -
  have room: "pool_room p" "tp_work_count p \<noteq> tp_queue_size p"
    using assms by (simp_all add: pool_room_def)
  have "tp_lock (pool_put x p) = Mutex_Free" for x using assms(2) by (simp add: pool_put_def)
  then show ?thesis
    using assms room by (auto simp: submit_stores Let_def pool_put_tasks)
qed

theorem submit_error_still_queues_witness:
  "\<exists>woken p'. thread_pool_submit 9 0 22 0 (Some 4) (Some 1) pool2 = Ret (THREADPOOL_LOCK_FAILURE, woken, p')
     \<and> pool_tasks p' = pool_tasks pool2 @ [\<lparr>task_fun = Some 1, task_args = Some 4\<rparr>]
     \<and> tp_lock p' = (if (0 :: int) \<noteq> 0 then Mutex_Held 9 else Mutex_Free)"
  by (rule submit_error_still_queues) (simp_all add: pool2_inv, simp_all add: pool2_def thread_pool_ctor_def)

text \<open>
  Taking a task from a non-empty ring never stops: it hands out the oldest task, leaves the others in
  order, keeps the ring invariant, and clears the slot, so that a slot outside the contents never keeps an
  argument alive.
\<close>

theorem take_oldest:
  assumes "pool_inv p" "tp_work_count p \<noteq> 0"
  shows "\<exists>task p'. thread_pool_take p = Ret (task, p') \<and> pool_tasks p = task # pool_tasks p' \<and> pool_inv p'
     \<and> tp_work_queue p' ! nat (tp_curr p) = empty_task \<and> (pool_clean p \<longrightarrow> pool_clean p')"
proof -
  have "nat (tp_curr p) < length (tp_work_queue p)"
    using assms(1) by (simp add: pool_inv_def nat_less_iff)
  then have "tp_work_queue (pool_drop p) ! nat (tp_curr p) = empty_task" by (simp add: pool_drop_def)
  then show ?thesis
    using assms by (auto simp: take_drop_head pool_tasks_Cons pool_drop_inv pool_drop_clean)
qed

theorem take_oldest_witness:
  "\<exists>task p'. thread_pool_take (pool_put \<lparr>task_fun = Some 1, task_args = None\<rparr> pool2) = Ret (task, p')
     \<and> pool_tasks (pool_put \<lparr>task_fun = Some 1, task_args = None\<rparr> pool2) = task # pool_tasks p' \<and> pool_inv p'"
proof -
  let ?p = "pool_put \<lparr>task_fun = Some 1, task_args = None\<rparr> pool2"
  have inv: "pool_inv ?p" by (rule pool_put_inv [OF pool2_inv(1)]) (simp add: pool2_def thread_pool_ctor_def)
  have "tp_work_count ?p \<noteq> 0" by (simp add: pool_put_def pool2_def thread_pool_ctor_def)
  from take_oldest [OF inv this] show ?thesis by blast
qed



text \<open>
  \<open>create\<close> with no processor reported (\<open>hardware_concurrency()\<close> may answer 0) divides by zero as soon as
  it has a thread to make.
\<close>

theorem create_without_cores:
  assumes "0 < tc"
  shows "thread_pool_create 0 spawn tc qs p = Stop Div_By_Zero"
proof -
  have "0 < coerce_in tc 0 MAX_THREADS" using assms by (simp add: coerce_in_def MAX_THREADS_def)
  then obtain k where "nat (coerce_in tc 0 MAX_THREADS) = Suc k"
    by (cases "nat (coerce_in tc 0 MAX_THREADS)") auto
  then show ?thesis by (simp add: thread_pool_create_def Let_def)
qed

theorem create_without_cores_witness:
  "thread_pool_create 0 (\<lambda>i. (0, i)) 8 2048 pool2 = Stop Div_By_Zero"
  by (rule create_without_cores) simp

text \<open>
  \<open>shutdown_interval\<close> on a pool that is already shut down returns 0 like a successful call, but leaves
  the lock in the hands of its caller: the next \<open>submit\<close> of any thread blocks for ever. And
  \<open>free_resource\<close> never completes its work: with live threads it gives up, otherwise it destroys the mutex
  it has just locked.
\<close>

theorem shutdown_twice_keeps_lock:
  assumes "tp_shutdown p" "tp_lock p = Mutex_Free"
  shows "\<exists>p'. shutdown_interval t 0 brc urc join mode p = Ret (0, p') \<and> tp_lock p' = Mutex_Held t \<and>
     thread_pool_submit u 0 src urc' args func p' = Stop Would_Block \<and>
     (\<nexists>p''. free_resource t p = Ret (0, p''))"
  using assms
  by (simp add: shutdown_interval_def shutdown_interval_begin_def thread_pool_submit_def threadpool_codes
      free_resource_def Let_def)

theorem shutdown_twice_keeps_lock_witness:
  "\<exists>p'. shutdown_interval 1 0 0 0 (\<lambda>i. 0) GRACEFUL_SHUTDOWN (pool2\<lparr>tp_shutdown := True\<rparr>) = Ret (0, p')
     \<and> tp_lock p' = Mutex_Held 1"
  using shutdown_twice_keeps_lock [of "pool2\<lparr>tp_shutdown := True\<rparr>" 1 0 0 "\<lambda>i. 0" GRACEFUL_SHUTDOWN 2 0 0 None None]
  by (auto simp: pool2_inv)

text \<open>
  A thread asks for its name and gets it, whatever was in the buffer before, since names have at most 15 characters; if the system refuses,
  the string is made from uninitialised memory.
\<close>

theorem current_thread_name_reads:
  assumes "length fresh = BUFF_SIZE" "length nm \<le> 15" "no_nul nm"
  shows "current_thread_name fresh (Some nm) = Ret nm"
    and "NUL \<notin> set fresh \<longrightarrow> current_thread_name fresh None = Stop Bad_Index"
  using assms by (simp_all add: current_thread_name_def BUFF_SIZE_def put_cstr_def c_strlen_def takeWhile_no_nul)

theorem current_thread_name_reads_witness: "current_thread_name (replicate BUFF_SIZE (CHR ''x'')) (Some ''thread-7'') = Ret ''thread-7''"
  by (rule current_thread_name_reads) (simp_all add: BUFF_SIZE_def)

end
