(* ===== verification/Singleton.thy ===== *)
theory Singleton
  imports Worker_Sync Thread_Pool
begin

text \<open>
  The three singletons of the program, \<open>thread_pool::instance\<close>, \<open>error_map::instance\<close> and
  \<open>httpcode_map::instance\<close>, have one body: test the static pointer, lock, test again, construct, unlock, read
  the pointer. \<open>thread_pool::shutdown\<close> runs the same protocol to shut the pool down, delete it and clear the
  pointer. Here any number of threads run these bodies, one access to shared memory or one lock operation per step, in
  any order (interleaving semantics; that the unlocked first test races with the assignment
  under the C++ memory model is outside the model).

  Objects are numbered in the order of their construction.
\<close>

section \<open>State\<close>

datatype dcl_pc =
    Idle                 \<comment> \<open>not in a call\<close>
  | I_Test1              \<comment> \<open>\<open>instance\<close>: before the first test\<close>
  | I_Lock               \<comment> \<open>before \<open>unique_lock lck(mtx_)\<close>\<close>
  | I_Test2              \<comment> \<open>holds the mutex, before the second test\<close>
  | I_New                \<comment> \<open>holds the mutex, before \<open>new\<close>\<close>
  | I_Unlock             \<comment> \<open>before \<open>lck.unlock()\<close>\<close>
  | I_Read               \<comment> \<open>before \<open>return m_threadpool_\<close>\<close>
  | S_Test1              \<comment> \<open>\<open>shutdown\<close>: before the first test\<close>
  | S_Lock
  | S_Test2
  | S_Shutdown           \<comment> \<open>holds the mutex, before \<open>shutdown_interval\<close> and \<open>delete\<close>\<close>
  | S_Clear              \<comment> \<open>the object is deleted, before the pointer is cleared\<close>
  | S_Unlock

record dcl_sys =
  dc_ptr :: "nat option"
  dc_mutex :: mutex
  dc_made :: nat
  dc_dead :: "nat list"
  dc_pcs :: "dcl_pc list"
  dc_results :: "(nat \<times> nat option) list"

abbreviation dc_at :: "dcl_sys \<Rightarrow> nat \<Rightarrow> dcl_pc \<Rightarrow> bool" where
  "dc_at s i pc \<equiv> i < length (dc_pcs s) \<and> dc_pcs s ! i = pc"

abbreviation dc_goto :: "nat \<Rightarrow> dcl_pc \<Rightarrow> dcl_sys \<Rightarrow> dcl_sys" where
  "dc_goto i pc s \<equiv> s\<lparr>dc_pcs := (dc_pcs s)[i := pc]\<rparr>"

section \<open>The calls\<close>

text \<open>One step of a thread inside \<open>instance\<close>; \<open>None\<close> when it is blocked or not inside.\<close>

definition instance_step :: "nat \<Rightarrow> dcl_sys \<Rightarrow> dcl_sys option" where
  "instance_step i s = (case dc_pcs s ! i of
      I_Test1 \<Rightarrow> Some (dc_goto i (if dc_ptr s = None then I_Lock else I_Read) s)
    | I_Lock \<Rightarrow> (case mutex_lock i (dc_mutex s) of Ret m \<Rightarrow> Some ((dc_goto i I_Test2 s)\<lparr>dc_mutex := m\<rparr>) | Stop e \<Rightarrow> None)
    | I_Test2 \<Rightarrow> Some (dc_goto i (if dc_ptr s = None then I_New else I_Unlock) s)
    | I_New \<Rightarrow> Some ((dc_goto i I_Unlock s)\<lparr>dc_ptr := Some (dc_made s), dc_made := Suc (dc_made s)\<rparr>)
    | I_Unlock \<Rightarrow> (case mutex_unlock i (dc_mutex s) of Ret m \<Rightarrow> Some ((dc_goto i I_Read s)\<lparr>dc_mutex := m\<rparr>) | Stop e \<Rightarrow> None)
    | I_Read \<Rightarrow> Some ((dc_goto i Idle s)\<lparr>dc_results := dc_results s @ [(i, dc_ptr s)]\<rparr>)
    | _ \<Rightarrow> None)"

text \<open>One step of a thread inside \<open>thread_pool::shutdown\<close>, whose \<open>shutdown_interval\<close> is taken as one step.\<close>

definition shutdown_step :: "nat \<Rightarrow> dcl_sys \<Rightarrow> dcl_sys option" where
  "shutdown_step i s = (case dc_pcs s ! i of
      S_Test1 \<Rightarrow> Some (dc_goto i (if dc_ptr s \<noteq> None then S_Lock else Idle) s)
    | S_Lock \<Rightarrow> (case mutex_lock i (dc_mutex s) of Ret m \<Rightarrow> Some ((dc_goto i S_Test2 s)\<lparr>dc_mutex := m\<rparr>) | Stop e \<Rightarrow> None)
    | S_Test2 \<Rightarrow> Some (dc_goto i (if dc_ptr s \<noteq> None then S_Shutdown else S_Unlock) s)
    | S_Shutdown \<Rightarrow> (case dc_ptr s of None \<Rightarrow> None | Some x \<Rightarrow> Some ((dc_goto i S_Clear s)\<lparr>dc_dead := dc_dead s @ [x]\<rparr>))
    | S_Clear \<Rightarrow> Some ((dc_goto i S_Unlock s)\<lparr>dc_ptr := None\<rparr>)
    | S_Unlock \<Rightarrow> (case mutex_unlock i (dc_mutex s) of Ret m \<Rightarrow> Some ((dc_goto i Idle s)\<lparr>dc_mutex := m\<rparr>) | Stop e \<Rightarrow> None)
    | _ \<Rightarrow> None)"

text \<open>\<open>deletable\<close> says whether the class has the operation \<open>shutdown\<close>: only \<open>thread_pool\<close> does.\<close>

inductive dcl_step :: "bool \<Rightarrow> dcl_sys \<Rightarrow> dcl_sys \<Rightarrow> bool" for deletable :: bool where
  call_instance: "dc_at s i Idle \<Longrightarrow> dcl_step deletable s (dc_goto i I_Test1 s)"
| call_shutdown: "deletable \<Longrightarrow> dc_at s i Idle \<Longrightarrow> dcl_step deletable s (dc_goto i S_Test1 s)"
| in_instance: "i < length (dc_pcs s) \<Longrightarrow> instance_step i s = Some s' \<Longrightarrow> dcl_step deletable s s'"
| in_shutdown: "i < length (dc_pcs s) \<Longrightarrow> shutdown_step i s = Some s' \<Longrightarrow> dcl_step deletable s s'"

definition dcl_start :: "nat \<Rightarrow> dcl_sys" where
  "dcl_start n = \<lparr>dc_ptr = None, dc_mutex = Mutex_Free, dc_made = 0, dc_dead = [], dc_pcs = replicate n Idle,
                  dc_results = []\<rparr>"

definition dcl_init :: "dcl_sys \<Rightarrow> bool" where
  "dcl_init s \<longleftrightarrow> (\<exists>n. s = dcl_start n)"

inductive_cases dcl_stepE: "dcl_step deletable s s'"

section \<open>Invariants\<close>

fun in_mutex :: "dcl_pc \<Rightarrow> bool" where
  "in_mutex I_Test2 = True"
| "in_mutex I_New = True"
| "in_mutex I_Unlock = True"
| "in_mutex S_Test2 = True"
| "in_mutex S_Shutdown = True"
| "in_mutex S_Clear = True"
| "in_mutex S_Unlock = True"
| "in_mutex pc = False"

fun in_shutdown_pc :: "dcl_pc \<Rightarrow> bool" where
  "in_shutdown_pc S_Test1 = True"
| "in_shutdown_pc S_Lock = True"
| "in_shutdown_pc S_Test2 = True"
| "in_shutdown_pc S_Shutdown = True"
| "in_shutdown_pc S_Clear = True"
| "in_shutdown_pc S_Unlock = True"
| "in_shutdown_pc pc = False"

text \<open>The mutex belongs to the one thread that is between its lock and unlock.\<close>

definition dcl_lock_inv :: "dcl_sys \<Rightarrow> bool" where
  "dcl_lock_inv s \<longleftrightarrow> dc_mutex s \<noteq> Mutex_Destroyed \<and>
     (\<forall>i < length (dc_pcs s). in_mutex (dc_pcs s ! i) \<longleftrightarrow> dc_mutex s = Mutex_Held i) \<and>
     (\<forall>i. dc_mutex s = Mutex_Held i \<longrightarrow> i < length (dc_pcs s))"

text \<open>Where the holder of the mutex is.\<close>

definition holder_pc :: "dcl_sys \<Rightarrow> dcl_pc option" where
  "holder_pc s = map_option (\<lambda>i. dc_pcs s ! i) (mutex_holder (dc_mutex s))"

text \<open>
  What is known of the pointer: the objects that are not deleted are the one it points to, or none; it is
  null when the holder is about to construct; between the deletion and the clearing of the pointer it dangles.
\<close>

definition ptr_ok :: "dcl_pc option \<Rightarrow> nat option \<Rightarrow> nat list \<Rightarrow> nat \<Rightarrow> bool" where
  "ptr_ok hp ptr dead made \<longleftrightarrow> (case ptr of
      None \<Rightarrow> dead = [0..<made] \<and> hp \<noteq> Some S_Shutdown \<and> hp \<noteq> Some S_Clear
    | Some x \<Rightarrow> Suc x = made \<and> hp \<noteq> Some I_New \<and> dead = (if hp = Some S_Clear then [0..<made] else [0..<x]))"

definition dcl_inv :: "dcl_sys \<Rightarrow> bool" where
  "dcl_inv s \<longleftrightarrow> dcl_lock_inv s \<and> ptr_ok (holder_pc s) (dc_ptr s) (dc_dead s) (dc_made s)"

lemma dcl_lock_keep:
  assumes "dcl_lock_inv s" "i < length (dc_pcs s)" "in_mutex pc = in_mutex (dc_pcs s ! i)"
    "dc_pcs s' = (dc_pcs s)[i := pc]" "dc_mutex s' = dc_mutex s"
  shows "dcl_lock_inv s'"
  using assms by (auto simp: dcl_lock_inv_def nth_list_update)

lemma dcl_lock_take:
  assumes "dcl_lock_inv s" "i < length (dc_pcs s)" "in_mutex pc" "dc_mutex s = Mutex_Free"
    "dc_pcs s' = (dc_pcs s)[i := pc]" "dc_mutex s' = Mutex_Held i"
  shows "dcl_lock_inv s'"
  using assms by (auto simp: dcl_lock_inv_def nth_list_update)

lemma dcl_lock_drop:
  assumes "dcl_lock_inv s" "i < length (dc_pcs s)" "\<not> in_mutex pc" "dc_mutex s = Mutex_Held i"
    "dc_pcs s' = (dc_pcs s)[i := pc]" "dc_mutex s' = Mutex_Free"
  shows "dcl_lock_inv s'"
  using assms by (auto simp: dcl_lock_inv_def nth_list_update)

lemma dcl_lock_holder:
  "dcl_lock_inv s \<Longrightarrow> i < length (dc_pcs s) \<Longrightarrow> in_mutex (dc_pcs s ! i) \<Longrightarrow>
     dc_mutex s = Mutex_Held i \<and> holder_pc s = Some (dc_pcs s ! i)"
  by (auto simp: dcl_lock_inv_def holder_pc_def)

lemma holder_pc_other:
  assumes "dcl_lock_inv s" "i < length (dc_pcs s)" "\<not> in_mutex (dc_pcs s ! i)"
    "dc_pcs s' = (dc_pcs s)[i := pc]" "dc_mutex s' = dc_mutex s"
  shows "holder_pc s' = holder_pc s"
proof (cases "dc_mutex s")
  case (Mutex_Held j)
  with assms have "j \<noteq> i" by (auto simp: dcl_lock_inv_def)
  with Mutex_Held assms(4,5) show ?thesis by (simp add: holder_pc_def)
qed (use assms in \<open>auto simp: holder_pc_def\<close>)

lemma holder_pc_self:
  "dc_mutex s' = Mutex_Held i \<Longrightarrow> dc_pcs s' = (dc_pcs s)[i := pc] \<Longrightarrow> i < length (dc_pcs s) \<Longrightarrow> holder_pc s' = Some pc"
  by (simp add: holder_pc_def)

lemma holder_pc_free: "dc_mutex s = Mutex_Free \<Longrightarrow> holder_pc s = None"
  by (simp add: holder_pc_def)

text \<open>A thread outside the mutex moves to a point outside it.\<close>

lemma dcl_inv_outside:
  assumes "dcl_inv s" "i < length (dc_pcs s)" "\<not> in_mutex (dc_pcs s ! i)" "\<not> in_mutex pc"
    "dc_pcs s' = (dc_pcs s)[i := pc]" "dc_mutex s' = dc_mutex s" "dc_ptr s' = dc_ptr s" "dc_dead s' = dc_dead s"
    "dc_made s' = dc_made s"
  shows "dcl_inv s'"
  using assms dcl_lock_keep [of s i pc s'] holder_pc_other [of s i s' pc] by (auto simp: dcl_inv_def)

lemma dcl_inv_goto:
  "dcl_inv s \<Longrightarrow> i < length (dc_pcs s) \<Longrightarrow> \<not> in_mutex (dc_pcs s ! i) \<Longrightarrow> \<not> in_mutex pc \<Longrightarrow> dcl_inv (dc_goto i pc s)"
  by (rule dcl_inv_outside [of s i pc]) simp_all

text \<open>The holder moves on inside its critical section.\<close>

lemma dcl_inv_inside:
  assumes "dcl_inv s" "i < length (dc_pcs s)" "in_mutex (dc_pcs s ! i)" "in_mutex pc"
    "dc_pcs s' = (dc_pcs s)[i := pc]" "dc_mutex s' = dc_mutex s"
    "ptr_ok (Some pc) (dc_ptr s') (dc_dead s') (dc_made s')"
  shows "dcl_inv s'"
proof -
  have l: "dcl_lock_inv s" using assms(1) by (simp add: dcl_inv_def)
  have "dc_mutex s' = Mutex_Held i" using dcl_lock_holder [OF l assms(2,3)] assms(6) by simp
  then have "holder_pc s' = Some pc" using assms(5,2) by (rule holder_pc_self)
  then show ?thesis using dcl_lock_keep [OF l assms(2) _ assms(5,6)] assms(3,4,7) by (simp add: dcl_inv_def)
qed

lemma dcl_inv_acquire:
  assumes "dcl_inv s" "i < length (dc_pcs s)" "dc_mutex s = Mutex_Free" "in_mutex pc" "pc \<notin> {I_New, S_Shutdown, S_Clear}"
    "dc_pcs s' = (dc_pcs s)[i := pc]" "dc_mutex s' = Mutex_Held i" "dc_ptr s' = dc_ptr s" "dc_dead s' = dc_dead s"
    "dc_made s' = dc_made s"
  shows "dcl_inv s'"
  using assms dcl_lock_take [of s i pc s'] holder_pc_self [of s' i s pc] holder_pc_free [of s]
  by (auto simp: dcl_inv_def ptr_ok_def split: option.splits)

lemma dcl_inv_release:
  assumes "dcl_inv s" "i < length (dc_pcs s)" "in_mutex (dc_pcs s ! i)" "\<not> in_mutex pc" "dc_pcs s ! i \<noteq> S_Clear"
    "dc_pcs s' = (dc_pcs s)[i := pc]" "dc_mutex s' = Mutex_Free" "dc_ptr s' = dc_ptr s" "dc_dead s' = dc_dead s"
    "dc_made s' = dc_made s"
  shows "dcl_inv s'"
  using assms dcl_lock_drop [of s i pc s'] dcl_lock_holder [of s i] holder_pc_free [of s']
  by (auto simp: dcl_inv_def ptr_ok_def split: option.splits)

lemma upt_snoc: "Suc x = n \<Longrightarrow> [0..<x] @ [x] = [0..<n]"
  by auto

lemma instance_step_inv:
  assumes "dcl_inv s" "i < length (dc_pcs s)" "instance_step i s = Some s'"
  shows "dcl_inv s'"
proof -
  have hp: "in_mutex (dc_pcs s ! i) \<Longrightarrow> ptr_ok (Some (dc_pcs s ! i)) (dc_ptr s) (dc_dead s) (dc_made s)"
    using assms(1,2) dcl_lock_holder [of s i] by (auto simp: dcl_inv_def)
  show ?thesis
  proof (cases "dc_pcs s ! i")
    case I_Test1
    with assms show ?thesis by (auto simp: instance_step_def split: if_splits intro!: dcl_inv_goto)
  next
    case I_Lock
    with assms show ?thesis
      by (auto simp: instance_step_def mutex_lock_Ret_iff split: outcome.splits intro!: dcl_inv_acquire [of s i I_Test2])
  next
    case I_Test2
    let ?pc = "if dc_ptr s = None then I_New else I_Unlock"
    have "s' = dc_goto i ?pc s" using assms(3) I_Test2 by (simp add: instance_step_def)
    moreover have "ptr_ok (Some ?pc) (dc_ptr s) (dc_dead s) (dc_made s)"
      using hp I_Test2 by (auto simp: ptr_ok_def split: option.splits)
    ultimately show ?thesis using assms(1,2) I_Test2 by (intro dcl_inv_inside [of s i ?pc s']) auto
  next
    case I_New
    with assms hp show ?thesis
      by (auto simp: instance_step_def ptr_ok_def split: option.splits intro!: dcl_inv_inside [of s i I_Unlock])
  next
    case I_Unlock
    with assms show ?thesis
      by (auto simp: instance_step_def mutex_unlock_Ret_iff split: outcome.splits intro!: dcl_inv_release [of s i I_Read])
  next
    case I_Read
    with assms show ?thesis by (auto simp: instance_step_def intro!: dcl_inv_outside [of s i Idle])
  qed (use assms(3) in \<open>auto simp: instance_step_def\<close>)
qed

lemma shutdown_step_inv:
  assumes "dcl_inv s" "i < length (dc_pcs s)" "shutdown_step i s = Some s'"
  shows "dcl_inv s'"
proof -
  have hp: "in_mutex (dc_pcs s ! i) \<Longrightarrow> ptr_ok (Some (dc_pcs s ! i)) (dc_ptr s) (dc_dead s) (dc_made s)"
    using assms(1,2) dcl_lock_holder [of s i] by (auto simp: dcl_inv_def)
  show ?thesis
  proof (cases "dc_pcs s ! i")
    case S_Test1
    with assms show ?thesis by (auto simp: shutdown_step_def split: if_splits intro!: dcl_inv_goto)
  next
    case S_Lock
    with assms show ?thesis
      by (auto simp: shutdown_step_def mutex_lock_Ret_iff split: outcome.splits intro!: dcl_inv_acquire [of s i S_Test2])
  next
    case S_Test2
    let ?pc = "if dc_ptr s \<noteq> None then S_Shutdown else S_Unlock"
    have "s' = dc_goto i ?pc s" using assms(3) S_Test2 by (simp add: shutdown_step_def)
    moreover have "ptr_ok (Some ?pc) (dc_ptr s) (dc_dead s) (dc_made s)"
      using hp S_Test2 by (auto simp: ptr_ok_def split: option.splits)
    ultimately show ?thesis using assms(1,2) S_Test2 by (intro dcl_inv_inside [of s i ?pc s']) auto
  next
    case S_Shutdown
    with assms hp show ?thesis
      by (auto simp: shutdown_step_def ptr_ok_def split: option.splits intro!: dcl_inv_inside [of s i S_Clear] upt_snoc)
  next
    case S_Clear
    with assms hp show ?thesis
      by (auto simp: shutdown_step_def ptr_ok_def split: option.splits intro!: dcl_inv_inside [of s i S_Unlock])
  next
    case S_Unlock
    with assms show ?thesis
      by (auto simp: shutdown_step_def mutex_unlock_Ret_iff split: outcome.splits intro!: dcl_inv_release [of s i Idle])
  qed (use assms(3) in \<open>auto simp: shutdown_step_def\<close>)
qed

lemma dcl_init_inv: "dcl_init s \<Longrightarrow> dcl_inv s"
  by (auto simp: dcl_init_def dcl_start_def dcl_inv_def dcl_lock_inv_def holder_pc_def ptr_ok_def)

lemma dcl_step_inv: "dcl_inv s \<Longrightarrow> dcl_step deletable s s' \<Longrightarrow> dcl_inv s'"
  by (auto elim!: dcl_stepE intro: instance_step_inv shutdown_step_inv intro!: dcl_inv_goto)

interpretation dcl: locked_system dcl_init "dcl_step deletable" dcl_inv
  "\<lambda>s. mutex_holder (dc_mutex s)" "\<lambda>s i. i < length (dc_pcs s) \<and> in_mutex (dc_pcs s ! i)"
proof
  show "dcl_inv s" if "dcl_init s" for s using that by (rule dcl_init_inv)
  show "dcl_inv s'" if "dcl_inv s" "dcl_step deletable s s'" for s s' using that by (rule dcl_step_inv)
  show "mutex_holder (dc_mutex s) = Some i" if "dcl_inv s" "i < length (dc_pcs s) \<and> in_mutex (dc_pcs s ! i)" for s i
    using that dcl_lock_holder [of s i] by (auto simp: dcl_inv_def)
qed

text \<open>Without \<open>shutdown\<close>: the pointer is set once, to the first object, and every reader sees it.\<close>

fun past_test :: "dcl_pc \<Rightarrow> bool" where
  "past_test I_Unlock = True"
| "past_test I_Read = True"
| "past_test pc = False"

definition kept_inv :: "dcl_sys \<Rightarrow> bool" where
  "kept_inv s \<longleftrightarrow> dc_dead s = [] \<and> dc_ptr s \<in> {None, Some 0} \<and>
     (\<forall>pc \<in> set (dc_pcs s). \<not> in_shutdown_pc pc) \<and>
     (\<forall>pc \<in> set (dc_pcs s). past_test pc \<longrightarrow> dc_ptr s = Some 0) \<and>
     (\<forall>r \<in> set (dc_results s). snd r = Some 0 \<and> dc_ptr s = Some 0)"

lemma kept_inv_update:
  assumes "kept_inv s" "\<not> in_shutdown_pc pc" "past_test pc \<longrightarrow> dc_ptr s' = Some 0"
    "dc_pcs s' = (dc_pcs s)[i := pc]" "dc_ptr s' = dc_ptr s \<or> dc_ptr s' = Some 0" "dc_dead s' = dc_dead s"
    "\<forall>r \<in> set (dc_results s'). snd r = Some 0 \<and> dc_ptr s' = Some 0"
  shows "kept_inv s'"
proof -
  have "\<forall>pc \<in> set (dc_pcs s'). \<not> in_shutdown_pc pc"
    unfolding assms(4) using assms(1,2) by (intro all_list_update) (auto simp: kept_inv_def)
  moreover have "\<forall>pc \<in> set (dc_pcs s'). past_test pc \<longrightarrow> dc_ptr s' = Some 0"
    unfolding assms(4) using assms(1,3,5) by (intro all_list_update) (auto simp: kept_inv_def)
  ultimately show ?thesis using assms(1,5,6,7) unfolding kept_inv_def by auto
qed

lemma kept_inv_goto:
  assumes "kept_inv s" "\<not> in_shutdown_pc pc" "past_test pc \<longrightarrow> dc_ptr s = Some 0"
    "dc_pcs s' = (dc_pcs s)[i := pc]" "dc_ptr s' = dc_ptr s" "dc_dead s' = dc_dead s" "dc_results s' = dc_results s"
  shows "kept_inv s'"
  using assms(1-3,5,7) by (intro kept_inv_update [OF assms(1,2) _ assms(4) _ assms(6)]) (auto simp: kept_inv_def)

lemma kept_inv_new:
  assumes "kept_inv s" "dc_pcs s' = (dc_pcs s)[i := I_Unlock]" "dc_ptr s' = Some 0" "dc_dead s' = dc_dead s"
    "dc_results s' = dc_results s"
  shows "kept_inv s'"
  using assms(1,3,5) by (intro kept_inv_update [OF assms(1) _ _ assms(2) _ assms(4)]) (auto simp: kept_inv_def)

lemma kept_inv_read:
  assumes "kept_inv s" "dc_ptr s = Some 0" "dc_pcs s' = (dc_pcs s)[i := Idle]" "dc_ptr s' = dc_ptr s"
    "dc_dead s' = dc_dead s" "dc_results s' = dc_results s @ [(i, dc_ptr s)]"
  shows "kept_inv s'"
  using assms(1,2,4,6) by (intro kept_inv_update [OF assms(1) _ _ assms(3) _ assms(5)]) (auto simp: kept_inv_def)

lemma kept_inv_instance:
  assumes "dcl_inv s" "kept_inv s" "i < length (dc_pcs s)" "instance_step i s = Some s'"
  shows "kept_inv s'"
proof -
  have ptr: "past_test (dc_pcs s ! i) \<Longrightarrow> dc_ptr s = Some 0" "dc_ptr s = None \<or> dc_ptr s = Some 0"
    using assms(2) nth_mem [OF assms(3)] by (auto simp: kept_inv_def)
  show ?thesis
  proof (cases "dc_pcs s ! i")
    case I_Test1
    then have "s' = dc_goto i (if dc_ptr s = None then I_Lock else I_Read) s"
      using assms(4) by (simp add: instance_step_def)
    then show ?thesis
      using ptr(2) by (intro kept_inv_goto [OF assms(2), of "if dc_ptr s = None then I_Lock else I_Read" s' i]) auto
  next
    case I_Lock
    with assms show ?thesis
      by (auto simp: instance_step_def split: outcome.splits intro!: kept_inv_goto [of s I_Test2 _ i])
  next
    case I_Test2
    then have "s' = dc_goto i (if dc_ptr s = None then I_New else I_Unlock) s"
      using assms(4) by (simp add: instance_step_def)
    then show ?thesis
      using ptr(2) by (intro kept_inv_goto [OF assms(2), of "if dc_ptr s = None then I_New else I_Unlock" s' i]) auto
  next
    case I_New
    have "ptr_ok (Some I_New) (dc_ptr s) (dc_dead s) (dc_made s)"
      using assms(1,3) I_New dcl_lock_holder [of s i] by (auto simp: dcl_inv_def)
    then have "dc_made s = 0" using assms(2) by (auto simp: ptr_ok_def kept_inv_def split: option.splits)
    with I_New assms show ?thesis by (auto simp: instance_step_def intro!: kept_inv_new [of s _ i])
  next
    case I_Unlock
    with assms ptr show ?thesis
      by (auto simp: instance_step_def split: outcome.splits intro!: kept_inv_goto [of s I_Read _ i])
  next
    case I_Read
    with assms ptr show ?thesis by (auto simp: instance_step_def intro!: kept_inv_read [of s _ i])
  qed (use assms(4) in \<open>auto simp: instance_step_def\<close>)
qed

lemma kept_inv_step:
  assumes "dcl_inv s" "dcl_step False s s'" "kept_inv s"
  shows "kept_inv s'"
  using assms(2)
proof (cases rule: dcl_step.cases)
  case (call_instance i)
  then show ?thesis using assms(3) by (auto intro!: kept_inv_goto [of s I_Test1 _ i])
next
  case (in_instance i)
  then show ?thesis using assms kept_inv_instance by blast
next
  case (in_shutdown i)
  then have "in_shutdown_pc (dc_pcs s ! i)" by (cases "dc_pcs s ! i") (auto simp: shutdown_step_def)
  then show ?thesis using assms(3) nth_mem [OF in_shutdown(1)] by (simp add: kept_inv_def)
qed simp

lemma kept_inv_init: "dcl_init s \<Longrightarrow> kept_inv s"
  by (auto simp: kept_inv_def dcl_init_def dcl_start_def)

lemma kept_inv_reach: "reach dcl_init (dcl_step False) s \<Longrightarrow> kept_inv s"
  by (erule dcl.reach_keep [of False s kept_inv]) (blast intro: kept_inv_init, blast intro: kept_inv_step)

section \<open>Runs of a given schedule\<close>

datatype dcl_move = Call_Instance nat | Call_Shutdown nat | Move nat

fun dcl_move_step :: "dcl_move \<Rightarrow> dcl_sys \<Rightarrow> dcl_sys option" where
  "dcl_move_step (Call_Instance i) s = (if dc_at s i Idle then Some (dc_goto i I_Test1 s) else None)"
| "dcl_move_step (Call_Shutdown i) s = (if dc_at s i Idle then Some (dc_goto i S_Test1 s) else None)"
| "dcl_move_step (Move i) s =
     (if \<not> i < length (dc_pcs s) then None
      else if in_shutdown_pc (dc_pcs s ! i) then shutdown_step i s else instance_step i s)"

fun dcl_run :: "dcl_move list \<Rightarrow> dcl_sys \<Rightarrow> dcl_sys option" where
  "dcl_run [] s = Some s"
| "dcl_run (m # ms) s = (case dcl_move_step m s of None \<Rightarrow> None | Some s' \<Rightarrow> dcl_run ms s')"

lemma dcl_move_step: "dcl_move_step m s = Some s' \<Longrightarrow> dcl_step True s s'"
  by (cases m) (auto split: if_splits intro: dcl_step.intros)

lemma dcl_run_reach: "dcl_run ms s = Some s' \<Longrightarrow> reach dcl_init (dcl_step True) s \<Longrightarrow> reach dcl_init (dcl_step True) s'"
proof (induction ms arbitrary: s)
  case (Cons m ms)
  then obtain s1 where s1: "dcl_move_step m s = Some s1" "dcl_run ms s1 = Some s'" by (auto split: option.splits)
  have "reach dcl_init (dcl_step True) s1" using Cons.prems(2) dcl_move_step [OF s1(1)] by (rule reach_step)
  then show ?case using Cons.IH s1(2) by blast
qed simp

lemma dcl_run_start:
  assumes "dcl_run ms (dcl_start n) = Some s"
  shows "reach dcl_init (dcl_step True) s"
  using assms by (rule dcl_run_reach) (rule reach_init, simp add: dcl_init_def, blast)

definition dcl_moves :: "nat \<Rightarrow> nat \<Rightarrow> dcl_move list" where
  "dcl_moves i n = replicate n (Move i)"

section \<open>Properties\<close>

text \<open>
  C21. Double-checked locking works for the tables, which are never deleted: under every interleaving of any
  number of callers at most one object is constructed, and every completed call of \<open>instance\<close> returned it,
  never a null pointer.
\<close>

theorem instance_unique:
  assumes "reach dcl_init (dcl_step False) s"
  shows "dc_made s \<le> 1 \<and> (\<forall>(i, r) \<in> set (dc_results s). r = Some 0 \<and> dc_made s = 1)"
proof -
  have "kept_inv s" using assms by (rule kept_inv_reach)
  moreover have "ptr_ok (holder_pc s) (dc_ptr s) (dc_dead s) (dc_made s)"
    using dcl.reach_inv [OF assms] by (simp add: dcl_inv_def)
  ultimately show ?thesis
    by (cases "dc_ptr s") (auto simp: kept_inv_def ptr_ok_def split: if_splits dest: sym [of "[]"])
qed

text \<open>Two callers race for the first object; the second finds it made when it gets the mutex.\<close>

definition dcl_race :: "dcl_move list" where
  "dcl_race = [Call_Instance 0, Call_Instance 1, Move 0, Move 1, Move 0, Move 0, Move 0, Move 0] @ dcl_moves 1 4 @ [Move 0]"

lemma dcl_move_kept: "dcl_move_step m s = Some s' \<Longrightarrow> (\<nexists>i. m = Call_Shutdown i) \<Longrightarrow> kept_inv s \<Longrightarrow> dcl_step False s s'"
proof (cases m)
  case (Move i)
  assume "dcl_move_step m s = Some s'" "kept_inv s"
  then show ?thesis using Move nth_mem [of i "dc_pcs s"]
    by (auto simp: kept_inv_def split: if_splits intro: dcl_step.in_instance)
qed (auto split: if_splits intro: dcl_step.intros)

lemma dcl_run_kept:
  "dcl_run ms s = Some s' \<Longrightarrow> (\<forall>m \<in> set ms. \<nexists>i. m = Call_Shutdown i) \<Longrightarrow> reach dcl_init (dcl_step False) s \<Longrightarrow>
     reach dcl_init (dcl_step False) s'"
proof (induction ms arbitrary: s)
  case (Cons m ms)
  then obtain s1 where s1: "dcl_move_step m s = Some s1" "dcl_run ms s1 = Some s'" by (auto split: option.splits)
  have "dcl_step False s s1"
    using dcl_move_kept [OF s1(1)] Cons.prems(2) kept_inv_reach [OF Cons.prems(3)] by simp
  then have "reach dcl_init (dcl_step False) s1" by (rule reach_step [OF Cons.prems(3)])
  then show ?case using Cons.IH s1(2) Cons.prems(2) by simp
qed simp

lemma dcl_race_run:
  "dcl_run dcl_race (dcl_start 2) = Some \<lparr>dc_ptr = Some 0, dc_mutex = Mutex_Free, dc_made = 1, dc_dead = [],
     dc_pcs = [Idle, Idle], dc_results = [(1, Some 0), (0, Some 0)]\<rparr>"
  by (simp add: dcl_race_def dcl_start_def dcl_moves_def instance_step_def numeral_2_eq_2 eval_nat_numeral)

lemma dcl_race_reach:
  "reach dcl_init (dcl_step False) \<lparr>dc_ptr = Some 0, dc_mutex = Mutex_Free, dc_made = 1, dc_dead = [],
     dc_pcs = [Idle, Idle], dc_results = [(1, Some 0), (0, Some 0)]\<rparr>"
  using dcl_race_run
  by (rule dcl_run_kept) (simp add: dcl_race_def dcl_moves_def, rule reach_init, auto simp: dcl_init_def)

theorem instance_unique_witness:
  "dc_made \<lparr>dc_ptr = Some 0, dc_mutex = Mutex_Free, dc_made = 1, dc_dead = [], dc_pcs = [Idle, Idle],
     dc_results = [(1, Some 0), (0, Some 0)]\<rparr> \<le> 1"
  using instance_unique [OF dcl_race_reach] by blast

text \<open>
  C36. With \<open>shutdown\<close> in the game the mutex still does its work: in every reachable state at most one thread is
  inside the critical sections of \<open>instance\<close> and \<open>shutdown\<close>, no object is deleted twice, only objects that
  were made are deleted, and at most one object is alive.
\<close>

theorem instance_shutdown_exclusive:
  assumes "reach dcl_init (dcl_step True) s"
  shows "(\<forall>i j. i < length (dc_pcs s) \<longrightarrow> j < length (dc_pcs s) \<longrightarrow> in_mutex (dc_pcs s ! i) \<longrightarrow> in_mutex (dc_pcs s ! j) \<longrightarrow> i = j) \<and>
    distinct (dc_dead s) \<and> (\<forall>x \<in> set (dc_dead s). x < dc_made s) \<and> dc_made s \<le> Suc (length (dc_dead s))"
proof -
  have "ptr_ok (holder_pc s) (dc_ptr s) (dc_dead s) (dc_made s)"
    using dcl.reach_inv [OF assms] by (simp add: dcl_inv_def)
  then have "distinct (dc_dead s) \<and> (\<forall>x \<in> set (dc_dead s). x < dc_made s) \<and> dc_made s \<le> Suc (length (dc_dead s))"
    by (auto simp: ptr_ok_def split: option.splits if_splits)
  moreover have "i = j" if "i < length (dc_pcs s)" "j < length (dc_pcs s)" "in_mutex (dc_pcs s ! i)" "in_mutex (dc_pcs s ! j)" for i j
    using dcl.reach_mutex [OF assms, of i j] that by blast
  ultimately show ?thesis by blast
qed

text \<open>A caller that has left the mutex reads the pointer after, or in the middle of, a \<open>shutdown\<close>.\<close>

definition dcl_null_run :: "dcl_move list" where
  "dcl_null_run = [Call_Instance 0] @ dcl_moves 0 5 @ [Call_Shutdown 1] @ dcl_moves 1 6 @ [Move 0]"

definition dcl_dangling_run :: "dcl_move list" where
  "dcl_dangling_run = [Call_Instance 0] @ dcl_moves 0 5 @ [Call_Shutdown 1] @ dcl_moves 1 4 @ [Move 0]"

lemma dcl_null_result:
  "map_option dc_results (dcl_run dcl_null_run (dcl_start 2)) = Some [(0, None)]"
  by (simp add: dcl_null_run_def dcl_start_def dcl_moves_def instance_step_def shutdown_step_def eval_nat_numeral)

lemma dcl_dangling_result:
  "map_option (\<lambda>s. (dc_results s, dc_dead s)) (dcl_run dcl_dangling_run (dcl_start 2)) = Some ([(0, Some 0)], [0])"
  by (simp add: dcl_dangling_run_def dcl_start_def dcl_moves_def instance_step_def shutdown_step_def eval_nat_numeral)

theorem instance_shutdown_exclusive_witness:
  "\<exists>s. reach dcl_init (dcl_step True) s \<and> dc_dead s = [0] \<and> dc_made s \<le> Suc (length (dc_dead s))"
proof -
  obtain s where s: "dcl_run dcl_dangling_run (dcl_start 2) = Some s" "dc_dead s = [0]"
    using dcl_dangling_result by auto
  show ?thesis using instance_shutdown_exclusive [OF dcl_run_start [OF s(1)]] dcl_run_start [OF s(1)] s(2) by blast
qed

text \<open>
  C38. \<open>instance\<close> returns the static pointer after it has released the mutex, so a concurrent \<open>shutdown\<close> makes it
  return a null pointer in one schedule, and a pointer to the pool that has just been deleted in another.
\<close>

theorem instance_returns_null_or_dangling:
  "(\<exists>s i. reach dcl_init (dcl_step True) s \<and> (i, None) \<in> set (dc_results s)) \<and>
   (\<exists>s i x. reach dcl_init (dcl_step True) s \<and> (i, Some x) \<in> set (dc_results s) \<and> x \<in> set (dc_dead s))"
proof -
  obtain s where s: "dcl_run dcl_null_run (dcl_start 2) = Some s" "dc_results s = [(0, None)]"
    using dcl_null_result by auto
  obtain u where u: "dcl_run dcl_dangling_run (dcl_start 2) = Some u" "dc_results u = [(0, Some 0)]" "dc_dead u = [0]"
    using dcl_dangling_result by auto
  have "(0, None) \<in> set (dc_results s)" "(0, Some 0) \<in> set (dc_results u)" "0 \<in> set (dc_dead u)"
    using s(2) u(2,3) by simp_all
  then show ?thesis using dcl_run_start [OF s(1)] dcl_run_start [OF u(1)] by blast
qed

end
