(* ===== verification/Code_Maps.thy ===== *)
theory Code_Maps
  imports Worker_Sync
begin

text \<open>
  \<open>error_map.cpp\<close> and \<open>httpcode_map.cpp\<close>: the tables the two singletons hold once constructed, and the
  accesses the program makes to them through the macros \<open>errmap\<close> and \<open>http_codes\<close>. A \<open>std::map\<close> is a partial
  function; \<open>insert\<close> keeps the entry of a key that is there already, \<open>at\<close> throws for a key that is not.
  The errno constants have their Linux values. The function
  \<open>instance\<close> is here for one caller at a time; \<open>Singleton\<close> has its steps for many.
\<close>

section \<open>std::map\<close>

type_synonym code_table = "int \<rightharpoonup> string"

definition std_insert :: "int \<Rightarrow> string \<Rightarrow> code_table \<Rightarrow> code_table" where
  "std_insert k v m = (if m k = None then m(k \<mapsto> v) else m)"

definition std_at :: "code_table \<Rightarrow> int \<Rightarrow> string outcome" where
  "std_at m k = (case m k of Some v \<Rightarrow> Ret v | None \<Rightarrow> Stop Out_Of_Range)"

text \<open>\<open>operator[]\<close> adds an empty string under a key that is not there.\<close>

definition std_subscript :: "code_table \<Rightarrow> int \<Rightarrow> string \<times> code_table" where
  "std_subscript m k = (case m k of Some v \<Rightarrow> (v, m) | None \<Rightarrow> ([], m(k \<mapsto> [])))"

definition insert_all :: "(int \<times> string) list \<Rightarrow> code_table" where
  "insert_all kvs = fold (\<lambda>(k, v). std_insert k v) kvs Map.empty"

lemma insert_all_gen: "fold (\<lambda>(k, v). std_insert k v) kvs m = map_of kvs ++ m"
proof (induction kvs arbitrary: m)
  case Nil
  then show ?case by simp
next
  case (Cons kv kvs)
  obtain k v where "kv = (k, v)" by (cases kv)
  with Cons show ?case
    by (auto simp: std_insert_def fun_eq_iff map_add_def split: option.splits)
qed

lemma insert_all_map_of: "insert_all kvs = map_of kvs"
  by (simp add: insert_all_def insert_all_gen)

section \<open>The tables\<close>

definition error_map_ctor :: code_table where
  "error_map_ctor = insert_all
     [
      (1, ''EPERM: Operation not permitted''),
      (1, ''EPERM: Operation not permitted''),
      (2, ''ENOENT: No such file or directory''),
      (3, ''ESRCH: No suchprocess''),
      (4, ''EINTR: Interrupted system call''),
      (5, ''EIO: I/O error''),
      (6, ''ENXIO: No such device or address''),
      (7, ''E2BIG: Argument list too long''),
      (8, ''ENOEXEC: Exec format error''),
      (9, ''EBADF: Bad file number''),
      (10, ''ECHILD: No child processes''),
      (11, ''EAGAIN: Try again''),
      (12, ''ENOMEM: Out of memory''),
      (13, ''EACCES: Permission denied''),
      (14, ''EFAULT: Bad address''),
      (15, ''ENOTBLK: Block device required''),
      (16, ''EBUSY: Device or resource busy''),
      (17, ''EEXIST: File exists''),
      (18, ''EXDEV: Cross-device link''),
      (19, ''ENODEV: No such device''),
      (20, ''ENOTDIR: Not a directory''),
      (21, ''EISDIR: Is a directory''),
      (22, ''EINVAL: Invalid argument''),
      (23, ''ENFILE: File table overflow''),
      (24, ''EMFILE: Too many open files''),
      (25, ''ENOTTY: Not a typewriter''),
      (26, ''ETXTBSY: Text file busy''),
      (27, ''EFBIG: File too large''),
      (28, ''ENOSPC: No space left on device''),
      (29, ''ESPIPE: Illegal seek''),
      (30, ''EROFS: Read-only file system''),
      (31, ''EMLINK: Too many links''),
      (32, ''EPIPE: Broken pipe''),
      (33, ''EDOM: Math argument out of domain of func''),
      (34, ''ERANGE: Math result not representable'')]"

definition httpcode_map_ctor :: code_table where
  "httpcode_map_ctor = insert_all
     [
      (100, ''Continue''),
      (101, ''Switching Protocols''),
      (102, ''Processing''),
      (103, ''Early Hints''),
      (200, ''OK''),
      (201, ''Created''),
      (202, ''Accepted''),
      (203, ''Non-Authoritative Information''),
      (204, ''No Content''),
      (205, ''Reset Content''),
      (206, ''Partial Content''),
      (300, ''Multiple Choices''),
      (301, ''Moved Permanently''),
      (302, ''Found''),
      (303, ''See Other''),
      (304, ''Not Modified''),
      (305, ''Use Proxy''),
      (307, ''Temporary Redirect''),
      (308, ''Permanent Redirect''),
      (400, ''Bad Request''),
      (401, ''Unauthorized''),
      (402, ''Payment Required''),
      (403, ''Forbidden''),
      (404, ''Not Found''),
      (405, ''Method Not Allowed''),
      (406, ''Not Acceptable''),
      (407, ''Proxy Authentication Required''),
      (408, ''Request Timeout''),
      (409, ''Conflict''),
      (410, ''Gone''),
      (411, ''Length Required''),
      (500, ''Internal Server Error''),
      (501, ''Not Implemented''),
      (502, ''Bad Gateway''),
      (503, ''Service Unavailable''),
      (504, ''Gateway Timeout''),
      (505, ''HTTP Version Not Supported''),
      (506, ''Variant Also Negotiates''),
      (507, ''Insufficient Storage''),
      (508, ''Loop Detected''),
      (510, ''Not Extended''),
      (511, ''Network Authentication Required'')]"

section \<open>instance\<close>

text \<open>
  The double-checked construction (\<open>error_map.h\<close>, \<open>httpcode_map.h\<close>): the state is the mutex and the static pointer, \<open>fresh\<close> what
  \<open>new\<close> constructs. \<open>get_error_map\<close> and \<open>get_code_map\<close> give the table itself.
\<close>

definition table_instance :: "code_table \<Rightarrow> tid \<Rightarrow> mutex \<times> code_table option \<Rightarrow> (code_table \<times> mutex \<times> code_table option) outcome" where
  "table_instance fresh t st = (case st of (m, ptr) \<Rightarrow>
     bind_outcome
       (if ptr = None then
          bind_outcome (mutex_lock t m) (\<lambda>m1.
          let ptr1 = (if ptr = None then Some fresh else ptr) in
          bind_outcome (mutex_unlock t m1) (\<lambda>m2. Ret (m2, ptr1)))
        else Ret (m, ptr))
       (\<lambda>(m', ptr'). case ptr' of Some tab \<Rightarrow> Ret (tab, m', ptr') | None \<Rightarrow> Stop Null_Deref))"

definition error_map_instance :: "tid \<Rightarrow> mutex \<times> code_table option \<Rightarrow> (code_table \<times> mutex \<times> code_table option) outcome" where
  "error_map_instance t st = table_instance error_map_ctor t st"

definition httpcode_map_instance :: "tid \<Rightarrow> mutex \<times> code_table option \<Rightarrow> (code_table \<times> mutex \<times> code_table option) outcome" where
  "httpcode_map_instance t st = table_instance httpcode_map_ctor t st"

lemma table_instance_first: "table_instance fresh t (Mutex_Free, None) = Ret (fresh, Mutex_Free, Some fresh)"
  by (simp add: table_instance_def)

lemma table_instance_later: "table_instance fresh t (m, Some tab) = Ret (tab, m, Some tab)"
  by (simp add: table_instance_def)

section \<open>The contract of a code table\<close>

text \<open>
  What a client of a table relies on: the set of the codes it holds.
\<close>

locale code_lookup =
  fixes table :: code_table and codes :: "int set"
  assumes table_dom: "dom table = codes"
begin

lemma known_iff: "k \<in> codes \<longleftrightarrow> table k \<noteq> None"
  using table_dom by (auto simp: dom_def)

lemma at_known: "k \<in> codes \<Longrightarrow> \<exists>v. std_at table k = Ret v \<and> table k = Some v"
  using table_dom by (auto simp: std_at_def)

lemma at_throws_iff: "std_at table k = Stop Out_Of_Range \<longleftrightarrow> k \<notin> codes"
  using table_dom by (auto simp: std_at_def split: option.splits)

lemma find_then_subscript: "table k \<noteq> None \<Longrightarrow> std_subscript table k = (the (table k), table)"
  by (auto simp: std_subscript_def)

lemma subscript_keeps_iff: "snd (std_subscript table k) = table \<longleftrightarrow> k \<in> codes"
  using table_dom by (auto simp: std_subscript_def fun_eq_iff split: option.splits)

end

definition error_codes :: "int set" where
  "error_codes = {1..34}"

definition http_known :: "int list" where
  "http_known = [100, 101, 102, 103, 200, 201, 202, 203, 204, 205, 206, 300, 301, 302, 303, 304, 305, 307, 308, 400, 401, 402, 403, 404, 405, 406, 407, 408, 409, 410, 411, 500, 501, 502, 503, 504, 505, 506, 507, 508, 510, 511]"

lemma error_map_dom: "dom error_map_ctor = error_codes"
proof -
  have "{1..34} = set [1..34::int]" by simp
  also have "[1..34] = [1, 2, 3, 4, 5, 6, 7, 8, 9, 10, 11, 12, 13, 14, 15, 16, 17, 18, 19, 20, 21, 22, 23, 24, 25, 26, 27, 28, 29, 30, 31, 32, 33, 34::int]" by (simp add: upto.simps)
  finally show ?thesis
    by (auto simp: error_map_ctor_def error_codes_def insert_all_map_of dom_map_of_conv_image_fst)
qed

lemma httpcode_map_dom: "dom httpcode_map_ctor = set http_known"
  by (simp add: httpcode_map_ctor_def insert_all_map_of dom_map_of_conv_image_fst http_known_def)

interpretation errmap: code_lookup error_map_ctor error_codes
  by unfold_locales (rule error_map_dom)

interpretation http_codes: code_lookup httpcode_map_ctor "set http_known"
  by unfold_locales (rule httpcode_map_dom)

lemma http_200: "std_at httpcode_map_ctor 200 = Ret ''OK''"
  by (simp add: httpcode_map_ctor_def insert_all_map_of std_at_def)

lemma http_400: "std_at httpcode_map_ctor 400 = Ret ''Bad Request''"
  by (simp add: httpcode_map_ctor_def insert_all_map_of std_at_def)

section \<open>Properties\<close>

text \<open>
  The two tables answer for exactly their codes: the error table for the errno values 1 to 34 (the repeated
  insertion of \<open>EPERM\<close> is harmless), the HTTP table for its 42 status codes; \<open>http_codes.at\<close> throws for
  every other code, and the two codes the handlers pass to it, 200 and 400, give \<open>OK\<close> and \<open>Bad Request\<close>.
\<close>

theorem code_tables_cover:
  "(error_map_ctor e \<noteq> None \<longleftrightarrow> 1 \<le> e \<and> e \<le> 34) \<and>
   (std_at httpcode_map_ctor k = Stop Out_Of_Range \<longleftrightarrow> k \<notin> set http_known) \<and>
   length http_known = 42 \<and> distinct http_known \<and>
   std_at httpcode_map_ctor 200 = Ret ''OK'' \<and> std_at httpcode_map_ctor 400 = Ret ''Bad Request''"
  using error_map_dom http_codes.at_throws_iff [of k] http_200 http_400
  by (auto simp: error_codes_def dom_def http_known_def)

text \<open>
  The tables are made once: the first call of \<open>instance\<close> gives the table that the constructor makes, every later one gives the same
  table, even if the lock is held by somebody else then, and looking up a known code in it does not change it.
\<close>

theorem tables_made_once:
  "\<exists>st. error_map_instance t (Mutex_Free, None) = Ret (error_map_ctor, st) \<and>
     (\<forall>u. error_map_instance u st = Ret (error_map_ctor, st)) \<and> (\<forall>u m. error_map_instance u (m, snd st) = Ret (error_map_ctor, m, snd st))"
  "\<exists>st. httpcode_map_instance t (Mutex_Free, None) = Ret (httpcode_map_ctor, st) \<and>
     (\<forall>u. httpcode_map_instance u st = Ret (httpcode_map_ctor, st))"
  by (simp_all add: error_map_instance_def httpcode_map_instance_def table_instance_first table_instance_later)

end
