(* ===== verification/Epoll_Wrapper.thy ===== *)
theory Epoll_Wrapper
  imports OS_Interface
begin

text \<open>
  \<open>epoll_wrapper.h\<close> and \<open>epoll_wrapper.cpp\<close>: the constructor and destructor, \<open>add_event\<close>, \<open>modify_event\<close>,
  \<open>delete_event\<close> and \<open>poll_event\<close>, and the loop over the delivered events that every callback of the program
  starts with. The interest list that the kernel keeps for an epoll instance is read off the trace of the
  calls: \<open>interest\<close>.
\<close>

section \<open>Constants\<close>

definition EPOLL_WAIT_TIME :: int where "EPOLL_WAIT_TIME = 10000"
definition MIN_EPOLL_WAIT_TIME :: int where "MIN_EPOLL_WAIT_TIME = 10000"
definition MAX_EVENTS :: nat where "MAX_EVENTS = 1024"

definition EPOLLIN :: u32 where "EPOLLIN = 0x001"
definition EPOLLPRI :: u32 where "EPOLLPRI = 0x002"
definition EPOLLERR :: u32 where "EPOLLERR = 0x008"
definition EPOLLHUP :: u32 where "EPOLLHUP = 0x010"
definition EPOLLRDHUP :: u32 where "EPOLLRDHUP = 0x2000"
definition EPOLLET :: u32 where "EPOLLET = 0x80000000"
definition EPOLL_CLOEXEC :: int where "EPOLL_CLOEXEC = 0x80000"
definition O_NONBLOCK :: int where "O_NONBLOCK = 0x800"

lemmas epoll_consts = EPOLLIN_def EPOLLPRI_def EPOLLERR_def EPOLLHUP_def EPOLLRDHUP_def EPOLLET_def

text \<open>The C condition \<open>events & bits\<close>.\<close>

definition has_event :: "u32 \<Rightarrow> u32 \<Rightarrow> bool" where
  "has_event events bits \<longleftrightarrow> and events bits \<noteq> 0"

section \<open>The class\<close>

record epoll_wrapper =
  ep_fd :: int
  ep_evary :: "epoll_event list"

definition no_event :: epoll_event where
  "no_event = \<lparr>ev_events = 0, ev_fd = 0\<rparr>"

definition epoll_wrapper_ctor :: "os \<Rightarrow> epoll_wrapper io" where
  "epoll_wrapper_ctor os =
     call os (Sys_epoll_create1 EPOLL_CLOEXEC) (\<lambda>fd.
     CHECK_PERROR_ABT os fd ''epoll_create() failed!''
       (call os (Sys_fcntl_setfl fd O_NONBLOCK) (\<lambda>res.
        CHECK_PERROR os res ''fcntl: set O_NONBLOCK failed!''
          (ret \<lparr>ep_fd = fd, ep_evary = replicate MAX_EVENTS no_event\<rparr>))))"

definition epoll_wrapper_dtor :: "os \<Rightarrow> epoll_wrapper \<Rightarrow> unit io" where
  "epoll_wrapper_dtor os w = call_void os (Sys_close (ep_fd w)) (ret ())"

definition epoll_add_event :: "os \<Rightarrow> epoll_wrapper \<Rightarrow> int \<Rightarrow> u32 \<Rightarrow> bool \<Rightarrow> int io" where
  "epoll_add_event os w fd event ignore_err =
     call os (Sys_epoll_ctl_add (ep_fd w) fd \<lparr>ev_events = or event EPOLLET, ev_fd = fd\<rparr>) (\<lambda>res.
     if \<not> ignore_err then ret 0
     else CHECK_PERROR os res ''epoll_ctl: ADD failed!'' (ret res))"

definition epoll_modify_event :: "os \<Rightarrow> epoll_wrapper \<Rightarrow> int \<Rightarrow> int \<Rightarrow> int io" where
  "epoll_modify_event os w fd event = epoll_add_event os w fd (word_of_int event) True"

definition epoll_delete_event :: "os \<Rightarrow> epoll_wrapper \<Rightarrow> int \<Rightarrow> int io" where
  "epoll_delete_event os w fd =
     call os (Sys_epoll_ctl_del (ep_fd w) fd) (\<lambda>res.
     CHECK_PERROR os res ''epoll_ctl: DEL failed!'' (ret res))"

text \<open>The kernel fills the array from its start; the callback gets the array and the number of events.\<close>

definition put_events :: "sysout \<Rightarrow> epoll_event list \<Rightarrow> epoll_event list" where
  "put_events out arr = (case out of Out_Events evs \<Rightarrow> take (length arr) evs @ drop (length evs) arr | _ \<Rightarrow> arr)"

definition epoll_poll_event ::
  "os \<Rightarrow> (epoll_event list \<Rightarrow> int \<Rightarrow> 's \<Rightarrow> 's io) \<Rightarrow> epoll_wrapper \<Rightarrow> int \<Rightarrow> 's \<Rightarrow> (epoll_wrapper \<times> 's) io"
where
  "epoll_poll_event os callback w timeout s =
     call_out os (Sys_epoll_wait (ep_fd w) MAX_EVENTS timeout) (\<lambda>readyn out.
     let w' = w\<lparr>ep_evary := put_events out (ep_evary w)\<rparr> in
     CHECK_PERROR os readyn ''epoll_wait: error''
       (if readyn = -1 then ret (w', s)
        else bind_io (callback (ep_evary w') readyn s) (\<lambda>s'. ret (w', s'))))"

text \<open>
  The member \<open>callback_\<close> is a \<open>std::function\<close>, which may be empty: calling it then throws. \<open>epoll_wrapper_ctor\<close> leaves it empty, the constructor
  with an argument and \<open>set_callback\<close> store one. The rest of the program only polls with a callback in place and passes it to
  \<open>epoll_poll_event\<close>.
\<close>

type_synonym 's event_callback = "epoll_event list \<Rightarrow> int \<Rightarrow> 's \<Rightarrow> 's io"

record 's epoll_object = epoll_wrapper +
  ep_callback :: "'s event_callback option"

definition call_callback :: "'s event_callback option \<Rightarrow> 's event_callback" where
  "call_callback cb arr n s = (case cb of None \<Rightarrow> stop Bad_Function_Call | Some f \<Rightarrow> f arr n s)"

definition epoll_object_ctor :: "os \<Rightarrow> 's epoll_object io" where
  "epoll_object_ctor os = bind_io (epoll_wrapper_ctor os) (\<lambda>w. ret (epoll_wrapper.extend w \<lparr>ep_callback = None\<rparr>))"

definition epoll_set_callback :: "'s event_callback option \<Rightarrow> 's epoll_object \<Rightarrow> 's epoll_object" where
  "epoll_set_callback cb w = w\<lparr>ep_callback := cb\<rparr>"

definition epoll_object_ctor2 :: "os \<Rightarrow> 's event_callback option \<Rightarrow> 's epoll_object io" where
  "epoll_object_ctor2 os cb = bind_io (epoll_object_ctor os) (\<lambda>w. ret (w\<lparr>ep_callback := cb\<rparr>))"

definition epoll_object_poll :: "os \<Rightarrow> 's epoll_object \<Rightarrow> int \<Rightarrow> 's \<Rightarrow> ('s epoll_object \<times> 's) io" where
  "epoll_object_poll os w timeout s =
     bind_io (epoll_poll_event os (call_callback (ep_callback w)) (epoll_wrapper.truncate w) timeout s) (\<lambda>(w', s').
       ret (epoll_wrapper.extend w' \<lparr>ep_callback = ep_callback w\<rparr>, s'))"

text \<open>\<open>for (int i = 0; i < size; ++i) { ... events[i] ... }\<close>, from index \<open>i\<close> with \<open>k\<close> iterations to go.\<close>

fun for_events_from :: "(epoll_event \<Rightarrow> 's \<Rightarrow> 's io) \<Rightarrow> epoll_event list \<Rightarrow> nat \<Rightarrow> nat \<Rightarrow> 's \<Rightarrow> 's io" where
  "for_events_from f arr i 0 s = ret s"
| "for_events_from f arr i (Suc k) s =
     bind_io (lift (vec_index arr (int i))) (\<lambda>ev. bind_io (f ev s) (\<lambda>s'. for_events_from f arr (Suc i) k s'))"

definition for_events :: "(epoll_event \<Rightarrow> 's \<Rightarrow> 's io) \<Rightarrow> epoll_event list \<Rightarrow> int \<Rightarrow> 's \<Rightarrow> 's io" where
  "for_events f arr n s = for_events_from f arr 0 (nat n) s"

text \<open>The same over a list: the specification of the loop.\<close>

fun each_event :: "(epoll_event \<Rightarrow> 's \<Rightarrow> 's io) \<Rightarrow> epoll_event list \<Rightarrow> 's \<Rightarrow> 's io" where
  "each_event f [] s = ret s"
| "each_event f (ev # evs) s = bind_io (f ev s) (each_event f evs)"

section \<open>The kernel's interest list\<close>

fun interest_step :: "int \<Rightarrow> int \<Rightarrow> syscall \<times> int \<Rightarrow> epoll_event option \<Rightarrow> epoll_event option" where
  "interest_step ep fd (Sys_epoll_ctl_add e f ev, r) old = (if e = ep \<and> f = fd \<and> r = 0 then Some ev else old)"
| "interest_step ep fd (Sys_epoll_ctl_del e f, r) old = (if e = ep \<and> f = fd \<and> r = 0 then None else old)"
| "interest_step ep fd (Sys_close f, r) old = (if f = fd \<or> f = ep then None else old)"
| "interest_step ep fd (c, r) old = old"

definition interest :: "int \<Rightarrow> int \<Rightarrow> trace \<Rightarrow> epoll_event option" where
  "interest ep fd t = fold (interest_step ep fd) t None"


lemma interest_snoc: "interest ep fd (t @ cs) = fold (interest_step ep fd) cs (interest ep fd t)"
  by (simp add: interest_def)

text \<open>What epoll_ctl(2) documents of \<open>EPOLL_CTL_ADD\<close>: \<open>EEXIST\<close> for a descriptor that is already registered.\<close>

definition add_refuses_registered :: "os \<Rightarrow> bool" where
  "add_refuses_registered os \<longleftrightarrow>
     (\<forall>t ep fd ev. interest ep fd t \<noteq> None \<longrightarrow> fst (os t (Sys_epoll_ctl_add ep fd ev)) = -1)"

text \<open>
  What epoll_wait(2) documents: -1, or the number of events stored, at most as many as asked for.
\<close>

definition wait_documented :: "os \<Rightarrow> bool" where
  "wait_documented os \<longleftrightarrow> (\<forall>t ep n timeout. let (r, out) = os t (Sys_epoll_wait ep n timeout) in
     r = -1 \<or> (\<exists>evs. out = Out_Events evs \<and> r = int (length evs) \<and> length evs \<le> n))"

section \<open>Lemmas\<close>

lemma for_events_from_each:
  "i + k \<le> length arr \<Longrightarrow> for_events_from f arr i k s t = each_event f (take k (drop i arr)) s t"
proof (induction k arbitrary: i s t)
  case 0
  then show ?case by simp
next
  case (Suc k)
  have "take (Suc k) (drop i arr) = arr ! i # take k (drop (Suc i) arr)"
    using Suc.prems by (simp add: Cons_nth_drop_Suc [symmetric])
  moreover have "vec_index arr (int i) = Ret (arr ! i)"
    using Suc.prems by (simp add: vec_index_def vec_in_def)
  moreover have "for_events_from f arr (Suc i) k s' t' = each_event f (take k (drop (Suc i) arr)) s' t'" for s' t'
    using Suc by simp
  ultimately show ?case by (auto simp: bind_io_def lift_def split: outcome.splits prod.splits)
qed

lemma for_events_each: "evs = take n arr \<Longrightarrow> n \<le> length arr \<Longrightarrow> for_events f arr (int n) s t = each_event f evs s t"
  by (simp add: for_events_def for_events_from_each)

lemma take_put_events: "length evs \<le> length arr \<Longrightarrow> take (length evs) (put_events (Out_Events evs) arr) = evs"
  by (simp add: put_events_def)

lemma length_put_events [simp]: "length (put_events out arr) = length arr"
  by (auto simp: put_events_def split: sysout.splits)

lemma only_calls_each [intro]: "(\<And>ev s. only_calls P (f ev s)) \<Longrightarrow> only_calls P (each_event f evs s)"
  by (induction evs arbitrary: s) (auto simp del: only_calls_bind intro!: only_calls_bind)

lemma epoll_ctor_result:
  "epoll_wrapper_ctor os t =
    (let c = Sys_epoll_create1 EPOLL_CLOEXEC; fd = fst (os t c); t1 = t @ [(c, fd)];
         c2 = Sys_fcntl_setfl fd O_NONBLOCK; r2 = fst (os t1 c2); t2 = t1 @ [(c2, r2)];
         p1 = Sys_perror ''epoll_create() failed!''; p2 = Sys_perror ''fcntl: set O_NONBLOCK failed!''
     in if fd = -1 then (Stop Abort_Called, t1 @ [(p1, fst (os t1 p1))])
        else (Ret \<lparr>ep_fd = fd, ep_evary = replicate MAX_EVENTS no_event\<rparr>,
              if r2 = -1 then t2 @ [(p2, fst (os t2 p2))] else t2))"
  by (simp add: epoll_wrapper_ctor_def CHECK_PERROR_ABT_def CHECK_PERROR_def io_simps Let_def)

lemma add_event_result:
  "epoll_add_event os w fd event ig t =
    (let c = Sys_epoll_ctl_add (ep_fd w) fd \<lparr>ev_events = or event EPOLLET, ev_fd = fd\<rparr>; r = fst (os t c);
         t1 = t @ [(c, r)]; p = Sys_perror ''epoll_ctl: ADD failed!''
     in (Ret (if ig then r else 0), if ig \<and> r = -1 then t1 @ [(p, fst (os t1 p))] else t1))"
  by (simp add: epoll_add_event_def CHECK_PERROR_def io_simps Let_def)

lemma poll_event_each:
  assumes "wait_documented os" "length (ep_evary w) = MAX_EVENTS"
    and "os t (Sys_epoll_wait (ep_fd w) MAX_EVENTS timeout) = (r, Out_Events evs)" "r \<noteq> -1"
  shows "epoll_poll_event os (for_events f) w timeout s t =
     bind_io (each_event f evs s) (\<lambda>s'. ret (w\<lparr>ep_evary := put_events (Out_Events evs) (ep_evary w)\<rparr>, s'))
       (t @ [(Sys_epoll_wait (ep_fd w) MAX_EVENTS timeout, r)])"
proof -
  let ?c = "Sys_epoll_wait (ep_fd w) MAX_EVENTS timeout" and ?arr = "put_events (Out_Events evs) (ep_evary w)"
  have "r = int (length evs) \<and> length evs \<le> MAX_EVENTS"
    using assms(1) [unfolded wait_documented_def, rule_format, of t "ep_fd w" MAX_EVENTS timeout] assms(3,4) by auto
  then have n: "r = int (length evs)" "length evs \<le> length (ep_evary w)" using assms(2) by auto
  have "for_events f ?arr r s (t @ [(?c, r)]) = each_event f evs s (t @ [(?c, r)])"
    unfolding n(1) by (rule for_events_each) (simp_all add: n(2) take_put_events)
  then show ?thesis
    using assms(3,4) by (simp add: epoll_poll_event_def CHECK_PERROR_def call_out_def bind_io_def Let_def)
qed

lemma interest_perror [simp]: "interest ep fd (t @ [(Sys_perror msg, r)]) = interest ep fd t"
  by (simp add: interest_snoc)

lemma interest_add:
  "interest ep fd (t @ [(Sys_epoll_ctl_add e f ev, r)]) = (if e = ep \<and> f = fd \<and> r = 0 then Some ev else interest ep fd t)"
  by (simp add: interest_snoc)

text \<open>A kernel that keeps an interest list and always has the same events ready.\<close>

definition epoll_kernel :: "epoll_event list \<Rightarrow> os" where
  "epoll_kernel ready t c = (case c of
      Sys_epoll_ctl_add ep fd ev \<Rightarrow> (if interest ep fd t = None then 0 else -1, No_Out)
    | Sys_epoll_wait ep n timeout \<Rightarrow> (int (length (take n ready)), Out_Events (take n ready))
    | _ \<Rightarrow> (0, No_Out))"

lemma epoll_kernel_documented:
  "add_refuses_registered (epoll_kernel ready)" "wait_documented (epoll_kernel ready)"
  by (auto simp: add_refuses_registered_def wait_documented_def epoll_kernel_def)

section \<open>Properties\<close>

text \<open>
  \<open>add_event\<close> with its default argument hides the kernel's refusal: when \<open>epoll_ctl\<close> fails, the call still
  returns 0, prints nothing, and the descriptor is registered no more than before. With \<open>ignore_err\<close> set it is
  the other way round: the failure is printed and returned. The flag does the opposite of its name.
\<close>

theorem add_event_flag_inverted:
  assumes "fst (os t (Sys_epoll_ctl_add (ep_fd w) fd \<lparr>ev_events = or event EPOLLET, ev_fd = fd\<rparr>)) = -1"
  shows "\<exists>t1 t2. epoll_add_event os w fd event False t = (Ret 0, t1) \<and>
    epoll_add_event os w fd event True t = (Ret (-1), t2) \<and>
    (\<forall>msg r. (Sys_perror msg, r) \<in> set t1 \<longrightarrow> (Sys_perror msg, r) \<in> set t) \<and>
    (\<exists>r. last t2 = (Sys_perror ''epoll_ctl: ADD failed!'', r)) \<and>
    interest (ep_fd w) fd t1 = interest (ep_fd w) fd t \<and> interest (ep_fd w) fd t2 = interest (ep_fd w) fd t"
  using assms by (auto simp: add_event_result Let_def interest_snoc)

definition refusing_os :: os where
  "refusing_os t c = (-1, No_Out)"

theorem add_event_flag_inverted_witness:
  "\<exists>t1. epoll_add_event refusing_os \<lparr>ep_fd = 3, ep_evary = []\<rparr> 7 EPOLLIN False [] = (Ret 0, t1) \<and> interest 3 7 t1 = None"
  using add_event_flag_inverted [of refusing_os "[]" "\<lparr>ep_fd = 3, ep_evary = []\<rparr>" 7 EPOLLIN]
  by (auto simp: refusing_os_def interest_def)

text \<open>
  \<open>modify_event\<close> never modifies anything: it asks for \<open>EPOLL_CTL_ADD\<close>, which the kernel refuses for a
  descriptor that is registered, so the call returns -1 and every descriptor keeps the events it was
  registered with.
\<close>

theorem modify_event_never_modifies:
  assumes "add_refuses_registered os" "interest (ep_fd w) fd t \<noteq> None"
  shows "\<exists>t'. epoll_modify_event os w fd event t = (Ret (-1), t') \<and>
    (\<forall>fd'. interest (ep_fd w) fd' t' = interest (ep_fd w) fd' t)"
  using assms
  by (auto simp: epoll_modify_event_def add_event_result Let_def add_refuses_registered_def interest_snoc)

theorem modify_event_never_modifies_witness:
  "\<exists>t'. epoll_modify_event (epoll_kernel []) \<lparr>ep_fd = 3, ep_evary = []\<rparr> 7 4
      [(Sys_epoll_ctl_add 3 7 \<lparr>ev_events = EPOLLIN, ev_fd = 7\<rparr>, 0)] = (Ret (-1), t') \<and>
    interest 3 7 t' = Some \<lparr>ev_events = EPOLLIN, ev_fd = 7\<rparr>"
  using modify_event_never_modifies
    [of "epoll_kernel []" "\<lparr>ep_fd = 3, ep_evary = []\<rparr>" 7 "[(Sys_epoll_ctl_add 3 7 \<lparr>ev_events = EPOLLIN, ev_fd = 7\<rparr>, 0)]" 4]
  by (auto simp: epoll_kernel_documented interest_def)

text \<open>
  A wrapper made without a callback cannot be polled: a call that \<open>epoll_wait\<close> does not fail, a timeout with no events included, throws
  the exception of an empty \<open>std::function\<close>; only a failing one returns. Once a callback is set, polling calls that one, whatever was
  stored before.
\<close>

theorem empty_callback_throws:
  assumes "epoll_object_ctor os t0 = (Ret w, t1)"
  shows "fst (os t (Sys_epoll_wait (ep_fd w) MAX_EVENTS timeout)) \<noteq> -1 \<longrightarrow>
      (\<exists>t'. epoll_object_poll os w timeout s t = (Stop Bad_Function_Call, t'))"
    and "fst (os t (Sys_epoll_wait (ep_fd w) MAX_EVENTS timeout)) = -1 \<longrightarrow> (\<exists>w' t'. epoll_object_poll os w timeout s t = (Ret (w', s), t'))"
    and "fst (epoll_object_poll os (epoll_set_callback (Some f) v) timeout s t) =
      (case fst (epoll_poll_event os f (epoll_wrapper.truncate v) timeout s t) of
         Ret (x, s') \<Rightarrow> Ret (epoll_wrapper.extend x \<lparr>ep_callback = Some f\<rparr>, s') | Stop e \<Rightarrow> Stop e)"
proof -
  have w: "ep_callback w = None" "ep_fd (epoll_wrapper.truncate w) = ep_fd w"
    using assms by (auto simp: epoll_object_ctor_def bind_io_eq_Ret ret_def epoll_wrapper.defs)
  show "fst (os t (Sys_epoll_wait (ep_fd w) MAX_EVENTS timeout)) \<noteq> -1 \<longrightarrow>
      (\<exists>t'. epoll_object_poll os w timeout s t = (Stop Bad_Function_Call, t'))"
    "fst (os t (Sys_epoll_wait (ep_fd w) MAX_EVENTS timeout)) = -1 \<longrightarrow> (\<exists>w' t'. epoll_object_poll os w timeout s t = (Ret (w', s), t'))"
    using w by (auto simp: epoll_object_poll_def epoll_poll_event_def call_callback_def CHECK_PERROR_def io_simps Let_def)
  show "fst (epoll_object_poll os (epoll_set_callback (Some f) v) timeout s t) =
      (case fst (epoll_poll_event os f (epoll_wrapper.truncate v) timeout s t) of
         Ret (x, s') \<Rightarrow> Ret (epoll_wrapper.extend x \<lparr>ep_callback = Some f\<rparr>, s') | Stop e \<Rightarrow> Stop e)"
  proof -
    have "call_callback (Some f) = f" by (intro ext) (simp add: call_callback_def)
    moreover have "epoll_wrapper.truncate (epoll_set_callback (Some f) v) = epoll_wrapper.truncate v"
      by (simp add: epoll_set_callback_def epoll_wrapper.defs)
    ultimately show ?thesis
      by (auto simp: epoll_object_poll_def epoll_set_callback_def bind_io_def ret_def split: outcome.splits prod.splits)
  qed
qed

theorem empty_callback_throws_witness:
  "\<exists>t'. epoll_object_poll (epoll_kernel []) \<lparr>ep_fd = 0, ep_evary = replicate MAX_EVENTS no_event, ep_callback = None\<rparr> 0 (0::int) []
     = (Stop Bad_Function_Call, t')"
proof -
  let ?w = "\<lparr>ep_fd = 0, ep_evary = replicate MAX_EVENTS no_event, ep_callback = None\<rparr> :: int epoll_object"
  obtain t1 where "epoll_object_ctor (epoll_kernel []) [] = (Ret ?w, t1)"
    by (simp add: epoll_object_ctor_def epoll_ctor_result bind_io_def ret_def epoll_kernel_def epoll_wrapper.defs Let_def)
  from empty_callback_throws(1) [OF this, of "[]" 0 0] show ?thesis by (simp add: epoll_kernel_def)
qed

text \<open>
  \<open>poll_event\<close> hands every event that \<open>epoll_wait\<close> delivered to the callback's loop exactly once and in
  order, and no stale event of an earlier call: the loop over the array is the iteration over the delivered list.
\<close>

theorem poll_event_delivers:
  assumes "wait_documented os" "length (ep_evary w) = MAX_EVENTS"
    and "os t (Sys_epoll_wait (ep_fd w) MAX_EVENTS timeout) = (r, Out_Events evs)" "r \<noteq> -1"
  shows "epoll_poll_event os (for_events f) w timeout s t =
     bind_io (each_event f evs s) (\<lambda>s'. ret (w\<lparr>ep_evary := put_events (Out_Events evs) (ep_evary w)\<rparr>, s'))
       (t @ [(Sys_epoll_wait (ep_fd w) MAX_EVENTS timeout, r)])"
  using assms by (rule poll_event_each)

theorem poll_event_delivers_witness:
  "fst (epoll_poll_event (epoll_kernel [\<lparr>ev_events = EPOLLIN, ev_fd = 7\<rparr>, \<lparr>ev_events = EPOLLHUP, ev_fd = 9\<rparr>])
          (for_events (\<lambda>ev s. ret (s @ [ev_fd ev]))) \<lparr>ep_fd = 3, ep_evary = replicate MAX_EVENTS no_event\<rparr> 5 [] [])
   = Ret (\<lparr>ep_fd = 3, ep_evary = put_events (Out_Events [\<lparr>ev_events = EPOLLIN, ev_fd = 7\<rparr>, \<lparr>ev_events = EPOLLHUP, ev_fd = 9\<rparr>])
           (replicate MAX_EVENTS no_event)\<rparr>, [7, 9])"
  using poll_event_delivers
    [of "epoll_kernel [\<lparr>ev_events = EPOLLIN, ev_fd = 7\<rparr>, \<lparr>ev_events = EPOLLHUP, ev_fd = 9\<rparr>]"
        "\<lparr>ep_fd = 3, ep_evary = replicate MAX_EVENTS no_event\<rparr>" "[]" 5 2
        "[\<lparr>ev_events = EPOLLIN, ev_fd = 7\<rparr>, \<lparr>ev_events = EPOLLHUP, ev_fd = 9\<rparr>]"
        "\<lambda>ev s. ret (s @ [ev_fd ev])" "[]"]
  by (simp add: epoll_kernel_documented epoll_kernel_def MAX_EVENTS_def bind_io_def ret_def)

end
