(* ===== verification/Utils.thy ===== *)
theory Utils
  imports Code_Maps Epoll_Wrapper
begin

text \<open>
  \<open>utils.cpp\<close>: \<open>check_print\<close> and \<open>check_print_abt\<close> in their two forms, and \<open>set_fd_non_block\<close>. The value of
  \<open>errno\<close> when the check is made is the argument \<open>err\<close>: it is set by the call that is being checked.
\<close>

text \<open>The lines 25 to 27 and 52 to 54: the message of the error table, when it has one.\<close>

definition print_errmap :: "os \<Rightarrow> int \<Rightarrow> 'a io \<Rightarrow> 'a io" where
  "print_errmap os err k =
     (if error_map_ctor err \<noteq> None
      then call_void os (Sys_stderr (fst (std_subscript error_map_ctor err) @ newline)) k else k)"

definition check_print :: "os \<Rightarrow> int \<Rightarrow> int \<Rightarrow> string \<Rightarrow> bool \<Rightarrow> unit io" where
  "check_print os err res msg cr =
     (if res = -1 then
        call_void os (Sys_stderr (if cr then msg @ newline else msg)) (print_errmap os err (ret ()))
      else ret ())"

definition check_print_abt :: "os \<Rightarrow> int \<Rightarrow> int \<Rightarrow> string \<Rightarrow> bool \<Rightarrow> unit io" where
  "check_print_abt os err res msg cr =
     bind_io (check_print os err res msg cr) (\<lambda>u. if res = -1 then stop Abort_Called else ret ())"

definition check_print_at :: "os \<Rightarrow> int \<Rightarrow> int \<Rightarrow> string \<Rightarrow> string \<Rightarrow> int \<Rightarrow> bool \<Rightarrow> unit io" where
  "check_print_at os err res msg func line cr =
     (if res = -1 then
        call_void os (Sys_stderr (if cr then msg @ '' '' @ func @ ''.'' @ dec_int line @ newline
                                  else msg @ '' '' @ func @ ''.'' @ dec_int line)) (print_errmap os err (ret ()))
      else ret ())"

definition check_print_abt_at :: "os \<Rightarrow> int \<Rightarrow> int \<Rightarrow> string \<Rightarrow> string \<Rightarrow> int \<Rightarrow> bool \<Rightarrow> unit io" where
  "check_print_abt_at os err res msg func line cr =
     bind_io (check_print_at os err res msg func line cr) (\<lambda>u. if res = -1 then stop Abort_Called else ret ())"

definition set_fd_non_block :: "os \<Rightarrow> int \<Rightarrow> int io" where
  "set_fd_non_block os fd =
     call os (Sys_fcntl_getfl fd) (\<lambda>flag.
     if flag = -1 then ret (-1)
     else call os (Sys_fcntl_setfl fd (or flag O_NONBLOCK)) ret)"

section \<open>Lemmas\<close>

lemma O_NONBLOCK_bit: "bit O_NONBLOCK n \<longleftrightarrow> n = 11"
proof -
  have "O_NONBLOCK = 2 ^ 11" by (simp add: O_NONBLOCK_def)
  moreover have "bit (2 ^ 11 :: int) n \<longleftrightarrow> n = 11" unfolding bit_exp_iff by auto
  ultimately show ?thesis by (simp only:)
qed

lemma set_fd_non_block_result:
  "set_fd_non_block os fd t =
    (let flag = fst (os t (Sys_fcntl_getfl fd)); t1 = t @ [(Sys_fcntl_getfl fd, flag)];
         c = Sys_fcntl_setfl fd (or flag O_NONBLOCK); r = fst (os t1 c)
     in if flag = -1 then (Ret (-1), t1) else (Ret r, t1 @ [(c, r)]))"
  by (simp add: set_fd_non_block_def io_simps Let_def)

section \<open>Properties\<close>

text \<open>
  \<open>check_print_abt\<close> never returns from a failure and never stops a success: for -1 it prints the message,
  then the text of \<open>errno\<close> exactly when it is one of the 34 known values, and aborts; for any other result it
  makes no call and returns.
\<close>

theorem check_print_abt_behaviour:
  "check_print_abt os err res msg cr t =
     (if res \<noteq> -1 then (Ret (), t)
      else let c1 = Sys_stderr (msg @ (if cr then newline else [])); t1 = t @ [(c1, fst (os t c1))];
               c2 = Sys_stderr (the (error_map_ctor err) @ newline)
           in (Stop Abort_Called, if err \<in> error_codes then t1 @ [(c2, fst (os t1 c2))] else t1))"
  using errmap.known_iff [of err] errmap.find_then_subscript [of err]
  by (auto simp: check_print_abt_def check_print_def print_errmap_def io_simps Let_def)

text \<open>
  \<open>set_fd_non_block\<close> adds \<open>O_NONBLOCK\<close> and touches no other status flag: when reading the flags succeeds,
  it makes one \<open>F_SETFL\<close> call whose argument has every bit of the old flags and bit 11, and returns that call's
  result; when reading fails it returns -1 and sets nothing.
\<close>

theorem set_fd_non_block_keeps_flags:
  "\<exists>flag. flag = fst (os t (Sys_fcntl_getfl fd)) \<and>
    (if flag = -1 then set_fd_non_block os fd t = (Ret (-1), t @ [(Sys_fcntl_getfl fd, -1)])
     else \<exists>new r. set_fd_non_block os fd t = (Ret r, t @ [(Sys_fcntl_getfl fd, flag), (Sys_fcntl_setfl fd new, r)]) \<and>
       (\<forall>n. bit new n = (bit flag n \<or> n = 11)))"
  by (auto simp: set_fd_non_block_result Let_def bit_or_iff O_NONBLOCK_bit)

end
