(* ===== verification/Page_Body.thy ===== *)
theory Page_Body
  imports C_Strings
begin

text \<open>
  The page that \<open>tcp_worker_pool::submit\<close> sends to a new client (\<open>tcp_worker_pool.cpp\<close>, lines 225 to 325), one
  entry per literal of the concatenation. Bytes outside ASCII, quotes and line ends are given by their codes; a
  \<open>uXXXX\<close> escape of the source stands for the UTF-8 bytes of its character.
\<close>

definition page_lines :: "string list" where
  "page_lines =
     [
      ''<!DOCTYPE html>'' @ [CHR 0x0A],
      ''<!--STATUS OK-->'' @ [CHR 0x0A],
      ''<html>'' @ [CHR 0x0A],
      ''<head>'' @ [CHR 0x0A],
      ''    <meta http-equiv=content-type content=text/html;charset=utf-8>'' @ [CHR 0x0A],
      ''    <meta http-equiv=X-UA-Compatible content=IE=Edge>'' @ [CHR 0x0A],
      ''    <meta content=always name=referrer>'' @ [CHR 0x0A],
      ''    <link rel=stylesheet type=text/css href=http://s1.bdstatic.com/r/www/cache/bdorz/baidu.min.css>'' @ [CHR 0x0A],
      ''    <title>'' @ [CHR 0xC3, CHR 0xA7, CHR 0xC2, CHR 0x99, CHR 0xC2, CHR 0xBE, CHR 0xC3, CHR 0xA5, CHR 0xC2,
         CHR 0xBA, CHR 0xC2, CHR 0xA6, CHR 0xC3, CHR 0xA4, CHR 0xC2, CHR 0xB8, CHR 0xC2, CHR 0x80,
         CHR 0xC3, CHR 0xA4, CHR 0xC2, CHR 0xB8, CHR 0xC2, CHR 0x8B, CHR 0xC3, CHR 0xAF, CHR 0xC2,
         CHR 0xBC, CHR 0xC2, CHR 0x8C, CHR 0xC3, CHR 0xA4, CHR 0xC2, CHR 0xBD, CHR 0xC2, CHR 0xA0,
         CHR 0xC3, CHR 0xA5, CHR 0xC2, CHR 0xB0, CHR 0xC2, CHR 0xB1, CHR 0xC3, CHR 0xA7, CHR 0xC2,
         CHR 0x9F, CHR 0xC2, CHR 0xA5, CHR 0xC3, CHR 0xA9, CHR 0xC2, CHR 0x81, CHR 0xC2, CHR 0x93] @ ''</title></head>'' @ [CHR 0x0A],
      ''<body link=#0000cc>'' @ [CHR 0x0A],
      ''<div id=wrapper>'' @ [CHR 0x0A],
      ''    <div id=head>'' @ [CHR 0x0A],
      ''        <div class=head_wrapper>'' @ [CHR 0x0A],
      ''            <div class=s_form>'' @ [CHR 0x0A],
      ''                <div class=s_form_wrapper>'' @ [CHR 0x0A],
      ''                    <div id=lg><img hidefocus=true src=//www.baidu.com/img/bd_logo1.png width=270 height=129></div>'' @ [CHR 0x0A],
      ''                    <form id=form name=f action=//www.baidu.com/s class=fm><input type=hidden name=bdorz_come value=1>'' @ [CHR 0x0A],
      ''                        <input type=hidden name=ie value=utf-8> <input type=hidden name=f value=8> <input type=hidden'' @ [CHR 0x0A],
      ''                                                                                                          name=rsv_bp'' @ [CHR 0x0A],
      ''                                                                                                          value=1>'' @ [CHR 0x0A],
      ''                        <input type=hidden name=rsv_idx value=1> <input type=hidden name=tn value=baidu><span'' @ [CHR 0x0A],
      ''                                class='' @ [CHR 0x22] @ ''bg s_ipt_wr'' @ [CHR 0x22] @ ''><input id=kw name=wd class=s_ipt value maxlength=255'' @ [CHR 0x0A],
      ''                                                           autocomplete=off autofocus></span><span'' @ [CHR 0x0A],
      ''                                class='' @ [CHR 0x22] @ ''bg s_btn_wr'' @ [CHR 0x22] @ ''><input type=submit id=su value='' @ [CHR 0xC3, CHR 0xA7, CHR 0xC2, CHR 0x99, CHR 0xC2, CHR 0xBE, CHR 0xC3, CHR 0xA5, CHR 0xC2,
         CHR 0xBA, CHR 0xC2, CHR 0xA6, CHR 0xC3, CHR 0xA4, CHR 0xC2, CHR 0xB8, CHR 0xC2, CHR 0x80,
         CHR 0xC3, CHR 0xA4, CHR 0xC2, CHR 0xB8, CHR 0xC2, CHR 0x8B] @ '' class='' @ [CHR 0x22] @ ''bg s_btn'' @ [CHR 0x22] @ ''></span>'' @ [CHR 0x0A],
      ''                    </form>'' @ [CHR 0x0A],
      ''                </div>'' @ [CHR 0x0A],
      ''            </div>'' @ [CHR 0x0A],
      ''            <div id=u1><a href=http://news.baidu.com name=tj_trnews class=mnav>'' @ [CHR 0xC3, CHR 0xA6, CHR 0xC2, CHR 0x96, CHR 0xC2, CHR 0xB0, CHR 0xC3, CHR 0xA9, CHR 0xC2,
         CHR 0x97, CHR 0xC2, CHR 0xBB] @ ''</a> <a href=http://www.hao123.com'' @ [CHR 0x0A],
      ''                                                                                             name=tj_trhao123'' @ [CHR 0x0A],
      ''                                                                                             class=mnav>hao123</a> <a'' @ [CHR 0x0A],
      ''                    href=http://map.baidu.com name=tj_trmap class=mnav>'' @ [CHR 0xC3, CHR 0xA5, CHR 0xC2, CHR 0x9C, CHR 0xC2, CHR 0xB0, CHR 0xC3, CHR 0xA5, CHR 0xC2,
         CHR 0x9B, CHR 0xC2, CHR 0xBE] @ ''</a> <a href=http://v.baidu.com'' @ [CHR 0x0A],
      ''                                                                                     name=tj_trvideo'' @ [CHR 0x0A],
      ''                                                                                     class=mnav>'' @ [CHR 0xC3, CHR 0xA8, CHR 0xC2, CHR 0xA7, CHR 0xC2, CHR 0x86, CHR 0xC3, CHR 0xA9, CHR 0xC2,
         CHR 0xA2, CHR 0xC2, CHR 0x91] @ ''</a> <a'' @ [CHR 0x0A],
      ''                    href=http://tieba.baidu.com name=tj_trtieba class=mnav>'' @ [CHR 0xC3, CHR 0xA8, CHR 0xC2, CHR 0xB4, CHR 0xC2, CHR 0xB4, CHR 0xC3, CHR 0xA5, CHR 0xC2,
         CHR 0x90, CHR 0xC2, CHR 0xA7] @ ''</a>'' @ [CHR 0x0A],
      ''                <noscript><a'' @ [CHR 0x0A],
      ''                        href=http://www.baidu.com/bdorz/login.gif?login&amp;tpl=mn&amp;u=http%3A%2F%2Fwww.baidu.com%2f%3fbdorz_come%3d1'' @ [CHR 0x0A],
      ''                        name=tj_login class=lb>'' @ [CHR 0xC3, CHR 0xA7, CHR 0xC2, CHR 0x99, CHR 0xC2, CHR 0xBB, CHR 0xC3, CHR 0xA5, CHR 0xC2,
         CHR 0xBD, CHR 0xC2, CHR 0x95] @ ''</a></noscript>'' @ [CHR 0x0A],
      ''                <script>document.write('' @ [CHR 0x27] @ ''<a href='' @ [CHR 0x22] @ ''http://www.baidu.com/bdorz/login.gif?login&tpl=mn&u='' @ [CHR 0x27] @ '' + encodeURIComponent(window.location.href + (window.location.search === '' @ [CHR 0x22, CHR 0x22] @ '' ? '' @ [CHR 0x22] @ ''?'' @ [CHR 0x22] @ '' : '' @ [CHR 0x22] @ ''&'' @ [CHR 0x22] @ '') + '' @ [CHR 0x22] @ ''bdorz_come=1'' @ [CHR 0x22] @ '') + '' @ [CHR 0x27, CHR 0x22] @ '' name='' @ [CHR 0x22] @ ''tj_login'' @ [CHR 0x22] @ '' class='' @ [CHR 0x22] @ ''lb'' @ [CHR 0x22] @ ''>'' @ [CHR 0xC3, CHR 0xA7, CHR 0xC2, CHR 0x99, CHR 0xC2, CHR 0xBB, CHR 0xC3, CHR 0xA5, CHR 0xC2,
         CHR 0xBD, CHR 0xC2, CHR 0x95] @ ''</a>'' @ [CHR 0x27] @ '');</script>'' @ [CHR 0x0A],
      ''                <a href=//www.baidu.com/more/ name=tj_briicon class=bri style='' @ [CHR 0x22] @ ''display: block;'' @ [CHR 0x22] @ ''>'' @ [CHR 0xC3, CHR 0xA6, CHR 0xC2, CHR 0x9B, CHR 0xC2, CHR 0xB4, CHR 0xC3, CHR 0xA5, CHR 0xC2,
         CHR 0xA4, CHR 0xC2, CHR 0x9A, CHR 0xC3, CHR 0xA4, CHR 0xC2, CHR 0xBA, CHR 0xC2, CHR 0xA7,
         CHR 0xC3, CHR 0xA5, CHR 0xC2, CHR 0x93, CHR 0xC2, CHR 0x81] @ ''</a></div>'' @ [CHR 0x0A],
      ''        </div>'' @ [CHR 0x0A],
      ''    </div>'' @ [CHR 0x0A],
      ''    <div id=ftCon>'' @ [CHR 0x0A],
      ''        <div id=ftConw><p id=lh><a href=http://home.baidu.com>'' @ [CHR 0xC3, CHR 0xA5, CHR 0xC2, CHR 0x85, CHR 0xC2, CHR 0xB3, CHR 0xC3, CHR 0xA4, CHR 0xC2,
         CHR 0xBA, CHR 0xC2, CHR 0x8E, CHR 0xC3, CHR 0xA7, CHR 0xC2, CHR 0x99, CHR 0xC2, CHR 0xBE,
         CHR 0xC3, CHR 0xA5, CHR 0xC2, CHR 0xBA, CHR 0xC2, CHR 0xA6] @ ''</a> <a href=http://ir.baidu.com>About'' @ [CHR 0x0A],
      ''            Baidu</a></p>'' @ [CHR 0x0A],
      ''            <p id=cp>&copy;2017&nbsp;Baidu&nbsp;<a href=http://www.baidu.com/duty/>'' @ [CHR 0xC3, CHR 0xA4, CHR 0xC2, CHR 0xBD, CHR 0xC2, CHR 0xBF, CHR 0xC3, CHR 0xA7, CHR 0xC2,
         CHR 0x94, CHR 0xC2, CHR 0xA8, CHR 0xC3, CHR 0xA7, CHR 0xC2, CHR 0x99, CHR 0xC2, CHR 0xBE,
         CHR 0xC3, CHR 0xA5, CHR 0xC2, CHR 0xBA, CHR 0xC2, CHR 0xA6, CHR 0xC3, CHR 0xA5, CHR 0xC2,
         CHR 0x89, CHR 0xC2, CHR 0x8D, CHR 0xC3, CHR 0xA5, CHR 0xC2, CHR 0xBF, CHR 0xC2, CHR 0x85,
         CHR 0xC3, CHR 0xA8, CHR 0xC2, CHR 0xAF, CHR 0xC2, CHR 0xBB] @ ''</a>&nbsp; <a'' @ [CHR 0x0A],
      ''                    href=http://jianyi.baidu.com/ class=cp-feedback>'' @ [CHR 0xC3, CHR 0xA6, CHR 0xC2, CHR 0x84, CHR 0xC2, CHR 0x8F, CHR 0xC3, CHR 0xA8, CHR 0xC2,
         CHR 0xA7, CHR 0xC2, CHR 0x81, CHR 0xC3, CHR 0xA5, CHR 0xC2, CHR 0x8F, CHR 0xC2, CHR 0x8D,
         CHR 0xC3, CHR 0xA9, CHR 0xC2, CHR 0xA6, CHR 0xC2, CHR 0x88] @ ''</a>&nbsp;'' @ [CHR 0xC3, CHR 0xA4, CHR 0xC2, CHR 0xBA, CHR 0xC2, CHR 0xAC] @ ''ICP'' @ [CHR 0xC3, CHR 0xA8, CHR 0xC2, CHR 0xAF, CHR 0xC2, CHR 0x81] @ ''030173'' @ [CHR 0xC3, CHR 0xA5, CHR 0xC2, CHR 0x8F, CHR 0xC2, CHR 0xB7] @ ''&nbsp; <img'' @ [CHR 0x0A],
      ''                    src=//www.baidu.com/img/gs.gif></p></div>'' @ [CHR 0x0A],
      ''    </div>'' @ [CHR 0x0A],
      ''</div>'' @ [CHR 0x0A],
      ''</body>'' @ [CHR 0x0A],
      ''</html>'']"

definition page_body :: string where
  "page_body = concat page_lines"

lemma page_lines_lengths: "map length page_lines =
   [16, 17, 7, 7, 67, 54, 40, 100, 81, 20, 17, 18, 33, 31, 43, 116, 119, 118, 118, 115, 110, 105, 99, 133, 28, 23, 19, 126, 110, 118, 115, 101, 116, 92, 29, 136, 75, 270, 131, 15, 11, 19, 125, 26, 139, 141, 62, 11, 7, 8, 7]"
  by (simp add: page_lines_def)

lemma page_body_length: "length page_body = 3644"
  by (simp add: page_body_def length_concat page_lines_lengths)

lemma page_lines_no_nul: "list_all no_nul page_lines"
  by (simp add: page_lines_def)

lemma page_body_no_nul: "no_nul page_body"
  using page_lines_no_nul by (auto simp: page_body_def no_nul_def list_all_iff)

end
