(* ===== verification/Tcp_Worker.thy ===== *)
theory Tcp_Worker
  imports Utils Page_Body Worker_Sync
begin

text \<open>
  \<open>tcp_worker\<close> (\<open>tcp_worker_pool.h\<close>, \<open>tcp_worker_pool.cpp\<close> lines 16 to 179) with the constants and message
  structures of \<open>http_parser.h\<close>: the printing of an event mask, the callback of a worker's poller, the three
  handlers, the adoption of a client from the pool's queue, and the waiting time of a poll.

  \<open>TRD_SEND_BUF\<close> and \<open>TRD_RECV_BUF\<close> are thread-local arrays of \<open>BUFSIZ\<close> bytes: the record \<open>thread_bufs\<close> of the thread that
  runs the code. The optional debug output (\<open>__DEBUG__\<close>) is left out, except for \<open>event_str\<close> itself.
\<close>

section \<open>http\_parser.h\<close>

definition HTTP_VERSION :: string where "HTTP_VERSION = ''HTTP/1.1''"
definition CR :: char where "CR = CHR 0x0D"
definition LF :: char where "LF = CHR 0x0A"
definition CRLF :: string where "CRLF = [CHR 0x0D, CHR 0x0A]"
definition SPACE :: char where "SPACE = CHR '' ''"
definition COLON :: char where "COLON = CHR '':''"

record request_line =
  rq_method :: string
  rq_url :: string
  rq_version :: string

record response_line =
  rs_version :: string
  rs_status_code :: int
  rs_short_msg :: string

text \<open>How a response line is laid out (the diagram at lines 45 to 47).\<close>

definition print_response_line :: "response_line \<Rightarrow> string" where
  "print_response_line r = rs_version r @ [SPACE] @ dec_int (rs_status_code r) @ [SPACE] @ rs_short_msg r @ CRLF"

section \<open>event\_str\<close>

text \<open>
  \<open>new char[128]\<close> is uninitialised memory: the argument \<open>fresh\<close>.
\<close>

definition event_str :: "char list \<Rightarrow> u32 \<Rightarrow> char list outcome" where
  "event_str fresh events =
     (let p0 = 0; p1 = p0 + length ''epoll in ''; p2 = p1 + length ''epoll hup ''; p3 = p2 + length ''epoll err'' in
      bind_outcome (if has_event events EPOLLIN then put_cstr fresh p0 ''epoll in '' else Ret fresh) (\<lambda>b1.
      bind_outcome (if has_event events EPOLLHUP then put_cstr b1 p1 ''epoll hup '' else Ret b1) (\<lambda>b2.
      bind_outcome (if has_event events EPOLLERR then put_cstr b2 p2 ''epoll err '' else Ret b2) (\<lambda>b3.
      if has_event events EPOLLRDHUP then put_cstr b3 p3 ''epoll hup'' else Ret b3))))"

section \<open>The handlers\<close>

definition BUFSIZ :: nat where "BUFSIZ = 8192"
definition MSG_NOSIGNAL :: int where "MSG_NOSIGNAL = 0x4000"

record thread_bufs =
  trd_send :: "char list"
  trd_recv :: "char list"

definition fresh_bufs :: thread_bufs where
  "fresh_bufs = \<lparr>trd_send = replicate BUFSIZ NUL, trd_recv = replicate BUFSIZ NUL\<rparr>"

definition bufs_ok :: "thread_bufs \<Rightarrow> bool" where
  "bufs_ok b \<longleftrightarrow> length (trd_send b) = BUFSIZ \<and> length (trd_recv b) = BUFSIZ"

fun out_bytes :: "sysout \<Rightarrow> string" where
  "out_bytes (Out_Bytes bs) = bs"
| "out_bytes out = []"

text \<open>\<open>read(fd, TRD_RECV_BUF, BUFSIZ)\<close>\<close>

definition recv_into :: "os \<Rightarrow> int \<Rightarrow> thread_bufs \<Rightarrow> (int \<Rightarrow> thread_bufs \<Rightarrow> 'a io) \<Rightarrow> 'a io" where
  "recv_into os fd b k =
     call_out os (Sys_read fd BUFSIZ) (\<lambda>n out. k n (b\<lparr>trd_recv := put_bytes (trd_recv b) (out_bytes out)\<rparr>))"

text \<open>\<open>send(fd, TRD_SEND_BUF, BUFSIZ, MSG_NOSIGNAL)\<close>\<close>

definition send_buf :: "os \<Rightarrow> int \<Rightarrow> thread_bufs \<Rightarrow> 'a io \<Rightarrow> 'a io" where
  "send_buf os fd b k = call_void os (Sys_send fd (take BUFSIZ (trd_send b)) MSG_NOSIGNAL) k"

definition handle_error :: "os \<Rightarrow> int \<Rightarrow> int \<Rightarrow> thread_bufs \<Rightarrow> thread_bufs io" where
  "handle_error os errcode fd b =
     bind_io (lift (std_at httpcode_map_ctor errcode)) (\<lambda>msg.
     bind_io (lift (put_cstr (trd_send b) 0 (''HTTP/1.1 '' @ dec_int errcode @ '' '' @ msg @ CRLF))) (\<lambda>buf.
     let b' = b\<lparr>trd_send := buf\<rparr> in send_buf os fd b' (ret b')))"

text \<open>The whole body of \<open>handle_disconnect\<close> is commented out.\<close>

definition handle_disconnect :: "int \<Rightarrow> thread_bufs \<Rightarrow> thread_bufs io" where
  "handle_disconnect fd b = ret b"

definition handle_epollin :: "os \<Rightarrow> int \<Rightarrow> thread_bufs \<Rightarrow> thread_bufs io" where
  "handle_epollin os fd b =
     recv_into os fd b (\<lambda>n b1.
     if n = 0 then handle_disconnect fd b1
     else if n < 0 then handle_error os 400 fd b1
     else
       bind_io (lift (std_at httpcode_map_ctor 200)) (\<lambda>msg.
       bind_io (lift (put_cstr (trd_send b1) 0 (HTTP_VERSION @ '' '' @ dec_int 200 @ '' '' @ msg @ CRLF))) (\<lambda>buf1.
       bind_io (lift (c_strlen buf1)) (\<lambda>off.
       bind_io (lift (put_cstr buf1 off (''Content-length: '' @ dec_int 0 @ CRLF @ CRLF))) (\<lambda>buf2.
       let b2 = b1\<lparr>trd_send := buf2\<rparr> in send_buf os fd b2 (ret b2))))))"

section \<open>The callback and one turn of the worker\<close>

definition worker_on_event :: "os \<Rightarrow> epoll_event \<Rightarrow> thread_bufs \<Rightarrow> thread_bufs io" where
  "worker_on_event os ev b =
     bind_io (if has_event (ev_events ev) EPOLLIN then handle_epollin os (ev_fd ev) b else ret b) (\<lambda>b'.
     if has_event (ev_events ev) (or EPOLLHUP EPOLLERR) then handle_disconnect (ev_fd ev) b' else ret b')"

definition worker_callback :: "os \<Rightarrow> epoll_event list \<Rightarrow> int \<Rightarrow> thread_bufs \<Rightarrow> thread_bufs io" where
  "worker_callback os = for_events (worker_on_event os)"

record client_info =
  ci_host :: string
  ci_port :: int
  ci_eplev :: epoll_event

record tcp_worker =
  tw_poller :: epoll_wrapper
  tw_name :: string
  tw_cpu_affinity_id :: u32
  tw_started :: bool
  tw_poll_timeout :: int
  tw_clients :: "int \<rightharpoonup> client_info"

definition tcp_worker_ctor :: "os \<Rightarrow> tcp_worker io" where
  "tcp_worker_ctor os =
     bind_io (epoll_wrapper_ctor os) (\<lambda>w.
     ret \<lparr>tw_poller = w, tw_name = [], tw_cpu_affinity_id = 0, tw_started = False,
          tw_poll_timeout = MIN_EPOLL_WAIT_TIME, tw_clients = Map.empty\<rparr>)"

definition tcp_worker_set_timeout :: "int \<Rightarrow> tcp_worker \<Rightarrow> tcp_worker" where
  "tcp_worker_set_timeout timeout w = w\<lparr>tw_poll_timeout := timeout\<rparr>"

definition tcp_worker_setname :: "string \<Rightarrow> tcp_worker \<Rightarrow> tcp_worker" where
  "tcp_worker_setname nm w = w\<lparr>tw_name := nm\<rparr>"

definition tcp_worker_print_info :: "os \<Rightarrow> tcp_worker \<Rightarrow> string \<Rightarrow> unit io" where
  "tcp_worker_print_info os w msg = call_void os (Sys_stdout (tw_name w @ '': '' @ msg)) (ret ())"

text \<open>\<open>join\<close> and \<open>stop\<close> have empty bodies. The destructor destroys the poller.\<close>

definition tcp_worker_join :: "tcp_worker \<Rightarrow> tcp_worker" where
  "tcp_worker_join w = w"

definition tcp_worker_stop :: "tcp_worker \<Rightarrow> tcp_worker" where
  "tcp_worker_stop w = w"

definition tcp_worker_dtor :: "os \<Rightarrow> tcp_worker \<Rightarrow> unit io" where
  "tcp_worker_dtor os w = epoll_wrapper_dtor os (tw_poller w)"

text \<open>The flag that \<open>start\<close> returns says whether a thread is created.\<close>

definition tcp_worker_start :: "tcp_worker \<Rightarrow> bool \<times> tcp_worker" where
  "tcp_worker_start w = (if \<not> tw_started w then (True, w\<lparr>tw_started := True\<rparr>) else (False, w))"

text \<open>
  The block under the lock, lines 133 to 145: \<open>insert\<close> keeps an older entry of the same descriptor.
\<close>

definition tcp_worker_adopt :: "os \<Rightarrow> client_info list \<Rightarrow> tcp_worker \<Rightarrow> (client_info list \<times> tcp_worker) io" where
  "tcp_worker_adopt os storage w =
     (case storage of
        [] \<Rightarrow> ret ([], w)
      | info # rest \<Rightarrow>
          let fd = ev_fd (ci_eplev info);
              w' = w\<lparr>tw_clients := (if tw_clients w fd = None then (tw_clients w)(fd \<mapsto> info) else tw_clients w)\<rparr>
          in bind_io (epoll_add_event os (tw_poller w) fd (ev_events (ci_eplev info)) False) (\<lambda>res. ret (rest, w')))"

text \<open>
  The waiting time (lines 159 to 165). \<open>avail1\<close> is the value of the atomic counter in the comparison, \<open>avail2\<close> the one
  of the second access: other threads may change it in between.
\<close>

definition worker_wait_time :: "int \<Rightarrow> int \<Rightarrow> int \<Rightarrow> int outcome" where
  "worker_wait_time worker_num avail1 avail2 =
     bind_outcome (if avail1 > worker_num sdiv 2 then Ret avail2 else c_rem worker_num avail2) (\<lambda>wttme.
     Ret (if wttme = 0 then 1 else wttme))"

text \<open>One poll of the worker, with the waiting time it computed.\<close>

definition tcp_worker_poll :: "os \<Rightarrow> int \<Rightarrow> tcp_worker \<Rightarrow> thread_bufs \<Rightarrow> (tcp_worker \<times> thread_bufs) io" where
  "tcp_worker_poll os wttme w b =
     bind_io (epoll_poll_event os (worker_callback os) (tw_poller w) wttme b) (\<lambda>(p, b').
     ret (w\<lparr>tw_poller := p\<rparr>, b'))"

section \<open>Lemmas\<close>

lemma SPACE_char [simp]: "SPACE = CHR '' ''" by (simp add: SPACE_def)
lemma CRLF_length [simp]: "length CRLF = 2" by (simp add: CRLF_def)
lemma CRLF_no_nul [simp]: "no_nul CRLF" by (simp add: CRLF_def)

definition ok_response :: string where
  "ok_response = print_response_line \<lparr>rs_version = HTTP_VERSION, rs_status_code = 200, rs_short_msg = ''OK''\<rparr>
     @ ''Content-length: 0'' @ CRLF @ CRLF"

definition bad_request_response :: string where
  "bad_request_response = print_response_line \<lparr>rs_version = HTTP_VERSION, rs_status_code = 400, rs_short_msg = ''Bad Request''\<rparr>"

lemma dec_codes: "dec_int 0 = ''0''" "dec_int 200 = ''200''" "dec_int 400 = ''400''"
  by (simp_all add: dec_int_def dec_nat.simps digit_char_def char_of_def bit_Suc_0_iff)

lemma response_lengths: "length ok_response = 38" "length bad_request_response = 26"
  by (simp_all add: ok_response_def bad_request_response_def print_response_line_def HTTP_VERSION_def dec_codes)

lemma bufs_ok_recv [simp]: "bufs_ok (b\<lparr>trd_recv := put_bytes (trd_recv b) bs\<rparr>) = bufs_ok b"
  by (simp add: bufs_ok_def)

text \<open>What is in the send buffer after a response has been printed into it.\<close>

definition printed :: "string \<Rightarrow> char list \<Rightarrow> char list" where
  "printed resp buf = resp @ NUL # drop (length resp + 1) buf"

lemma length_printed: "length resp + 1 \<le> length buf \<Longrightarrow> length (printed resp buf) = length buf"
  by (simp add: printed_def)

lemma put_printed: "length resp + 1 \<le> length buf \<Longrightarrow> put_cstr buf 0 resp = Ret (printed resp buf)"
  by (simp add: put_cstr_def printed_def)

lemma strlen_printed: "no_nul resp \<Longrightarrow> c_strlen (printed resp buf) = Ret (length resp)"
  by (simp add: c_strlen_def printed_def takeWhile_no_nul)

lemma put_behind_printed:
  "length s + length u + 1 \<le> length buf \<Longrightarrow> put_cstr (printed s buf) (length s) u = Ret (printed (s @ u) buf)"
  using put_cstr_twice [of s u buf] by (simp add: printed_def)

lemma handle_error_result:
  assumes "bufs_ok b"
  shows "handle_error os 400 fd b t =
    (let buf = printed bad_request_response (trd_send b); c = Sys_send fd buf MSG_NOSIGNAL
     in (Ret (b\<lparr>trd_send := buf\<rparr>), t @ [(c, fst (os t c))]))"
proof -
  have text_eq: "''HTTP/1.1 '' @ dec_int 400 @ '' '' @ ''Bad Request'' @ CRLF = bad_request_response"
    by (simp add: bad_request_response_def print_response_line_def HTTP_VERSION_def dec_codes)
  have len: "length bad_request_response + 1 \<le> length (trd_send b)"
    using assms by (simp add: bufs_ok_def BUFSIZ_def response_lengths)
  then have "take BUFSIZ (printed bad_request_response (trd_send b)) = printed bad_request_response (trd_send b)"
    using assms length_printed by (simp add: bufs_ok_def)
  then show ?thesis
    using put_printed [OF len] text_eq
    by (simp add: handle_error_def http_400 lift_def bind_io_def send_buf_def call_void_def call_out_def ret_def Let_def)
qed

lemma handle_epollin_result:
  assumes "bufs_ok b" "os t (Sys_read fd BUFSIZ) = (n, out)"
  shows "handle_epollin os fd b t =
    (let b1 = b\<lparr>trd_recv := put_bytes (trd_recv b) (out_bytes out)\<rparr>; t1 = t @ [(Sys_read fd BUFSIZ, n)];
         buf = printed (if n < 0 then bad_request_response else ok_response) (trd_send b); c = Sys_send fd buf MSG_NOSIGNAL
     in if n = 0 then (Ret b1, t1) else (Ret (b1\<lparr>trd_send := buf\<rparr>), t1 @ [(c, fst (os t1 c))]))"
proof -
  let ?b1 = "b\<lparr>trd_recv := put_bytes (trd_recv b) (out_bytes out)\<rparr>"
  let ?line = "HTTP_VERSION @ '' '' @ dec_int 200 @ '' '' @ ''OK'' @ CRLF"
  let ?rest = "''Content-length: '' @ dec_int 0 @ CRLF @ CRLF"
  have parts: "?line @ ?rest = ok_response" "no_nul ?line" "length ?line = 17" "length ?rest = 21"
    by (simp_all add: ok_response_def print_response_line_def dec_codes HTTP_VERSION_def)
  have len: "length (trd_send b) = 8192" using assms(1) by (simp add: bufs_ok_def BUFSIZ_def)
  have p: "put_cstr (trd_send b) 0 ?line = Ret (printed ?line (trd_send b))"
      "c_strlen (printed ?line (trd_send b)) = Ret (length ?line)"
      "put_cstr (printed ?line (trd_send b)) (length ?line) ?rest = Ret (printed ok_response (trd_send b))"
    using len parts(2-4) put_behind_printed [of ?line ?rest "trd_send b", unfolded parts(1)]
    by (simp_all only: put_printed strlen_printed)
  have tk: "take BUFSIZ (printed ok_response (trd_send b)) = printed ok_response (trd_send b)"
    using len length_printed [of ok_response "trd_send b"] by (simp add: response_lengths BUFSIZ_def)
  show ?thesis
  proof (cases "n \<le> 0")
    case True
    then show ?thesis
      using assms handle_error_result [of ?b1 os fd "t @ [(Sys_read fd BUFSIZ, n)]"]
      by (simp add: handle_epollin_def recv_into_def call_out_def handle_disconnect_def ret_def Let_def)
  next
    case False
    then show ?thesis
      using assms(2) p tk
      by (simp add: handle_epollin_def recv_into_def call_out_def http_200 lift_def bind_io_def send_buf_def
          call_void_def ret_def Let_def)
  qed
qed

text \<open>The calls the worker's callback can make: reading from a client and sending to it.\<close>

fun is_client_io :: "syscall \<Rightarrow> bool" where
  "is_client_io (Sys_read fd n) = True"
| "is_client_io (Sys_send fd bs flags) = True"
| "is_client_io c = False"

lemma handle_epollin_calls: "only_calls is_client_io (handle_epollin os fd b)"
  unfolding handle_epollin_def recv_into_def handle_disconnect_def handle_error_def send_buf_def Let_def
  by (intro only_calls_call_out) (auto intro!: only_calls_bind only_calls_call_void)

lemma worker_on_event_calls: "only_calls is_client_io (worker_on_event os ev b)"
  unfolding worker_on_event_def handle_disconnect_def
  by (auto intro!: only_calls_bind handle_epollin_calls)

lemma worker_events_calls: "only_calls is_client_io (each_event (worker_on_event os) evs b)"
  by (intro only_calls_each worker_on_event_calls)

lemma handle_epollin_total:
  assumes "bufs_ok b"
  shows "\<exists>b' t'. handle_epollin os fd b t = (Ret b', t') \<and> bufs_ok b'"
proof -
  obtain n out where r: "os t (Sys_read fd BUFSIZ) = (n, out)" by (cases "os t (Sys_read fd BUFSIZ)")
  have "length (printed resp (trd_send b)) = BUFSIZ" if "resp = bad_request_response \<or> resp = ok_response" for resp
    using that assms by (subst length_printed) (auto simp: bufs_ok_def BUFSIZ_def response_lengths)
  then show ?thesis
    using handle_epollin_result [of b os t fd n out, OF assms r] assms by (auto simp: Let_def bufs_ok_def)
qed

lemma worker_on_event_total:
  assumes "bufs_ok b"
  shows "\<exists>b' t'. worker_on_event os ev b t = (Ret b', t') \<and> bufs_ok b'"
proof -
  obtain b' t' where "handle_epollin os (ev_fd ev) b t = (Ret b', t')" "bufs_ok b'"
    using handle_epollin_total [OF assms] by blast
  then show ?thesis
    using assms by (auto simp: worker_on_event_def handle_disconnect_def bind_io_def ret_def)
qed

lemma worker_events_total:
  "bufs_ok b \<Longrightarrow> \<exists>b' t'. each_event (worker_on_event os) evs b t = (Ret b', t') \<and> bufs_ok b'"
proof (induction evs arbitrary: b t)
  case Nil
  then show ?case by (simp add: ret_def)
next
  case (Cons ev evs)
  obtain b1 t1 where "worker_on_event os ev b t = (Ret b1, t1)" "bufs_ok b1"
    using worker_on_event_total [OF Cons.prems] by blast
  then show ?case using Cons.IH [of b1 t1] by (simp add: bind_io_def)
qed

lemma poll_result:
  assumes "wait_documented os" "length (ep_evary (tw_poller w)) = MAX_EVENTS" "bufs_ok b"
  shows "\<exists>w' b' cs. tcp_worker_poll os wttme w b t = (Ret (w', b'), t @ cs) \<and> bufs_ok b' \<and>
     tw_clients w' = tw_clients w \<and> length (ep_evary (tw_poller w')) = MAX_EVENTS \<and>
     (\<forall>c \<in> set cs. is_client_io (fst c) \<or> fst c = Sys_epoll_wait (ep_fd (tw_poller w)) MAX_EVENTS wttme \<or>
        fst c = Sys_perror ''epoll_wait: error'')"
proof -
  let ?c = "Sys_epoll_wait (ep_fd (tw_poller w)) MAX_EVENTS wttme"
  obtain r out where r: "os t ?c = (r, out)" by (cases "os t ?c")
  show ?thesis
  proof (cases "r = -1")
    case True
    then show ?thesis using r assms(2,3)
      by (auto simp: tcp_worker_poll_def epoll_poll_event_def CHECK_PERROR_def io_simps Let_def)
  next
    case False
    then obtain evs where evs: "out = Out_Events evs"
      using assms(1) [unfolded wait_documented_def, rule_format, of t "ep_fd (tw_poller w)" MAX_EVENTS wttme] r by auto
    obtain b' t' where b': "each_event (worker_on_event os) evs b (t @ [(?c, r)]) = (Ret b', t')" "bufs_ok b'"
      using worker_events_total [OF assms(3)] by blast
    from only_callsD [OF worker_events_calls b'(1)]
    obtain cs where cs: "t' = (t @ [(?c, r)]) @ cs" "\<forall>c \<in> set cs. is_client_io (fst c)" by blast
    have "tcp_worker_poll os wttme w b t =
        (Ret (w\<lparr>tw_poller := (tw_poller w)\<lparr>ep_evary := put_events (Out_Events evs) (ep_evary (tw_poller w))\<rparr>\<rparr>, b'), t')"
      using poll_event_each [OF assms(1,2) r [unfolded evs] False, of "worker_on_event os" b] b'(1)
      by (simp add: tcp_worker_poll_def worker_callback_def bind_io_def ret_def)
    then show ?thesis using b'(2) cs assms(2)
      by (intro exI [of _ "w\<lparr>tw_poller := (tw_poller w)\<lparr>ep_evary := put_events (Out_Events evs) (ep_evary (tw_poller w))\<rparr>\<rparr>"]
            exI [of _ b'] exI [of _ "(?c, r) # cs"]) auto
  qed
qed

lemma event_str_in:
  assumes "length fresh = 128" "has_event events EPOLLIN"
  shows "\<exists>buf. event_str fresh events = Ret buf \<and> c_str buf 0 =
     ''epoll in '' @ (if has_event events EPOLLHUP
        then ''epoll hup '' @ (if has_event events EPOLLERR
               then ''epoll err'' @ (if has_event events EPOLLRDHUP then ''epoll hup'' else '' '') else [])
        else [])"
  using assms
  by (cases "has_event events EPOLLHUP"; cases "has_event events EPOLLERR"; cases "has_event events EPOLLRDHUP")
     (simp_all add: event_str_def put_cstr_def c_str_def)

lemma event_str_not_in:
  assumes "length fresh = 128" "\<not> has_event events EPOLLIN"
  shows "\<exists>buf. event_str fresh events = Ret buf \<and> take 9 buf = take 9 fresh"
  using assms
  by (cases "has_event events EPOLLHUP"; cases "has_event events EPOLLERR"; cases "has_event events EPOLLRDHUP")
     (simp_all add: event_str_def put_cstr_def min_def)

lemma worker_wait_time_range:
  assumes "0 < n" "0 < a2"
  shows "\<exists>w. worker_wait_time n a1 a2 = Ret w \<and> 1 \<le> w \<and> w \<le> a2"
proof -
  have "0 \<le> n mod a2" "n mod a2 < a2" using assms by simp_all
  then have "n mod a2 \<noteq> 0 \<Longrightarrow> 1 \<le> n mod a2 \<and> n mod a2 \<le> a2" by linarith
  then show ?thesis using assms by (simp add: worker_wait_time_def c_rem_pos)
qed

section \<open>Properties\<close>

text \<open>A system that answers every read with the same bytes and every other call with 0.\<close>

definition echo_os :: "string \<Rightarrow> os" where
  "echo_os bs t c = (case c of Sys_read fd n \<Rightarrow> (int (length bs), Out_Bytes bs) | _ \<Rightarrow> epoll_kernel [] t c)"

lemma fresh_bufs_ok: "bufs_ok fresh_bufs"
  by (simp add: bufs_ok_def fresh_bufs_def)

text \<open>
  C28. The reply of a worker, on every branch of \<open>handle_epollin\<close>: a read of 0 bytes gets no reply at all, a failed
  read the 400 response, any other read the 200 response. A reply is one \<open>send\<close> of the whole 8192-byte
  buffer: the response text, its terminating NUL, and then whatever the thread's buffer held before behind them,
  so the bytes of earlier replies go out again to this client.
\<close>

theorem worker_reply:
  assumes "bufs_ok b" "os t (Sys_read fd BUFSIZ) = (n, out)"
  shows "\<exists>b' sent. handle_epollin os fd b t = (Ret b', t @ (Sys_read fd BUFSIZ, n) # sent) \<and> bufs_ok b' \<and>
    (if n = 0 then sent = [] \<and> trd_send b' = trd_send b
     else \<exists>data r. sent = [(Sys_send fd data MSG_NOSIGNAL, r)] \<and> trd_send b' = data \<and> length data = 8192 \<and>
       c_str data 0 = (if n < 0 then bad_request_response else ok_response) \<and>
       (let k = length (c_str data 0) + 1 in drop k data = drop k (trd_send b)))"
proof -
  let ?resp = "if n < 0 then bad_request_response else ok_response"
  let ?data = "printed ?resp (trd_send b)"
  have len: "length ?data = 8192" "length (trd_send b) = 8192"
    using assms(1) by (auto simp: length_printed bufs_ok_def BUFSIZ_def response_lengths)
  have nn: "no_nul ok_response" "no_nul bad_request_response"
    by (simp_all add: ok_response_def bad_request_response_def print_response_line_def HTTP_VERSION_def dec_codes)
  have cs: "c_str ?data 0 = ?resp" using nn by (simp add: printed_def c_str_def takeWhile_no_nul)
  have dr: "drop (length ?resp + 1) ?data = drop (length ?resp + 1) (trd_send b)" by (simp add: printed_def)
  show ?thesis
    using handle_epollin_result [of b os t fd n out, OF assms] assms(1) len cs dr
    by (simp add: Let_def bufs_ok_def BUFSIZ_def)
qed

theorem worker_reply_witness:
  "\<exists>b' sent data r. handle_epollin (echo_os ''hi'') 7 fresh_bufs [] = (Ret b', (Sys_read 7 BUFSIZ, 2) # sent) \<and>
     sent = [(Sys_send 7 data MSG_NOSIGNAL, r)] \<and> c_str data 0 = ok_response"
  using worker_reply [of fresh_bufs "echo_os ''hi''" "[]" 7 2 "Out_Bytes ''hi''"] fresh_bufs_ok
  by (auto simp: echo_os_def)

text \<open>
  C32. A poll of a worker never stops the program and never gives a client up: whatever events the kernel
  delivers, including hang-ups and errors, and whatever it answers, the poll returns with valid buffers and
  the same client table, and the only calls it makes besides its own \<open>epoll_wait\<close> are reads from clients and
  sends to them. No descriptor is closed and none is removed from the interest list.
\<close>

theorem worker_poll_keeps_clients:
  assumes "wait_documented os" "length (ep_evary (tw_poller w)) = MAX_EVENTS" "bufs_ok b"
  shows "\<exists>w' b' cs. tcp_worker_poll os wttme w b t = (Ret (w', b'), t @ cs) \<and> bufs_ok b' \<and>
    tw_clients w' = tw_clients w \<and>
    (\<forall>c \<in> set cs. is_client_io (fst c) \<or> fst c = Sys_epoll_wait (ep_fd (tw_poller w)) MAX_EVENTS wttme \<or>
       fst c = Sys_perror ''epoll_wait: error'')"
  using poll_result [OF assms] by blast

definition demo_worker :: tcp_worker where
  "demo_worker = \<lparr>tw_poller = \<lparr>ep_fd = 3, ep_evary = replicate MAX_EVENTS no_event\<rparr>, tw_name = ''worker-thread-0'',
     tw_cpu_affinity_id = 0, tw_started = True, tw_poll_timeout = MIN_EPOLL_WAIT_TIME, tw_clients = Map.empty\<rparr>"

theorem worker_poll_keeps_clients_witness:
  "\<exists>w' b' cs. tcp_worker_poll (epoll_kernel [\<lparr>ev_events = or EPOLLIN EPOLLHUP, ev_fd = 7\<rparr>]) 1 demo_worker fresh_bufs []
      = (Ret (w', b'), [] @ cs) \<and> tw_clients w' = Map.empty"
  using worker_poll_keeps_clients [of "epoll_kernel [\<lparr>ev_events = or EPOLLIN EPOLLHUP, ev_fd = 7\<rparr>]" demo_worker fresh_bufs 1 "[]"]
    fresh_bufs_ok epoll_kernel_documented
  by (auto simp: demo_worker_def)

text \<open>
  \<open>event_str\<close> never overflows its 128 bytes, but it places each name at a fixed offset, so the string it returns
  ends at the first event that is not set: an \<open>EPOLLERR\<close> without \<open>EPOLLHUP\<close> is never printed, the names of
  \<open>EPOLLERR\<close> and \<open>EPOLLRDHUP\<close> run together, and without \<open>EPOLLIN\<close> the string starts with uninitialised memory.
\<close>

theorem event_str_stops_at_gap:
  assumes "length fresh = 128"
  shows "\<exists>buf. event_str fresh events = Ret buf \<and>
    (if has_event events EPOLLIN
     then c_str buf 0 = ''epoll in '' @ (if has_event events EPOLLHUP
        then ''epoll hup '' @ (if has_event events EPOLLERR
               then ''epoll err'' @ (if has_event events EPOLLRDHUP then ''epoll hup'' else '' '') else [])
        else [])
     else take 9 buf = take 9 fresh)"
  using event_str_in [OF assms, of events] event_str_not_in [OF assms, of events]
  by (cases "has_event events EPOLLIN") auto

theorem event_str_stops_at_gap_witness:
  "\<exists>buf. event_str (replicate 128 CHR ''x'') (or EPOLLIN EPOLLERR) = Ret buf \<and> c_str buf 0 = ''epoll in ''"
  using event_str_stops_at_gap [of "replicate 128 CHR ''x''" "or EPOLLIN EPOLLERR"]
  by (simp add: has_event_def epoll_consts)

end
