(* ===== verification/Tcp_Worker_Pool.thy ===== *)
theory Tcp_Worker_Pool
  imports Tcp_Worker Thread_Pool
begin

text \<open>
  \<open>tcp_worker_pool\<close> (\<open>tcp_worker_pool.h\<close>, \<open>tcp_worker_pool.cpp\<close> lines 182 to 355): the constructor, \<open>startup\<close>, \<open>submit\<close>
  with the task it puts into the thread pool, and \<open>set_poll_timeout\<close>. The concurrent use of the counter of
  available workers is in \<open>Worker_Threads\<close>.

  A task's function is the lambda of \<open>submit\<close> for one client, so the thread pool here is of type
  \<open>(client_info, unit) thread_pool\<close>: the closure is given by the client it captured.
\<close>

section \<open>State\<close>

record tcp_worker_pool =
  wp_worker_num :: int
  wp_started :: bool
  wp_workers :: "tcp_worker list"
  wp_storage :: "client_info list"
  wp_locker :: worker_lock
  wp_avail :: int

type_synonym client_pool = "(client_info, unit) thread_pool"

section \<open>Constructor\<close>

fun tcp_worker_pool_ctor_loop :: "os \<Rightarrow> int \<Rightarrow> nat \<Rightarrow> nat \<Rightarrow> tcp_worker list io" where
  "tcp_worker_pool_ctor_loop os cores i 0 = ret []"
| "tcp_worker_pool_ctor_loop os cores i (Suc k) =
     bind_io (tcp_worker_ctor os) (\<lambda>w.
     bind_io (lift (c_rem (int i) cores)) (\<lambda>cpu.
     bind_io (tcp_worker_pool_ctor_loop os cores (Suc i) k) (\<lambda>ws.
     ret (w\<lparr>tw_name := ''worker-thread-'' @ dec_int (int i), tw_cpu_affinity_id := word_of_int cpu\<rparr> # ws))))"

definition tcp_worker_pool_ctor :: "os \<Rightarrow> int \<Rightarrow> u16 \<Rightarrow> tcp_worker_pool io" where
  "tcp_worker_pool_ctor os cores worker_num =
     (let n = coerce_in cores (uint worker_num) (cores * 12) in
      bind_io (tcp_worker_pool_ctor_loop os cores 0 (nat n)) (\<lambda>ws.
      ret \<lparr>wp_worker_num = n, wp_started = False, wp_workers = ws, wp_storage = [],
           wp_locker = worker_lock_ctor, wp_avail = 0\<rparr>))"

text \<open>
  The destructor: \<open>delete[]\<close> releases the workers from the last to the first, each owned by its entry of the array alone. The members are
  destroyed after that, among them \<open>locker_\<close>. \<open>t\<close> is the thread that runs it.
\<close>

fun each_dtor :: "os \<Rightarrow> tcp_worker list \<Rightarrow> unit io" where
  "each_dtor os [] = ret ()"
| "each_dtor os (w # ws) = bind_io (tcp_worker_dtor os w) (\<lambda>u. each_dtor os ws)"

definition tcp_worker_pool_dtor :: "os \<Rightarrow> tid \<Rightarrow> tcp_worker_pool \<Rightarrow> unit io" where
  "tcp_worker_pool_dtor os t wp =
     bind_io (each_dtor os (rev (wp_workers wp))) (\<lambda>u.
     bind_io (lift (worker_lock_dtor t (wp_locker wp))) (\<lambda>l. ret ()))"

section \<open>startup and submit\<close>

definition tcp_worker_pool_startup ::
  "int \<Rightarrow> (nat \<Rightarrow> int \<times> nat) \<Rightarrow> tcp_worker_pool \<Rightarrow> client_pool \<Rightarrow> (tcp_worker_pool \<times> client_pool) outcome"
where
  "tcp_worker_pool_startup cores spawn wp tp =
     (let wp1 = wp\<lparr>wp_workers := map (\<lambda>w. snd (tcp_worker_start w)) (wp_workers wp), wp_avail := wp_worker_num wp\<rparr> in
      bind_outcome (thread_pool_create cores spawn cores (2 ^ 11) tp) (\<lambda>(rc, tp').
      Ret (wp1\<lparr>wp_started := True\<rparr>, tp')))"

definition tcp_worker_pool_submit ::
  "int \<Rightarrow> (nat \<Rightarrow> int \<times> nat) \<Rightarrow> tid \<Rightarrow> int \<Rightarrow> int \<Rightarrow> int \<Rightarrow> client_info \<Rightarrow> tcp_worker_pool \<Rightarrow> client_pool
     \<Rightarrow> (tcp_worker_pool \<times> client_pool) outcome"
where
  "tcp_worker_pool_submit cores spawn t lock_rc signal_rc unlock_rc info wp tp =
     bind_outcome (if \<not> wp_started wp then tcp_worker_pool_startup cores spawn wp tp else Ret (wp, tp)) (\<lambda>(wp1, tp1).
     bind_outcome (thread_pool_submit t lock_rc signal_rc unlock_rc None (Some info) tp1) (\<lambda>(err, woken, tp2).
     Ret (wp1, tp2)))"

definition set_poll_timeout :: "int \<Rightarrow> tcp_worker_pool \<Rightarrow> tcp_worker_pool" where
  "set_poll_timeout timeout wp =
     (let to = if timeout < MIN_EPOLL_WAIT_TIME then MIN_EPOLL_WAIT_TIME else timeout
      in wp\<lparr>wp_workers := map (tcp_worker_set_timeout to) (wp_workers wp)\<rparr>)"

section \<open>The start of a worker's thread\<close>

text \<open>
  \<open>worker_routine\<close> before its loop: the thread binds itself to the worker's processor. A failure is reported with the
  contents of \<open>TRD_SEND_BUF\<close> as the message, and the loop starts all the same. The thread's name is set under \<open>__DEBUG__\<close> only.
\<close>

definition worker_routine_start :: "os \<Rightarrow> tcp_worker \<Rightarrow> thread_bufs \<Rightarrow> unit io" where
  "worker_routine_start os w b =
     call os Sys_gettid (\<lambda>tid.
     call os (Sys_sched_setaffinity tid (cpu_set_of (uint (tw_cpu_affinity_id w)))) (\<lambda>res.
     if res = -1
     then bind_io (lift (c_strlen (trd_send b))) (\<lambda>n. call_void os (Sys_perror (take n (trd_send b))) (ret ()))
     else ret ()))"

section \<open>One turn of a worker\<close>

text \<open>
  The body of the endless loop of \<open>worker_routine\<close>, run by thread \<open>t\<close> with no other thread in between: lines 130 to 152, then 156 to 167.
  \<open>event_storage_\<close>, the lock and the counter are those of the worker's pool.
\<close>

definition worker_take_client :: "os \<Rightarrow> tid \<Rightarrow> tcp_worker \<times> tcp_worker_pool \<Rightarrow> (tcp_worker \<times> tcp_worker_pool) io" where
  "worker_take_client os t st = (case st of (w, wp) \<Rightarrow>
     if wp_storage wp = [] then ret (w, wp)
     else bind_io (lift (worker_lockguard_ctor t (wp_locker wp))) (\<lambda>l.
          bind_io (tcp_worker_adopt os (wp_storage wp) w) (\<lambda>(q, w').
          bind_io (lift (worker_lockguard_dtor t l)) (\<lambda>l'. ret (w', wp\<lparr>wp_locker := l', wp_storage := q\<rparr>)))))"

definition worker_routine_turn ::
  "os \<Rightarrow> tid \<Rightarrow> tcp_worker \<Rightarrow> thread_bufs \<Rightarrow> tcp_worker_pool \<Rightarrow> (tcp_worker \<times> thread_bufs \<times> tcp_worker_pool) io"
where
  "worker_routine_turn os t w b wp =
     bind_io (worker_take_client os t (w, wp)) (\<lambda>(w1, wp1).
     let wp2 = wp1\<lparr>wp_avail := wp_avail wp1 - 1\<rparr> in
     bind_io (lift (worker_wait_time (wp_worker_num wp2) (wp_avail wp2) (wp_avail wp2))) (\<lambda>wttme.
     bind_io (tcp_worker_poll os wttme w1 b) (\<lambda>(w2, b').
     ret (w2, b', wp2\<lparr>wp_avail := wp_avail wp2 + 1\<rparr>))))"

section \<open>The task of a new client\<close>

definition page_header :: "nat \<Rightarrow> string" where
  "page_header n = ''HTTP/1.1 200 OK'' @ CRLF @ ''Content-length: '' @ dec_nat n @ CRLF @ CRLF"

definition keep_reply :: string where
  "keep_reply = ''i will keep you connected'' @ newline"

definition client_greet :: "os \<Rightarrow> client_info \<Rightarrow> thread_bufs \<Rightarrow> thread_bufs io" where
  "client_greet os info b =
     (let fd = ev_fd (ci_eplev info) in
      recv_into os fd b (\<lambda>readn b1.
      if readn \<ge> 0 then
        if readn > 0 then
          bind_io (lift (c_strlen (trd_recv b1))) (\<lambda>n.
          call_void os (Sys_stdout (''and http request is: '' @ take n (trd_recv b1) @ newline))
          (bind_io (lift (put_cstr (trd_send b1) 0 (page_header (length (c_str page_body 0))))) (\<lambda>buf1.
           bind_io (lift (c_strlen buf1)) (\<lambda>p.
           bind_io (lift (put_cstr buf1 p page_body)) (\<lambda>buf2.
           let b2 = b1\<lparr>trd_send := buf2\<rparr> in send_buf os fd b2 (ret b2))))))
        else
          bind_io (lift (put_cstr (trd_send b1) 0 keep_reply)) (\<lambda>buf.
          let b2 = b1\<lparr>trd_send := buf\<rparr> in send_buf os fd b2 (ret b2))
      else call_void os (Sys_perror ''accept read error occurred!'') (ret b1)))"

text \<open>The whole task: greet the client, then hand it over to the workers' queue under the lock.\<close>

definition client_task ::
  "os \<Rightarrow> tid \<Rightarrow> client_info \<Rightarrow> thread_bufs \<Rightarrow> worker_lock \<times> client_info list
     \<Rightarrow> (thread_bufs \<times> worker_lock \<times> client_info list) io"
where
  "client_task os t info b ls =
     bind_io (client_greet os info b) (\<lambda>b'.
     bind_io (lift (with_lockguard t (\<lambda>(l, q). Ret ((), l, q @ [info])) ls)) (\<lambda>(u, l, q).
     ret (b', l, q)))"

section \<open>event\_storage\_ is a queue\<close>

definition storage_push :: "client_info \<Rightarrow> client_info list \<Rightarrow> client_info list option" where
  "storage_push x q = Some (q @ [x])"

definition storage_pop :: "client_info list \<Rightarrow> (client_info \<times> client_info list) option" where
  "storage_pop q = (case q of [] \<Rightarrow> None | x # xs \<Rightarrow> Some (x, xs))"

interpretation event_storage: fifo "\<lambda>q. True" "\<lambda>q. q" storage_push storage_pop
  by unfold_locales (auto simp: storage_push_def storage_pop_def split: list.splits)

section \<open>Lemmas\<close>

lemma pool_worker_num: "0 \<le> cores \<Longrightarrow> coerce_in cores n (cores * 12) = max cores n"
  by (auto simp: coerce_in_def)

lemma ctor_loop_result:
  assumes "1 \<le> cores" "\<forall>t. fst (os t (Sys_epoll_create1 EPOLL_CLOEXEC)) \<noteq> -1"
  shows "\<exists>ws t'. tcp_worker_pool_ctor_loop os cores i k t = (Ret ws, t') \<and> length ws = k \<and>
    (\<forall>j < k. tw_name (ws ! j) = ''worker-thread-'' @ dec_nat (i + j) \<and>
       tw_cpu_affinity_id (ws ! j) = word_of_int (int (i + j) mod cores) \<and> \<not> tw_started (ws ! j) \<and>
       length (ep_evary (tw_poller (ws ! j))) = MAX_EVENTS)"
proof (induction k arbitrary: i t)
  case 0
  then show ?case by (simp add: ret_def)
next
  case (Suc k)
  obtain w t1 where w: "tcp_worker_ctor os t = (Ret w, t1)" "\<not> tw_started w" "length (ep_evary (tw_poller w)) = MAX_EVENTS"
    using assms(2) epoll_ctor_result [of os t] by (fastforce simp: tcp_worker_ctor_def bind_io_def ret_def Let_def)
  obtain ws t2 where ws: "tcp_worker_pool_ctor_loop os cores (Suc i) k t1 = (Ret ws, t2)" "length ws = k"
    "\<forall>j < k. tw_name (ws ! j) = ''worker-thread-'' @ dec_nat (Suc i + j) \<and>
       tw_cpu_affinity_id (ws ! j) = word_of_int (int (Suc i + j) mod cores) \<and> \<not> tw_started (ws ! j) \<and>
       length (ep_evary (tw_poller (ws ! j))) = MAX_EVENTS"
    using Suc.IH [of "Suc i" t1] by blast
  let ?w = "w\<lparr>tw_name := ''worker-thread-'' @ dec_int (int i), tw_cpu_affinity_id := word_of_int (int i mod cores)\<rparr>"
  have "tcp_worker_pool_ctor_loop os cores i (Suc k) t = (Ret (?w # ws), t2)"
    using w ws assms(1) by (simp add: bind_io_def lift_def ret_def c_rem_pos)
  moreover have "\<forall>j < Suc k. tw_name ((?w # ws) ! j) = ''worker-thread-'' @ dec_nat (i + j) \<and>
       tw_cpu_affinity_id ((?w # ws) ! j) = word_of_int (int (i + j) mod cores) \<and> \<not> tw_started ((?w # ws) ! j) \<and>
       length (ep_evary (tw_poller ((?w # ws) ! j))) = MAX_EVENTS"
    using w(2,3) ws(3) by (auto simp: less_Suc_eq_0_disj dec_int_def add.left_commute)
  ultimately show ?case using ws(2) by (intro exI [of _ "?w # ws"] exI [of _ t2]) simp
qed

lemma ctor_result:
  assumes "1 \<le> cores" "\<forall>t. fst (os t (Sys_epoll_create1 EPOLL_CLOEXEC)) \<noteq> -1"
  shows "\<exists>wp t'. tcp_worker_pool_ctor os cores n t = (Ret wp, t') \<and> wp_worker_num wp = max cores (uint n) \<and>
    int (length (wp_workers wp)) = wp_worker_num wp \<and> \<not> wp_started wp \<and> wp_storage wp = [] \<and>
    wl_mutex (wp_locker wp) = Mutex_Free \<and>
    (\<forall>j < length (wp_workers wp). tw_name (wp_workers wp ! j) = ''worker-thread-'' @ dec_nat j \<and>
       tw_cpu_affinity_id (wp_workers wp ! j) = word_of_int (int j mod cores) \<and> \<not> tw_started (wp_workers wp ! j) \<and>
       length (ep_evary (tw_poller (wp_workers wp ! j))) = MAX_EVENTS)"
proof -
  let ?n = "max cores (uint n)"
  obtain ws t' where "tcp_worker_pool_ctor_loop os cores 0 (nat ?n) t = (Ret ws, t')" "length ws = nat ?n"
    "\<forall>j < nat ?n. tw_name (ws ! j) = ''worker-thread-'' @ dec_nat (0 + j) \<and>
       tw_cpu_affinity_id (ws ! j) = word_of_int (int (0 + j) mod cores) \<and> \<not> tw_started (ws ! j) \<and>
       length (ep_evary (tw_poller (ws ! j))) = MAX_EVENTS"
    using ctor_loop_result [of cores os 0 "nat ?n" t, OF assms] by blast
  then show ?thesis using assms(1)
    by (simp add: tcp_worker_pool_ctor_def pool_worker_num Let_def bind_io_def ret_def worker_lock_ctor_def)
qed

lemma ctor_loop_calls: "only_calls (\<lambda>c. True) (tcp_worker_pool_ctor_loop os cores i k)"
proof (induction k arbitrary: i)
  case (Suc k)
  show ?case
    unfolding tcp_worker_pool_ctor_loop.simps tcp_worker_ctor_def epoll_wrapper_ctor_def
    by (intro only_calls_bind only_calls_call only_calls_CHECK_PERROR_ABT only_calls_CHECK_PERROR only_calls_ret only_calls_lift Suc) simp_all
qed simp

lemma worker_pool_ctor_appends:
  assumes "tcp_worker_pool_ctor os cores n t = (r, t')"
  shows "\<exists>cs. t' = t @ cs"
proof -
  have "only_calls (\<lambda>c. True) (tcp_worker_pool_ctor os cores n)"
    unfolding tcp_worker_pool_ctor_def Let_def by (intro only_calls_bind only_calls_ret ctor_loop_calls)
  from only_callsD [OF this assms] show ?thesis by blast
qed

lemma each_dtor_closes:
  "\<exists>cs. each_dtor os ws t = (Ret (), t @ cs) \<and> map fst cs = map (\<lambda>w. Sys_close (ep_fd (tw_poller w))) ws"
proof (induction ws arbitrary: t)
  case (Cons w ws)
  let ?c = "Sys_close (ep_fd (tw_poller w))"
  obtain cs where "each_dtor os ws (t @ [(?c, fst (os t ?c))]) = (Ret (), (t @ [(?c, fst (os t ?c))]) @ cs)"
    "map fst cs = map (\<lambda>w. Sys_close (ep_fd (tw_poller w))) ws"
    using Cons.IH by blast
  then show ?case
    by (intro exI [of _ "(?c, fst (os t ?c)) # cs"]) (simp add: tcp_worker_dtor_def epoll_wrapper_dtor_def io_simps)
qed (simp add: ret_def)

lemma page_c_str: "c_str page_body 0 = page_body"
  using page_body_no_nul by (auto simp: c_str_def no_nul_def takeWhile_eq_all_conv)

lemma page_header_page: "page_header 3644 = ''HTTP/1.1 200 OK'' @ CRLF @ ''Content-length: 3644'' @ CRLF @ CRLF"
  by (simp add: page_header_def dec_nat.simps digit_char_def char_of_def bit_Suc_0_iff)

definition page_reply :: string where
  "page_reply = page_header (length page_body) @ page_body"

lemma page_reply_facts: "length (page_header (length page_body)) = 41" "length page_reply = 3685"
    "no_nul (page_header (length page_body))" "no_nul page_reply"
  by (simp_all add: page_reply_def page_header_page page_body_length page_body_no_nul)

lemma page_reply_split: "page_header 3644 @ page_body = page_reply"
  by (simp add: page_reply_def page_body_length)

lemma keep_reply_facts: "length keep_reply = 26" "no_nul keep_reply"
  by (simp_all add: keep_reply_def newline_def)

lemma put_reply:
  assumes "length buf = BUFSIZ" "length resp < 8192"
  shows "put_cstr buf 0 resp = Ret (printed resp buf)" "take BUFSIZ (printed resp buf) = printed resp buf"
    "length (printed resp buf) = BUFSIZ"
  using assms by (simp_all add: put_printed length_printed BUFSIZ_def)

lemma greet_page:
  assumes "bufs_ok b" "os t (Sys_read (ev_fd (ci_eplev info)) BUFSIZ) = (n, out)" "0 < n"
    "put_bytes (trd_recv b) (out_bytes out) = recv" "c_strlen recv = Ret k"
  shows "client_greet os info b t =
    (let t1 = t @ [(Sys_read (ev_fd (ci_eplev info)) BUFSIZ, n)];
         c1 = Sys_stdout (''and http request is: '' @ take k recv @ newline); t2 = t1 @ [(c1, fst (os t1 c1))];
         buf = printed page_reply (trd_send b); c2 = Sys_send (ev_fd (ci_eplev info)) buf MSG_NOSIGNAL
     in (Ret (b\<lparr>trd_recv := recv, trd_send := buf\<rparr>), t2 @ [(c2, fst (os t2 c2))]))"
proof -
  let ?h = "page_header (length page_body)"
  have len: "length (trd_send b) = BUFSIZ" using assms(1) by (simp add: bufs_ok_def)
  have p: "put_cstr (trd_send b) 0 ?h = Ret (printed ?h (trd_send b))"
      "c_strlen (printed ?h (trd_send b)) = Ret (length ?h)"
      "put_cstr (printed ?h (trd_send b)) (length ?h) page_body = Ret (printed page_reply (trd_send b))"
      "take BUFSIZ (printed page_reply (trd_send b)) = printed page_reply (trd_send b)"
    using put_reply [OF len, of ?h] put_reply [OF len, of page_reply] put_behind_printed [of ?h page_body "trd_send b"]
      strlen_printed [of ?h] len page_reply_facts page_body_length page_reply_split
    by (simp_all add: BUFSIZ_def)
  then show ?thesis
    using assms(2-5)
    by (simp add: client_greet_def recv_into_def call_out_def call_void_def bind_io_def lift_def ret_def send_buf_def
        page_c_str Let_def)
qed

lemma greet_overread:
  assumes "os t (Sys_read (ev_fd (ci_eplev info)) BUFSIZ) = (n, out)" "0 < n"
    "c_strlen (put_bytes (trd_recv b) (out_bytes out)) = Stop Bad_Index"
  shows "client_greet os info b t = (Stop Bad_Index, t @ [(Sys_read (ev_fd (ci_eplev info)) BUFSIZ, n)])"
  using assms by (simp add: client_greet_def recv_into_def call_out_def bind_io_def lift_def Let_def)

lemma greet_quiet:
  assumes "bufs_ok b" "os t (Sys_read (ev_fd (ci_eplev info)) BUFSIZ) = (n, out)" "n \<le> 0"
  shows "client_greet os info b t =
    (let b1 = b\<lparr>trd_recv := put_bytes (trd_recv b) (out_bytes out)\<rparr>; fd = ev_fd (ci_eplev info);
         t1 = t @ [(Sys_read fd BUFSIZ, n)]; buf = printed keep_reply (trd_send b);
         c = (if n = 0 then Sys_send fd buf MSG_NOSIGNAL else Sys_perror ''accept read error occurred!'')
     in (Ret (if n = 0 then b1\<lparr>trd_send := buf\<rparr> else b1), t1 @ [(c, fst (os t1 c))]))"
proof -
  have "length (trd_send b) = BUFSIZ" using assms(1) by (simp add: bufs_ok_def)
  from put_reply [OF this, of keep_reply]
  have "put_cstr (trd_send b) 0 keep_reply = Ret (printed keep_reply (trd_send b))"
     "take BUFSIZ (printed keep_reply (trd_send b)) = printed keep_reply (trd_send b)"
    by (simp_all add: keep_reply_facts)
  then show ?thesis
    using assms(2,3)
    by (simp add: client_greet_def recv_into_def call_out_def call_void_def bind_io_def lift_def ret_def send_buf_def
        Let_def)
qed

lemma task_queues:
  assumes "client_greet os info b t = (Ret b', t')" "wl_mutex l = Mutex_Free"
  shows "client_task os tid info b (l, q) t = (Ret (b', l, q @ [info]), t')"
  using assms with_lockguard_free [of l "\<lambda>(l, q). Ret ((), l, q @ [info])" tid q "()" "q @ [info]"]
  by (simp add: client_task_def bind_io_def lift_def ret_def)

lemma routine_start_binds:
  assumes "1 \<le> cores" "cores \<le> 1024" "tw_cpu_affinity_id w = word_of_int (int j mod cores)"
  shows "\<exists>tid r rest. snd (worker_routine_start os w b t) = t @ (Sys_gettid, tid) # (Sys_sched_setaffinity tid {int j mod cores}, r) # rest"
proof -
  have m: "0 \<le> int j mod cores" "int j mod cores < cores" using assms(1) by simp_all
  then have "(int j mod cores) mod 2 ^ 32 = int j mod cores" using assms(2) by (intro mod_pos_pos_trivial) simp_all
  then have "uint (tw_cpu_affinity_id w) = int j mod cores"
    unfolding assms(3) by (simp only: uint_word_of_int) simp
  then have "cpu_set_of (uint (tw_cpu_affinity_id w)) = {int j mod cores}"
    using m assms(2) by (simp add: cpu_set_of_def)
  then show ?thesis
    by (auto simp: worker_routine_start_def call_def call_out_def bind_io_def lift_def ret_def call_void_def split: outcome.splits)
qed

section \<open>Properties\<close>

definition demo_client :: client_info where
  "demo_client = \<lparr>ci_host = ''127.0.0.1'', ci_port = 4242, ci_eplev = \<lparr>ev_events = EPOLLIN, ev_fd = 7\<rparr>\<rparr>"

text \<open>
  C27. The task of a new client always ends with the client in the workers' queue, behind those that were there,
  and the lock free, provided that a request it reads contains a NUL byte or leaves one in the buffer. It makes at
  most one \<open>send\<close>, of 8192 bytes: the page with a \<open>Content-length\<close> equal to the page's length when there
  was a request, the message \<open>i will keep you connected\<close> when the peer had closed its end, nothing when reading failed.
\<close>

theorem client_task_greets_and_queues:
  assumes "bufs_ok b" "wl_mutex l = Mutex_Free"
    and "os t (Sys_read (ev_fd (ci_eplev info)) BUFSIZ) = (n, out)"
    and "0 < n \<Longrightarrow> NUL \<in> set (put_bytes (trd_recv b) (out_bytes out))"
  shows "\<exists>b' t'. client_task os tid info b (l, q) t = (Ret (b', l, q @ [info]), t') \<and> bufs_ok b' \<and>
    (if n < 0 then \<nexists>data r. (Sys_send (ev_fd (ci_eplev info)) data MSG_NOSIGNAL, r) \<in> set (drop (length t) t')
     else \<exists>data r. last t' = (Sys_send (ev_fd (ci_eplev info)) data MSG_NOSIGNAL, r) \<and> length data = 8192 \<and>
       c_str data 0 = (if n = 0 then ''i will keep you connected'' @ newline
         else ''HTTP/1.1 200 OK'' @ CRLF @ ''Content-length: '' @ dec_nat (length page_body) @ CRLF @ CRLF @ page_body))"
proof (cases "0 < n")
  case True
  let ?recv = "put_bytes (trd_recv b) (out_bytes out)"
  obtain k where k: "c_strlen ?recv = Ret k" using assms(4) True by (simp add: c_strlen_def)
  have len: "length (printed page_reply (trd_send b)) = 8192"
    using put_reply(3) [of "trd_send b" page_reply] assms(1) by (simp add: bufs_ok_def page_reply_facts BUFSIZ_def)
  have cs: "c_str (printed page_reply (trd_send b)) 0 = page_header (length page_body) @ page_body"
    using takeWhile_no_nul [OF page_reply_facts(4)] by (simp add: c_str_def printed_def page_reply_def)
  from task_queues [OF greet_page [of b os t info n out ?recv k, OF assms(1,3) True refl k, unfolded Let_def] assms(2)]
  show ?thesis using True assms(1) len cs by (auto simp: bufs_ok_def BUFSIZ_def page_header_def)
next
  case False
  have len: "length (printed keep_reply (trd_send b)) = 8192"
    using put_reply(3) [of "trd_send b" keep_reply] assms(1) by (simp add: bufs_ok_def keep_reply_facts BUFSIZ_def)
  have cs: "c_str (printed keep_reply (trd_send b)) 0 = ''i will keep you connected'' @ newline"
    using takeWhile_no_nul [OF keep_reply_facts(2)] by (simp add: c_str_def printed_def keep_reply_def)
  from False have "n \<le> 0" by simp
  from task_queues [OF greet_quiet [of b os t info n out, OF assms(1,3) this, unfolded Let_def] assms(2)]
  show ?thesis using False assms(1) len cs by (auto simp: bufs_ok_def BUFSIZ_def)
qed

theorem client_task_greets_and_queues_witness:
  "\<exists>b' t'. client_task (echo_os ''GET /'') 1 demo_client fresh_bufs (worker_lock_ctor, []) [] = (Ret (b', worker_lock_ctor, [demo_client]), t')"
proof -
  have "NUL \<in> set (put_bytes (trd_recv fresh_bufs) ''GET /'')"
    by (simp add: put_bytes_def fresh_bufs_def BUFSIZ_def)
  then show ?thesis
    using client_task_greets_and_queues [of fresh_bufs worker_lock_ctor "echo_os ''GET /''" "[]" demo_client 5 "Out_Bytes ''GET /''" 1 "[]"]
    by (auto simp: fresh_bufs_ok worker_lock_ctor_def echo_os_def)
qed

text \<open>
  A client that fills the receive buffer with 8192 bytes none of which is NUL makes \<open>printf\<close> of the request run
  past the end of \<open>TRD_RECV_BUF\<close>: nothing in the code terminates what \<open>read\<close> delivered. The client gets no reply
  and never reaches the workers.
\<close>

theorem client_task_overread:
  assumes "length (trd_recv b) = BUFSIZ"
    and "os t (Sys_read (ev_fd (ci_eplev info)) BUFSIZ) = (int BUFSIZ, Out_Bytes bs)" "length bs = BUFSIZ" "no_nul bs"
  shows "client_task os tid info b ls t = (Stop Bad_Index, t @ [(Sys_read (ev_fd (ci_eplev info)) BUFSIZ, int BUFSIZ)])"
proof -
  have "c_strlen (put_bytes (trd_recv b) bs) = Stop Bad_Index"
    using assms(1,3,4) by (simp add: put_bytes_def c_strlen_def no_nul_def)
  then show ?thesis
    using greet_overread [of os t info "int BUFSIZ" "Out_Bytes bs" b] assms(2) BUFSIZ_def
    by (simp add: client_task_def bind_io_def)
qed

theorem client_task_overread_witness:
  "fst (client_task (echo_os (replicate BUFSIZ CHR ''A'')) 1 demo_client fresh_bufs (worker_lock_ctor, []) []) = Stop Bad_Index"
  using client_task_overread [of fresh_bufs "echo_os (replicate BUFSIZ CHR ''A'')" "[]" demo_client "replicate BUFSIZ CHR ''A''"
      1 "(worker_lock_ctor, [])"]
  by (simp add: echo_os_def fresh_bufs_def no_nul_def)

text \<open>
  \<open>tcp_worker_pool::submit\<close> ignores the result of \<open>thread_pool::submit\<close>: with the ring full the call returns as if all
  were well, with nothing changed. The accepted client is in no queue, and nobody will ever close its descriptor.
\<close>

theorem submit_drops_client:
  assumes "wp_started wp" "pool_inv tp" "tp_lock tp = Mutex_Free" "tp_work_count tp = tp_queue_size tp"
  shows "tcp_worker_pool_submit cores spawn t 0 0 0 info wp tp = Ret (wp, tp)"
  using assms submit_refuses [of tp t 0 None "Some info"]
  by (simp add: tcp_worker_pool_submit_def pool_room_def)

definition full_pool :: client_pool where
  "full_pool = thread_pool_ctor\<lparr>tp_queue_size := 1, tp_work_count := 1,
     tp_work_queue := [\<lparr>task_fun = Some demo_client, task_args = None\<rparr>]\<rparr>"

definition demo_wp :: tcp_worker_pool where
  "demo_wp = \<lparr>wp_worker_num = 1, wp_started = True, wp_workers = [demo_worker], wp_storage = [], wp_locker = worker_lock_ctor, wp_avail = 1\<rparr>"

theorem submit_drops_client_witness:
  "tcp_worker_pool_submit 1 (\<lambda>i. (0, i)) 1 0 0 0 demo_client demo_wp full_pool = Ret (demo_wp, full_pool)"
  by (rule submit_drops_client) (simp_all add: demo_wp_def full_pool_def thread_pool_ctor_def pool_inv_def MAX_QUEUE_def)

text \<open>
  The number of workers has no upper bound: \<open>COERCE_IN(CPU_CORE, worker_num, CPU_CORE * 12)\<close> passes its arguments in the
  wrong order, so the constructor makes the maximum of the two numbers of workers instead of clamping the
  request between \<open>CPU_CORE\<close> and \<open>12 * CPU_CORE\<close>. Each worker gets its own poller and the name of its index, and its thread
  starts by binding itself to the processor of its index modulo the number of processors.
\<close>

theorem worker_pool_ctor_unbounded:
  assumes "1 \<le> cores" "cores \<le> 1024" "\<forall>t. fst (os t (Sys_epoll_create1 EPOLL_CLOEXEC)) \<noteq> -1"
  shows "\<exists>wp t'. tcp_worker_pool_ctor os cores n t = (Ret wp, t') \<and> int (length (wp_workers wp)) = max cores (uint n) \<and>
    wp_worker_num wp = max cores (uint n) \<and>
    (\<forall>j < length (wp_workers wp). tw_name (wp_workers wp ! j) = ''worker-thread-'' @ dec_nat j \<and>
       (\<forall>b tr. \<exists>tid r rest. snd (worker_routine_start os (wp_workers wp ! j) b tr) =
          tr @ (Sys_gettid, tid) # (Sys_sched_setaffinity tid {int j mod cores}, r) # rest))"
proof -
  obtain wp t' where "tcp_worker_pool_ctor os cores n t = (Ret wp, t')" "wp_worker_num wp = max cores (uint n)"
    "int (length (wp_workers wp)) = wp_worker_num wp"
    "\<forall>j < length (wp_workers wp). tw_name (wp_workers wp ! j) = ''worker-thread-'' @ dec_nat j \<and>
       tw_cpu_affinity_id (wp_workers wp ! j) = word_of_int (int j mod cores)"
    using ctor_result [of cores os n t, OF assms(1,3)] by blast
  then show ?thesis using routine_start_binds [OF assms(1,2)] by (intro exI [of _ wp] exI [of _ t']) simp
qed

theorem worker_pool_ctor_unbounded_witness:
  "\<exists>wp t'. tcp_worker_pool_ctor (epoll_kernel []) 2 100 [] = (Ret wp, t') \<and> wp_worker_num wp = 100"
  using worker_pool_ctor_unbounded [of 2 "epoll_kernel []" 100 "[]"]
  by (auto simp: epoll_kernel_def)

end
