(* ===== verification/Worker_Threads.thy ===== *)
theory Worker_Threads
  imports Tcp_Worker_Pool
begin

text \<open>
  The loop of \<open>tcp_worker::worker_routine\<close> (\<open>tcp_worker_pool.cpp\<close>, lines 129 to 168) run by all the workers at
  once, with \<open>tcp_worker_pool::startup\<close> starting them and then storing \<open>avail_woker_num_\<close>, and thread-pool
  tasks pushing clients.

  A step is one access to shared memory: the unlocked test of the queue, taking the lock, the block under
  the lock (it ends by releasing it), each access to the atomic counter, the poll. A push is one step
  under a free lock (\<open>client_task\<close>). The value of \<open>worker_num_\<close> is \<open>wk_num\<close>; the ghost field \<open>wk_early\<close> is the number of
  workers that were between their \<open>--\<close> and their \<open>++\<close> when \<open>startup\<close> stored the counter.
\<close>

section \<open>State\<close>

datatype wpc =
    Wk_Test            \<comment> \<open>line 130\<close>
  | Wk_Lock            \<comment> \<open>line 132\<close>
  | Wk_Adopt           \<comment> \<open>holds the lock, line 133\<close>
  | Wk_Dec             \<comment> \<open>line 156\<close>
  | Wk_Cmp             \<comment> \<open>line 160\<close>
  | Wk_Use int         \<comment> \<open>line 161 or 163, with the value that was compared\<close>
  | Wk_Poll int        \<comment> \<open>line 166, with the waiting time\<close>
  | Wk_Inc             \<comment> \<open>line 167\<close>
  | Wk_Fault fault     \<comment> \<open>the division trapped\<close>

record 'c wk_sys =
  wk_num :: int
  wk_avail :: int
  wk_stored :: bool
  wk_early :: nat
  wk_lock :: mutex
  wk_storage :: "'c list"
  wk_pushed :: "'c list"
  wk_adopted :: "(nat \<times> 'c) list"
  wk_pcs :: "wpc list"

abbreviation wk_goto :: "nat \<Rightarrow> wpc \<Rightarrow> 'c wk_sys \<Rightarrow> 'c wk_sys" where
  "wk_goto i pc s \<equiv> s\<lparr>wk_pcs := (wk_pcs s)[i := pc]\<rparr>"

fun polling :: "wpc \<Rightarrow> bool" where
  "polling Wk_Cmp = True"
| "polling (Wk_Use a) = True"
| "polling (Wk_Poll w) = True"
| "polling Wk_Inc = True"
| "polling (Wk_Fault e) = True"
| "polling pc = False"

definition wk_polling :: "'c wk_sys \<Rightarrow> nat" where
  "wk_polling s = count_if polling (wk_pcs s)"

section \<open>The steps of a worker\<close>

definition worker_test :: "nat \<Rightarrow> 'c wk_sys \<Rightarrow> 'c wk_sys" where
  "worker_test i s = wk_goto i (if wk_storage s = [] then Wk_Dec else Wk_Lock) s"

definition worker_lock_queue :: "nat \<Rightarrow> 'c wk_sys \<Rightarrow> 'c wk_sys outcome" where
  "worker_lock_queue i s =
     bind_outcome (mutex_lock i (wk_lock s)) (\<lambda>m. Ret ((wk_goto i Wk_Adopt s)\<lparr>wk_lock := m\<rparr>))"

definition worker_adopt :: "nat \<Rightarrow> 'c wk_sys \<Rightarrow> 'c wk_sys outcome" where
  "worker_adopt i s =
     (let s1 = (case wk_storage s of [] \<Rightarrow> s
                | info # rest \<Rightarrow> s\<lparr>wk_storage := rest, wk_adopted := wk_adopted s @ [(i, info)]\<rparr>)
      in bind_outcome (mutex_unlock i (wk_lock s1)) (\<lambda>m. Ret ((wk_goto i Wk_Dec s1)\<lparr>wk_lock := m\<rparr>)))"

definition worker_dec :: "nat \<Rightarrow> 'c wk_sys \<Rightarrow> 'c wk_sys" where
  "worker_dec i s = (wk_goto i Wk_Cmp s)\<lparr>wk_avail := wk_avail s - 1\<rparr>"

definition worker_cmp :: "nat \<Rightarrow> 'c wk_sys \<Rightarrow> 'c wk_sys" where
  "worker_cmp i s = wk_goto i (Wk_Use (wk_avail s)) s"

definition worker_use :: "nat \<Rightarrow> int \<Rightarrow> 'c wk_sys \<Rightarrow> 'c wk_sys" where
  "worker_use i a s =
     wk_goto i (case worker_wait_time (wk_num s) a (wk_avail s) of Ret w \<Rightarrow> Wk_Poll w | Stop e \<Rightarrow> Wk_Fault e) s"

definition worker_polled :: "nat \<Rightarrow> 'c wk_sys \<Rightarrow> 'c wk_sys" where
  "worker_polled i s = wk_goto i Wk_Inc s"

definition worker_inc :: "nat \<Rightarrow> 'c wk_sys \<Rightarrow> 'c wk_sys" where
  "worker_inc i s = (wk_goto i Wk_Test s)\<lparr>wk_avail := wk_avail s + 1\<rparr>"

definition worker_move :: "nat \<Rightarrow> 'c wk_sys \<Rightarrow> 'c wk_sys option" where
  "worker_move i s = (case wk_pcs s ! i of
      Wk_Test \<Rightarrow> Some (worker_test i s)
    | Wk_Lock \<Rightarrow> (case worker_lock_queue i s of Ret s' \<Rightarrow> Some s' | Stop e \<Rightarrow> None)
    | Wk_Adopt \<Rightarrow> (case worker_adopt i s of Ret s' \<Rightarrow> Some s' | Stop e \<Rightarrow> None)
    | Wk_Dec \<Rightarrow> Some (worker_dec i s)
    | Wk_Cmp \<Rightarrow> Some (worker_cmp i s)
    | Wk_Use a \<Rightarrow> Some (worker_use i a s)
    | Wk_Poll w \<Rightarrow> Some (worker_polled i s)
    | Wk_Inc \<Rightarrow> Some (worker_inc i s)
    | Wk_Fault e \<Rightarrow> None)"

section \<open>The system\<close>

definition startup_start :: "'c wk_sys \<Rightarrow> 'c wk_sys" where
  "startup_start s = s\<lparr>wk_pcs := wk_pcs s @ [Wk_Test]\<rparr>"

definition startup_store :: "'c wk_sys \<Rightarrow> 'c wk_sys" where
  "startup_store s = s\<lparr>wk_avail := wk_num s, wk_stored := True, wk_early := wk_polling s\<rparr>"

definition push_client :: "'c \<Rightarrow> 'c wk_sys \<Rightarrow> 'c wk_sys" where
  "push_client c s = s\<lparr>wk_storage := wk_storage s @ [c], wk_pushed := wk_pushed s @ [c]\<rparr>"

inductive wk_step :: "'c wk_sys \<Rightarrow> 'c wk_sys \<Rightarrow> bool" where
  start: "\<not> wk_stored s \<Longrightarrow> int (length (wk_pcs s)) < wk_num s \<Longrightarrow> wk_step s (startup_start s)"
| store: "\<not> wk_stored s \<Longrightarrow> int (length (wk_pcs s)) = wk_num s \<Longrightarrow> wk_step s (startup_store s)"
| push: "wk_lock s = Mutex_Free \<Longrightarrow> wk_step s (push_client c s)"
| move: "i < length (wk_pcs s) \<Longrightarrow> worker_move i s = Some s' \<Longrightarrow> wk_step s s'"

definition wk_start :: "int \<Rightarrow> 'c wk_sys" where
  "wk_start n = \<lparr>wk_num = n, wk_avail = 0, wk_stored = False, wk_early = 0, wk_lock = Mutex_Free, wk_storage = [],
                 wk_pushed = [], wk_adopted = [], wk_pcs = []\<rparr>"

definition wk_init :: "int \<Rightarrow> 'c wk_sys \<Rightarrow> bool" where
  "wk_init n s \<longleftrightarrow> 1 \<le> n \<and> s = wk_start n"

lemmas worker_defs = worker_test_def worker_lock_queue_def worker_adopt_def worker_dec_def worker_cmp_def
  worker_use_def worker_polled_def worker_inc_def

section \<open>Invariant\<close>

definition wk_lock_inv :: "'c wk_sys \<Rightarrow> bool" where
  "wk_lock_inv s \<longleftrightarrow> wk_lock s \<noteq> Mutex_Destroyed \<and>
     (\<forall>i < length (wk_pcs s). wk_pcs s ! i = Wk_Adopt \<longleftrightarrow> wk_lock s = Mutex_Held i) \<and>
     (\<forall>i. wk_lock s = Mutex_Held i \<longrightarrow> i < length (wk_pcs s))"

definition wk_count_inv :: "'c wk_sys \<Rightarrow> bool" where
  "wk_count_inv s \<longleftrightarrow> 1 \<le> wk_num s \<and> int (length (wk_pcs s)) \<le> wk_num s \<and> int (wk_early s) \<le> wk_num s \<and>
     (wk_stored s \<longrightarrow> int (length (wk_pcs s)) = wk_num s) \<and> (\<not> wk_stored s \<longrightarrow> wk_early s = 0) \<and>
     wk_avail s + int (wk_polling s) = (if wk_stored s then wk_num s + int (wk_early s) else 0)"

definition wk_queue_inv :: "'c wk_sys \<Rightarrow> bool" where
  "wk_queue_inv s \<longleftrightarrow> wk_pushed s = map snd (wk_adopted s) @ wk_storage s"

fun wpc_ok :: "int \<Rightarrow> bool \<Rightarrow> nat \<Rightarrow> wpc \<Rightarrow> bool" where
  "wpc_ok n stored early (Wk_Use a) = (0 < a \<longrightarrow> stored)"
| "wpc_ok n stored early (Wk_Poll w) = (1 \<le> w \<and> w \<le> 2 * n)"
| "wpc_ok n stored early (Wk_Fault e) = (e = Div_By_Zero \<and> stored \<and> early = 0)"
| "wpc_ok n stored early pc = True"

definition wk_pc_inv :: "'c wk_sys \<Rightarrow> bool" where
  "wk_pc_inv s \<longleftrightarrow> (\<forall>pc \<in> set (wk_pcs s). wpc_ok (wk_num s) (wk_stored s) (wk_early s) pc)"

definition wk_inv :: "int \<Rightarrow> 'c wk_sys \<Rightarrow> bool" where
  "wk_inv n s \<longleftrightarrow> wk_num s = n \<and> wk_lock_inv s \<and> wk_count_inv s \<and> wk_queue_inv s \<and> wk_pc_inv s"

lemma polling_le: "int (wk_polling s) \<le> int (length (wk_pcs s))"
  using count_if_le_length [of polling "wk_pcs s"] by (simp add: wk_polling_def)

text \<open>C's remainder has the sign of the dividend and is smaller than the divisor.\<close>

lemma c_rem_nonzero:
  assumes "0 < n" "a \<noteq> 0"
  shows "\<exists>r. c_rem n a = Ret r \<and> 0 \<le> r \<and> r \<le> n"
proof -
  have "n smod a = n mod \<bar>a\<bar>"
    using assms(1) by (simp add: signed_modulo_int_def signed_divide_int_def sgn_if minus_div_mult_eq_mod abs_if)
  moreover have "n mod \<bar>a\<bar> \<le> n" using assms by (intro zmod_le_nonneg_dividend) simp
  ultimately show ?thesis using assms(2) by (simp add: c_rem_def)
qed

lemma wait_time_cases:
  assumes "1 \<le> n" "a2 \<le> 2 * n" "0 < a1 \<Longrightarrow> 0 \<le> a2"
  shows "(\<exists>w. worker_wait_time n a1 a2 = Ret w \<and> 1 \<le> w \<and> w \<le> 2 * n) \<or>
     (a2 = 0 \<and> worker_wait_time n a1 a2 = Stop Div_By_Zero)"
proof (cases "n sdiv 2 < a1")
  case True
  moreover have "0 \<le> n sdiv 2" using assms(1) by (simp add: signed_divide_int_def sgn_if)
  ultimately show ?thesis using assms by (auto simp: worker_wait_time_def)
next
  case False
  show ?thesis
  proof (cases "a2 = 0")
    case True
    with False show ?thesis by (simp add: worker_wait_time_def)
  next
    case nz: False
    obtain r where "c_rem n a2 = Ret r" "0 \<le> r" "r \<le> n" using c_rem_nonzero [of n a2] assms(1) nz by auto
    with False assms(1) show ?thesis by (auto simp: worker_wait_time_def)
  qed
qed

text \<open>A move of thread \<open>i\<close> that leaves the lock alone, and its effect on each part of the invariant.\<close>

lemma wk_lock_keep:
  assumes "wk_lock_inv s" "i < length (wk_pcs s)" "wk_pcs s ! i \<noteq> Wk_Adopt" "pc \<noteq> Wk_Adopt"
    "wk_pcs s' = (wk_pcs s)[i := pc]" "wk_lock s' = wk_lock s"
  shows "wk_lock_inv s'"
  using assms by (auto simp: wk_lock_inv_def nth_list_update)

lemma wk_lock_take:
  assumes "wk_lock_inv s" "i < length (wk_pcs s)" "wk_lock s = Mutex_Free"
    "wk_pcs s' = (wk_pcs s)[i := Wk_Adopt]" "wk_lock s' = Mutex_Held i"
  shows "wk_lock_inv s'"
  using assms by (auto simp: wk_lock_inv_def nth_list_update)

lemma wk_lock_drop:
  assumes "wk_lock_inv s" "i < length (wk_pcs s)" "wk_lock s = Mutex_Held i" "pc \<noteq> Wk_Adopt"
    "wk_pcs s' = (wk_pcs s)[i := pc]" "wk_lock s' = Mutex_Free"
  shows "wk_lock_inv s'"
  using assms by (auto simp: wk_lock_inv_def nth_list_update)

lemma wk_count_move:
  assumes "wk_count_inv s" "i < length (wk_pcs s)" "wk_pcs s' = (wk_pcs s)[i := pc]" "wk_num s' = wk_num s"
    "wk_stored s' = wk_stored s" "wk_early s' = wk_early s"
    "wk_avail s' = wk_avail s + (if polling (wk_pcs s ! i) then 1 else 0) - (if polling pc then 1 else 0)"
  shows "wk_count_inv s'"
  using assms count_if_update_int [OF assms(2), of polling pc] by (simp add: wk_count_inv_def wk_polling_def)

lemma wk_pc_move:
  assumes "wk_pc_inv s" "wk_pcs s' = (wk_pcs s)[i := pc]" "wk_num s' = wk_num s" "wk_stored s' = wk_stored s"
    "wk_early s' = wk_early s" "wpc_ok (wk_num s) (wk_stored s) (wk_early s) pc"
  shows "wk_pc_inv s'"
  using assms(1,6) all_list_update [of "wk_pcs s" "wpc_ok (wk_num s) (wk_stored s) (wk_early s)" pc i]
  unfolding wk_pc_inv_def assms(2-5) by blast

text \<open>The counter while some worker is polling.\<close>

lemma avail_polling:
  assumes "wk_count_inv s" "i < length (wk_pcs s)" "polling (wk_pcs s ! i)"
  shows "wk_avail s \<le> 2 * wk_num s" "wk_stored s \<Longrightarrow> int (wk_early s) \<le> wk_avail s" "\<not> wk_stored s \<Longrightarrow> wk_avail s < 0"
  using assms polling_le [of s] count_if_pos [of i "wk_pcs s" polling]
  by (auto simp: wk_count_inv_def wk_polling_def split: if_splits)

lemma worker_use_ok:
  assumes "wk_inv n s" "i < length (wk_pcs s)" "wk_pcs s ! i = Wk_Use a"
    "pc = (case worker_wait_time (wk_num s) a (wk_avail s) of Ret w \<Rightarrow> Wk_Poll w | Stop e \<Rightarrow> Wk_Fault e)"
  shows "wpc_ok (wk_num s) (wk_stored s) (wk_early s) pc \<and> polling pc"
proof -
  have c: "wk_count_inv s" and p: "polling (wk_pcs s ! i)" using assms(1,3) by (simp_all add: wk_inv_def)
  have "wpc_ok (wk_num s) (wk_stored s) (wk_early s) (Wk_Use a)"
    using assms(1,3) nth_mem [OF assms(2)] unfolding wk_inv_def wk_pc_inv_def by metis
  then have "0 < a \<Longrightarrow> 0 \<le> wk_avail s" using avail_polling(2) [OF c assms(2) p] by auto
  then have "(\<exists>w. worker_wait_time (wk_num s) a (wk_avail s) = Ret w \<and> 1 \<le> w \<and> w \<le> 2 * wk_num s) \<or>
     (wk_avail s = 0 \<and> worker_wait_time (wk_num s) a (wk_avail s) = Stop Div_By_Zero)"
    using wait_time_cases [of "wk_num s" "wk_avail s" a] avail_polling(1) [OF c assms(2) p] c
    by (auto simp: wk_count_inv_def)
  moreover have "wk_avail s = 0 \<Longrightarrow> wk_stored s \<and> wk_early s = 0"
    using avail_polling(2,3) [OF c assms(2) p] by (cases "wk_stored s") auto
  ultimately show ?thesis using assms(4) by auto
qed

lemma worker_move_inv:
  assumes "wk_inv n s" "i < length (wk_pcs s)" "worker_move i s = Some s'"
  shows "wk_inv n s'"
proof -
  have inv: "wk_num s = n" "wk_lock_inv s" "wk_count_inv s" "wk_queue_inv s" "wk_pc_inv s"
    using assms(1) by (simp_all add: wk_inv_def)
  note moves = wk_lock_keep [OF inv(2) assms(2)] wk_count_move [OF inv(3) assms(2)] wk_pc_move [OF inv(5), of _ i]
  show ?thesis
  proof (cases "wk_pcs s ! i")
    case Wk_Test
    let ?pc = "if wk_storage s = [] then Wk_Dec else Wk_Lock"
    have s': "s' = wk_goto i ?pc s" using assms(3) Wk_Test by (simp add: worker_move_def worker_test_def)
    have "wk_lock_inv s'" "wk_count_inv s'" "wk_pc_inv s'"
      using Wk_Test by (auto simp: s' intro!: moves(1) [of ?pc] moves(2) [of _ ?pc] moves(3) [of _ ?pc])
    then show ?thesis using inv by (simp add: wk_inv_def wk_queue_inv_def s')
  next
    case Wk_Lock
    then have l: "wk_lock s = Mutex_Free" and s': "s' = (wk_goto i Wk_Adopt s)\<lparr>wk_lock := Mutex_Held i\<rparr>"
      using assms(3) by (auto simp: worker_move_def worker_lock_queue_def bind_outcome_def mutex_lock_Ret_iff split: outcome.splits)
    have "wk_lock_inv s'" by (rule wk_lock_take [OF inv(2) assms(2) l]) (simp_all add: s')
    moreover have "wk_count_inv s'" "wk_pc_inv s'"
      using Wk_Lock by (auto simp: s' intro!: moves(2) [of _ Wk_Adopt] moves(3) [of _ Wk_Adopt])
    ultimately show ?thesis using inv by (simp add: wk_inv_def wk_queue_inv_def s')
  next
    case Wk_Adopt
    then have l: "wk_lock s = Mutex_Held i" using inv(2) assms(2) by (simp add: wk_lock_inv_def)
    let ?s1 = "case wk_storage s of [] \<Rightarrow> s
      | info # rest \<Rightarrow> s\<lparr>wk_storage := rest, wk_adopted := wk_adopted s @ [(i, info)]\<rparr>"
    have same: "wk_lock ?s1 = wk_lock s" "wk_pcs ?s1 = wk_pcs s" "wk_num ?s1 = wk_num s" "wk_stored ?s1 = wk_stored s"
      "wk_early ?s1 = wk_early s" "wk_avail ?s1 = wk_avail s" "wk_queue_inv ?s1"
      using inv(4) by (auto simp: wk_queue_inv_def split: list.splits)
    have s': "s' = (wk_goto i Wk_Dec ?s1)\<lparr>wk_lock := Mutex_Free\<rparr>"
      using assms(3) Wk_Adopt l same(1) by (simp add: worker_move_def worker_adopt_def Let_def)
    have "wk_lock_inv s'" by (rule wk_lock_drop [OF inv(2) assms(2) l, of Wk_Dec]) (simp_all add: s' same)
    moreover have "wk_count_inv s'" "wk_pc_inv s'"
      using Wk_Adopt by (auto simp: s' same intro!: moves(2) [of _ Wk_Dec] moves(3) [of _ Wk_Dec])
    ultimately show ?thesis using inv same by (simp add: wk_inv_def wk_queue_inv_def s')
  next
    case Wk_Dec
    have s': "s' = (wk_goto i Wk_Cmp s)\<lparr>wk_avail := wk_avail s - 1\<rparr>"
      using assms(3) Wk_Dec by (simp add: worker_move_def worker_dec_def)
    have "wk_lock_inv s'" "wk_count_inv s'" "wk_pc_inv s'"
      using Wk_Dec by (auto simp: s' intro!: moves(1) [of Wk_Cmp] moves(2) [of _ Wk_Cmp] moves(3) [of _ Wk_Cmp])
    then show ?thesis using inv by (simp add: wk_inv_def wk_queue_inv_def s')
  next
    case Wk_Cmp
    let ?pc = "Wk_Use (wk_avail s)"
    have s': "s' = wk_goto i ?pc s" using assms(3) Wk_Cmp by (simp add: worker_move_def worker_cmp_def)
    have "0 < wk_avail s \<Longrightarrow> wk_stored s"
      using avail_polling(3) [OF inv(3) assms(2)] Wk_Cmp by (cases "wk_stored s") auto
    then have "wk_lock_inv s'" "wk_count_inv s'" "wk_pc_inv s'"
      using Wk_Cmp by (auto simp: s' intro!: moves(1) [of ?pc] moves(2) [of _ ?pc] moves(3) [of _ ?pc])
    then show ?thesis using inv by (simp add: wk_inv_def wk_queue_inv_def s')
  next
    case (Wk_Use a)
    define pc where "pc = (case worker_wait_time (wk_num s) a (wk_avail s) of Ret w \<Rightarrow> Wk_Poll w | Stop e \<Rightarrow> Wk_Fault e)"
    have s': "s' = wk_goto i pc s" using assms(3) Wk_Use by (simp add: worker_move_def worker_use_def pc_def)
    have ok: "wpc_ok (wk_num s) (wk_stored s) (wk_early s) pc" "polling pc"
      using worker_use_ok [OF assms(1,2) Wk_Use pc_def] by simp_all
    have "wk_lock_inv s'" "wk_count_inv s'" "wk_pc_inv s'"
      using Wk_Use ok by (auto simp: s' intro!: moves(1) [of pc] moves(2) [of _ pc] moves(3) [of _ pc])
    then show ?thesis using inv by (simp add: wk_inv_def wk_queue_inv_def s')
  next
    case (Wk_Poll w)
    have s': "s' = wk_goto i Wk_Inc s" using assms(3) Wk_Poll by (simp add: worker_move_def worker_polled_def)
    have "wk_lock_inv s'" "wk_count_inv s'" "wk_pc_inv s'"
      using Wk_Poll by (auto simp: s' intro!: moves(1) [of Wk_Inc] moves(2) [of _ Wk_Inc] moves(3) [of _ Wk_Inc])
    then show ?thesis using inv by (simp add: wk_inv_def wk_queue_inv_def s')
  next
    case Wk_Inc
    have s': "s' = (wk_goto i Wk_Test s)\<lparr>wk_avail := wk_avail s + 1\<rparr>"
      using assms(3) Wk_Inc by (simp add: worker_move_def worker_inc_def)
    have "wk_lock_inv s'" "wk_count_inv s'" "wk_pc_inv s'"
      using Wk_Inc by (auto simp: s' intro!: moves(1) [of Wk_Test] moves(2) [of _ Wk_Test] moves(3) [of _ Wk_Test])
    then show ?thesis using inv by (simp add: wk_inv_def wk_queue_inv_def s')
  next
    case (Wk_Fault e)
    then show ?thesis using assms(3) by (simp add: worker_move_def)
  qed
qed

lemma startup_start_inv:
  assumes "wk_inv n s" "\<not> wk_stored s" "int (length (wk_pcs s)) < wk_num s"
  shows "wk_inv n (startup_start s)"
proof -
  have "wk_lock s \<noteq> Mutex_Held (length (wk_pcs s))" using assms(1) by (auto simp: wk_inv_def wk_lock_inv_def)
  then have "wk_lock_inv (startup_start s)"
    using assms(1) by (auto simp: wk_inv_def wk_lock_inv_def startup_start_def nth_append less_Suc_eq)
  moreover have "wk_count_inv (startup_start s)" "wk_queue_inv (startup_start s)"
    using assms by (simp_all add: wk_inv_def wk_count_inv_def wk_queue_inv_def wk_polling_def startup_start_def)
  moreover have "wk_pc_inv s" using assms(1) by (simp add: wk_inv_def)
  then have "wk_pc_inv (startup_start s)" unfolding wk_pc_inv_def startup_start_def by simp
  ultimately show ?thesis using assms(1) by (simp add: wk_inv_def startup_start_def)
qed

lemma startup_store_inv:
  assumes "wk_inv n s" "\<not> wk_stored s" "int (length (wk_pcs s)) = wk_num s"
  shows "wk_inv n (startup_store s)"
proof -
  have ok: "wpc_ok m True early pc" if "wpc_ok m False 0 pc" for m early pc
    using that by (cases pc) auto
  have early: "wk_early s = 0" and pc: "wk_pc_inv s" using assms(1,2) by (simp_all add: wk_inv_def wk_count_inv_def)
  have "wk_pc_inv (startup_store s)"
    using pc assms(2) early by (auto simp: wk_pc_inv_def startup_store_def intro!: ok)
  moreover have "wk_count_inv (startup_store s)"
    using assms polling_le [of s] by (simp add: wk_inv_def wk_count_inv_def wk_polling_def startup_store_def)
  ultimately show ?thesis
    using assms(1) by (simp add: wk_inv_def wk_lock_inv_def wk_queue_inv_def startup_store_def)
qed

lemma push_client_inv:
  assumes "wk_inv n s"
  shows "wk_inv n (push_client c s)"
proof -
  have "wk_pc_inv s" using assms by (simp add: wk_inv_def)
  then have "wk_pc_inv (push_client c s)" unfolding wk_pc_inv_def push_client_def by simp
  then show ?thesis
    using assms by (simp add: wk_inv_def wk_lock_inv_def wk_count_inv_def wk_queue_inv_def wk_polling_def push_client_def)
qed

lemma wk_init_inv: "wk_init n s \<Longrightarrow> wk_inv n s"
  by (simp add: wk_init_def wk_start_def wk_inv_def wk_lock_inv_def wk_count_inv_def wk_queue_inv_def wk_pc_inv_def
      wk_polling_def)

lemma wk_step_inv: "wk_inv n s \<Longrightarrow> wk_step s s' \<Longrightarrow> wk_inv n s'"
  by (erule wk_step.cases)
     (auto intro: startup_start_inv startup_store_inv push_client_inv worker_move_inv)

interpretation workers: locked_system "wk_init n" wk_step "wk_inv n"
  "\<lambda>s. mutex_holder (wk_lock s)" "\<lambda>s i. i < length (wk_pcs s) \<and> wk_pcs s ! i = Wk_Adopt"
proof
  show "wk_inv n s" if "wk_init n s" for s :: "'c wk_sys" using that by (rule wk_init_inv)
  show "wk_inv n s'" if "wk_inv n s" "wk_step s s'" for s s' :: "'c wk_sys" using that by (rule wk_step_inv)
  show "mutex_holder (wk_lock s) = Some i" if "wk_inv n s" "i < length (wk_pcs s) \<and> wk_pcs s ! i = Wk_Adopt"
    for s :: "'c wk_sys" and i using that by (auto simp: wk_inv_def wk_lock_inv_def)
qed

section \<open>The division by zero\<close>


lemma reach_move:
  "reach init wk_step s \<Longrightarrow> i < length (wk_pcs s) \<Longrightarrow> worker_move i s = Some s' \<Longrightarrow> reach init wk_step s'"
  by (rule reach_step) (auto intro: wk_step.move)






section \<open>Properties\<close>

text \<open>A run with two workers: one is in its section when the counter is stored, and one adopts a client.\<close>

fun wk_run :: "nat list \<Rightarrow> 'c wk_sys \<Rightarrow> 'c wk_sys option" where
  "wk_run [] s = Some s"
| "wk_run (i # is) s =
     (if i < length (wk_pcs s) then (case worker_move i s of None \<Rightarrow> None | Some s' \<Rightarrow> wk_run is s') else None)"

lemma wk_run_reach: "wk_run is s = Some s' \<Longrightarrow> reach init wk_step s \<Longrightarrow> reach init wk_step s'"
proof (induction "is" arbitrary: s)
  case (Cons i "is")
  then obtain s1 where s1: "i < length (wk_pcs s)" "worker_move i s = Some s1" "wk_run is s1 = Some s'"
    by (auto split: if_splits option.splits)
  then show ?case using Cons.IH [OF s1(3)] reach_move [OF Cons.prems(2) s1(1,2)] by blast
qed simp

definition wk_demo_started :: "int wk_sys" where
  "wk_demo_started = startup_start (startup_start (wk_start 2))"

definition wk_demo_early :: "int wk_sys" where
  "wk_demo_early = (wk_start 2)\<lparr>wk_pcs := [Wk_Cmp, Wk_Test], wk_avail := -1\<rparr>"

definition wk_demo_end :: "int wk_sys" where
  "wk_demo_end = \<lparr>wk_num = 2, wk_avail = 1, wk_stored = True, wk_early = 1, wk_lock = Mutex_Free, wk_storage = [6],
     wk_pushed = [5, 6], wk_adopted = [(1, 5)], wk_pcs = [Wk_Use 2, Wk_Poll 1]\<rparr>"

lemma wk_demo_reach: "reach (wk_init 2) wk_step wk_demo_end"
proof -
  have r0: "reach (wk_init 2) wk_step (wk_start 2 :: int wk_sys)"
    by (rule reach_init) (simp add: wk_init_def)
  have "wk_step (wk_start 2 :: int wk_sys) (startup_start (wk_start 2))"
    by (rule wk_step.start) (simp_all add: wk_start_def)
  note r1 = reach_step [OF r0 this]
  have "wk_step (startup_start (wk_start 2) :: int wk_sys) wk_demo_started"
    unfolding wk_demo_started_def by (rule wk_step.start) (simp_all add: wk_start_def startup_start_def)
  note r2 = reach_step [OF r1 this]
  have "wk_run [0, 0] wk_demo_started = Some wk_demo_early"
    by (simp add: wk_demo_started_def wk_demo_early_def startup_start_def wk_start_def worker_move_def worker_defs)
  note r3 = wk_run_reach [OF this r2]
  have "wk_step wk_demo_early (startup_store wk_demo_early)"
    by (rule wk_step.store) (simp_all add: wk_demo_early_def wk_start_def)
  note r4 = reach_step [OF r3 this]
  have "wk_step (startup_store wk_demo_early) (push_client 5 (startup_store wk_demo_early))"
    by (rule wk_step.push) (simp add: wk_demo_early_def wk_start_def startup_store_def)
  note r5 = reach_step [OF r4 this]
  have "wk_step (push_client 5 (startup_store wk_demo_early)) (push_client 6 (push_client 5 (startup_store wk_demo_early)))"
    by (rule wk_step.push) (simp add: wk_demo_early_def wk_start_def startup_store_def push_client_def)
  note r6 = reach_step [OF r5 this]
  have "wk_run [0, 1, 1, 1, 1, 1, 1] (push_client 6 (push_client 5 (startup_store wk_demo_early))) = Some wk_demo_end"
    by (simp add: wk_demo_early_def wk_demo_end_def wk_start_def startup_store_def push_client_def worker_move_def
        worker_defs wk_polling_def worker_wait_time_def signed_divide_int_def c_rem_pos)
  then show ?thesis by (rule wk_run_reach [OF _ r6])
qed

text \<open>
  C18. Every client handed over is adopted at most once and in the order of arrival: in every reachable state of
  any number of workers the clients pushed are those adopted, in the order of their adoption, followed by those still
  queued; and at most one worker is in the block that reads the queue under the lock.
\<close>

theorem clients_adopted_once:
  assumes "reach (wk_init n) wk_step s"
  shows "wk_pushed s = map snd (wk_adopted s) @ wk_storage s \<and>
    (\<forall>i j. i < length (wk_pcs s) \<longrightarrow> j < length (wk_pcs s) \<longrightarrow> wk_pcs s ! i = Wk_Adopt \<longrightarrow> wk_pcs s ! j = Wk_Adopt \<longrightarrow> i = j)"
proof -
  have "wk_queue_inv s" using workers.reach_inv [OF assms] by (simp add: wk_inv_def)
  then show ?thesis using workers.reach_mutex [OF assms] by (auto simp: wk_queue_inv_def)
qed

theorem clients_adopted_once_witness:
  "wk_pushed wk_demo_end = map snd (wk_adopted wk_demo_end) @ wk_storage wk_demo_end \<and> wk_adopted wk_demo_end = [(1, 5)]"
  using clients_adopted_once [OF wk_demo_reach] by (simp add: wk_demo_end_def)

text \<open>
  C35. What \<open>avail_woker_num_\<close> counts: once \<open>startup\<close> has stored it, it is the number of workers that are not between
  their decrement and their increment, plus the number of those that were there when it was stored. That surplus, which is
  never corrected, is lost decrements: \<open>startup\<close> stores the counter after it has started the threads. Every waiting time
  that is chosen lies between 1 and twice the number of workers.
\<close>

theorem available_workers_counted:
  assumes "reach (wk_init n) wk_step s"
  shows "(wk_stored s \<longrightarrow> wk_avail s = n - int (wk_polling s) + int (wk_early s)) \<and>
    (\<not> wk_stored s \<longrightarrow> wk_avail s = - int (wk_polling s)) \<and>
    (\<forall>w. Wk_Poll w \<in> set (wk_pcs s) \<longrightarrow> 1 \<le> w \<and> w \<le> 2 * n)"
proof -
  have inv: "wk_num s = n" "wk_count_inv s" "wk_pc_inv s" using workers.reach_inv [OF assms] by (simp_all add: wk_inv_def)
  have "wpc_ok n (wk_stored s) (wk_early s) (Wk_Poll w)" if "Wk_Poll w \<in> set (wk_pcs s)" for w
    using inv(1,3) that unfolding wk_pc_inv_def by metis
  then show ?thesis using inv(1,2) by (auto simp: wk_count_inv_def)
qed

theorem available_workers_counted_witness:
  "wk_avail wk_demo_end = 2 - int (wk_polling wk_demo_end) + int (wk_early wk_demo_end) \<and> wk_early wk_demo_end = 1"
  using available_workers_counted [OF wk_demo_reach] by (simp add: wk_demo_end_def)



section \<open>A single worker\<close>

text \<open>A single worker whose first turn begins after \<open>startup\<close> has stored the counter.\<close>

fun doomed_pc :: "wpc \<Rightarrow> bool" where
  "doomed_pc (Wk_Use a) = (a = 0)"
| "doomed_pc (Wk_Poll w) = False"
| "doomed_pc Wk_Inc = False"
| "doomed_pc pc = True"

definition doomed :: "'c wk_sys \<Rightarrow> bool" where
  "doomed s \<longleftrightarrow> (wk_stored s \<and> wk_early s = 0 \<longrightarrow> (\<forall>pc \<in> set (wk_pcs s). doomed_pc pc))"

lemma single_state:
  assumes "wk_inv 1 s" "wk_stored s" "wk_early s = 0" "i < length (wk_pcs s)"
  shows "i = 0 \<and> wk_pcs s = [wk_pcs s ! 0] \<and> wk_avail s = (if polling (wk_pcs s ! 0) then 0 else 1)"
proof -
  have "length (wk_pcs s) = 1" using assms(1,2) by (simp add: wk_inv_def wk_count_inv_def)
  then obtain pc where pc: "wk_pcs s = [pc]" by (auto simp: length_Suc_conv)
  have "wk_polling s = (if polling pc then 1 else 0)" by (simp add: wk_polling_def pc)
  moreover have "wk_avail s + int (wk_polling s) = 1"
    using assms(1-3) by (auto simp: wk_inv_def wk_count_inv_def)
  ultimately have "wk_avail s + (if polling pc then 1 else 0) = 1" by (simp split: if_splits)
  with pc assms(4) show ?thesis by (auto split: if_splits)
qed

lemma wait_single: "worker_wait_time 1 0 0 = Stop Div_By_Zero"
  by (simp add: worker_wait_time_def signed_divide_int_def)

lemma doomed_move:
  assumes "wk_inv 1 s" "doomed s" "i < length (wk_pcs s)" "worker_move i s = Some s'"
  shows "doomed s'"
proof (cases "wk_stored s \<and> wk_early s = 0")
  case True
  from single_state [OF assms(1) _ _ assms(3)] True have s: "i = 0" "wk_pcs s = [wk_pcs s ! 0]"
      "wk_avail s = (if polling (wk_pcs s ! 0) then 0 else 1)" by simp_all
  have "doomed_pc (wk_pcs s ! 0)" "wk_num s = 1" using assms(1,2,3) True s(1) by (auto simp: doomed_def wk_inv_def)
  then show ?thesis using assms(4) s wait_single
    by (cases "wk_pcs s ! 0")
       (auto simp: doomed_def worker_move_def worker_test_def worker_dec_def worker_cmp_def worker_use_def
          worker_lock_queue_def worker_adopt_def bind_outcome_eq_Ret list_update_code split: outcome.splits list.splits)
next
  case False
  have "wk_stored s' = wk_stored s" "wk_early s' = wk_early s"
    using assms(4) by (auto simp: worker_move_def worker_test_def worker_dec_def worker_cmp_def worker_use_def worker_polled_def
      worker_inc_def worker_lock_queue_def worker_adopt_def bind_outcome_eq_Ret split: wpc.splits outcome.splits list.splits)
  then show ?thesis using False unfolding doomed_def by (metis)
qed

lemma reach_doomed: "reach (wk_init 1) wk_step s \<Longrightarrow> doomed s"
proof (rule workers.reach_keep)
  show "doomed s" if "wk_init 1 s" for s :: "'c wk_sys" using that by (simp add: wk_init_def wk_start_def doomed_def)
  show "doomed s'" if inv: "wk_inv 1 s" and step: "wk_step s s'" and d: "doomed s" for s s' :: "'c wk_sys"
    using step
  proof (cases rule: wk_step.cases)
    case start
    then show ?thesis by (simp add: doomed_def startup_start_def)
  next
    case store
    have "doomed_pc pc" if "\<not> polling pc" for pc using that by (cases pc) simp_all
    then show ?thesis unfolding store(1) by (auto simp: doomed_def startup_store_def wk_polling_def count_if_zero)
  next
    case (push c)
    then show ?thesis using d by (simp add: doomed_def push_client_def)
  next
    case (move i)
    then show ?thesis using doomed_move [OF inv d] by simp
  qed
qed

text \<open>
  A server with a single worker dies in the worker's first turn: if \<open>startup\<close> has stored the counter before the worker's first
  decrement, the worker never reaches a poll, and the step that computes its first waiting time is a division by zero.
\<close>

theorem single_worker_never_polls:
  assumes "reach (wk_init 1) wk_step s" "wk_stored s" "wk_early s = 0"
  shows "(\<forall>w. Wk_Poll w \<notin> set (wk_pcs s)) \<and>
    (\<forall>a s'. wk_pcs s ! 0 = Wk_Use a \<longrightarrow> worker_move 0 s = Some s' \<longrightarrow> wk_pcs s' = [Wk_Fault Div_By_Zero])"
proof -
  have inv: "wk_inv 1 s" "doomed s" using workers.reach_inv [OF assms(1)] reach_doomed [OF assms(1)] by simp_all
  have "int (length (wk_pcs s)) = 1" using inv(1) assms(2) unfolding wk_inv_def wk_count_inv_def by simp
  then have len: "0 < length (wk_pcs s)" by linarith
  note one = single_state [OF inv(1) assms(2,3) len]
  have d: "doomed_pc pc" if "pc \<in> set (wk_pcs s)" for pc using inv(2) assms(2,3) that by (simp add: doomed_def)
  have "wk_pcs s' = [Wk_Fault Div_By_Zero]" if use: "wk_pcs s ! 0 = Wk_Use a" "worker_move 0 s = Some s'" for a s'
  proof -
    have "a = 0" using d [of "wk_pcs s ! 0"] nth_mem [OF len] use(1) by simp
    moreover have "wk_num s = 1" using inv(1) by (simp add: wk_inv_def)
    ultimately show ?thesis using use one wait_single
      by (simp add: worker_move_def worker_use_def) auto
  qed
  then show ?thesis using d by fastforce
qed

theorem single_worker_never_polls_witness:
  "\<exists>s s' :: nat wk_sys. reach (wk_init 1) wk_step s \<and> wk_pcs s = [Wk_Use 0] \<and> worker_move 0 s = Some s' \<and>
     wk_pcs s' = [Wk_Fault Div_By_Zero]"
proof -
  let ?s1 = "startup_start (wk_start 1) :: nat wk_sys" and ?u = "(wk_start 1)\<lparr>wk_stored := True, wk_pcs := [Wk_Use 0]\<rparr> :: nat wk_sys"
  have r0: "reach (wk_init 1) wk_step (wk_start 1 :: nat wk_sys)" by (rule reach_init) (simp add: wk_init_def)
  have "wk_step (wk_start 1) ?s1" by (rule wk_step.start) (simp_all add: wk_start_def)
  note r1 = reach_step [OF r0 this]
  have "wk_step ?s1 (startup_store ?s1)" by (rule wk_step.store) (simp_all add: wk_start_def startup_start_def)
  note r2 = reach_step [OF r1 this]
  have "wk_run [0, 0, 0] (startup_store ?s1) = Some ?u"
    by (simp add: wk_start_def startup_start_def startup_store_def worker_move_def worker_defs wk_polling_def)
  from wk_run_reach [OF this r2] have r3: "reach (wk_init 1) wk_step ?u" .
  obtain s' where s': "worker_move 0 ?u = Some s'" by (simp add: worker_move_def wk_start_def)
  from single_worker_never_polls [OF r3] s' show ?thesis using r3 s'
    by (intro exI [of _ ?u] exI [of _ s']) (simp add: wk_start_def)
qed

end
