(* ===== verification/Tcp_Server.thy ===== *)
theory Tcp_Server
  imports Tcp_Worker_Pool
begin

text \<open>
  \<open>tcp_server\<close> (\<open>tcp_server.h\<close>, \<open>tcp_server.cpp\<close>): the constructor, the start-up sequence of system calls, the resolution of the
  host argument, and the loop that accepts connections.

  \<open>inet_addr\<close> and \<open>inet_ntoa\<close> are parameters. \<open>startup\<close> ends in an endless loop; the model has the part before
  the loop (\<open>server_listen\<close>, \<open>poll_for_connect_init\<close>) and one turn of it (\<open>poll_for_connect_turn\<close>). \<open>client_info::host\<close> points into
  the static buffer of \<open>inet_ntoa\<close>; the model keeps the text it has at the call, and only debug output reads it later.
\<close>

section \<open>Constants and state\<close>

definition AF_INET :: int where "AF_INET = 2"
definition SOCK_STREAM :: int where "SOCK_STREAM = 1"
definition IPPROTO_TCP :: int where "IPPROTO_TCP = 6"
definition SOL_SOCKET :: int where "SOL_SOCKET = 1"
definition SO_REUSEADDR :: int where "SO_REUSEADDR = 2"
definition SO_SNDBUF :: int where "SO_SNDBUF = 7"
definition INADDR_ANY :: u32 where "INADDR_ANY = 0"
definition INADDR_LOOPBACK :: u32 where "INADDR_LOOPBACK = 0x7F000001"

definition SERVER_MAX_CONNECTION :: u32 where "SERVER_MAX_CONNECTION = 2048"

definition NORMAL_EPOLLEV :: u32 where
  "NORMAL_EPOLLEV = or (or (or (or EPOLLIN EPOLLPRI) EPOLLET) EPOLLHUP) EPOLLERR"

record tcp_server =
  sv_port :: u16
  sv_host :: "string option"
  sv_sockfd :: int
  sv_connected_num :: u32
  sv_address :: sockaddr_in
  sv_worker_pool :: tcp_worker_pool

definition no_address :: sockaddr_in where
  "no_address = \<lparr>sin_family = 0, sin_port = 0, sin_addr = 0\<rparr>"

text \<open>\<open>worker_pool(thread_num)\<close> converts the \<open>uint32_t\<close> argument to \<open>uint16_t\<close>.\<close>

definition tcp_server_ctor :: "os \<Rightarrow> int \<Rightarrow> u16 \<Rightarrow> u32 \<Rightarrow> string option \<Rightarrow> tcp_server io" where
  "tcp_server_ctor os cores port thread_num host =
     bind_io (tcp_worker_pool_ctor os cores (ucast thread_num)) (\<lambda>wp.
     ret \<lparr>sv_port = port, sv_host = host, sv_sockfd = -1, sv_connected_num = 0, sv_address = no_address,
          sv_worker_pool = wp\<rparr>)"

text \<open>After the body of the destructor the member \<open>worker_pool\<close> is destroyed.\<close>

definition tcp_server_dtor :: "os \<Rightarrow> tid \<Rightarrow> tcp_server \<Rightarrow> unit io" where
  "tcp_server_dtor os t sv = call_void os (Sys_close (sv_sockfd sv)) (tcp_worker_pool_dtor os t (sv_worker_pool sv))"

section \<open>startup\<close>

definition resolve_host :: "(string \<Rightarrow> u32) \<Rightarrow> string option \<Rightarrow> u32" where
  "resolve_host inet_addr host = (case host of
      None \<Rightarrow> htonl INADDR_ANY
    | Some h \<Rightarrow> if h = [] \<or> h = ''0.0.0.0'' \<or> h = ''0'' \<or> h = ''*'' then htonl INADDR_ANY
                else if h = ''localhost'' then htonl INADDR_LOOPBACK
                else inet_addr h)"

definition server_address :: "(string \<Rightarrow> u32) \<Rightarrow> tcp_server \<Rightarrow> sockaddr_in" where
  "server_address inet_addr sv =
     \<lparr>sin_family = AF_INET, sin_port = htons (sv_port sv), sin_addr = resolve_host inet_addr (sv_host sv)\<rparr>"

definition server_listen :: "os \<Rightarrow> (string \<Rightarrow> u32) \<Rightarrow> tcp_server \<Rightarrow> tcp_server io" where
  "server_listen os inet_addr sv =
     call os (Sys_socket AF_INET SOCK_STREAM IPPROTO_TCP) (\<lambda>fd.
     CHECK_PERROR_ABT os fd ''Socket create failed!''
     (call_void os (Sys_setsockopt fd SOL_SOCKET SO_REUSEADDR 1)
     (call_void os (Sys_setsockopt fd SOL_SOCKET SO_SNDBUF (512 * 1024))
     (let sv1 = sv\<lparr>sv_sockfd := fd, sv_address := server_address inet_addr sv\<rparr> in
      call os (Sys_bind fd (sv_address sv1)) (\<lambda>res.
      CHECK_PERROR_ABT os res ''Server bind address failed!''
      (bind_io (set_fd_non_block os fd) (\<lambda>res.
       CHECK_PERROR_ABT os res ''Server set non_blocking failed!''
       (call os (Sys_listen fd (uint SERVER_MAX_CONNECTION)) (\<lambda>res.
        CHECK_PERROR_ABT os res ''Server listen failed!'' (ret sv1))))))))))"

definition server_startup ::
  "os \<Rightarrow> (string \<Rightarrow> u32) \<Rightarrow> int \<Rightarrow> (nat \<Rightarrow> int \<times> nat) \<Rightarrow> tcp_server \<Rightarrow> client_pool \<Rightarrow> (tcp_server \<times> client_pool) io"
where
  "server_startup os inet_addr cores spawn sv tp =
     bind_io (server_listen os inet_addr sv) (\<lambda>sv1.
     bind_io (lift (tcp_worker_pool_startup cores spawn (sv_worker_pool sv1) tp)) (\<lambda>(wp, tp').
     call_void os (Sys_stdout (''Started server at '' @ (case sv_host sv1 of None \<Rightarrow> ''(null)'' | Some h \<Rightarrow> h) @ '':''
                     @ dec_int (uint (sv_port sv1)) @ ''...'' @ newline))
       (ret (sv1\<lparr>sv_worker_pool := wp\<rparr>, tp'))))"

section \<open>poll\_for\_connect\<close>

text \<open>The state of the callback: the server, the thread pool, and the captured \<open>client_address\<close>.\<close>

type_synonym accept_state = "tcp_server \<times> client_pool \<times> sockaddr_in"

fun out_addr :: "sysout \<Rightarrow> sockaddr_in \<Rightarrow> sockaddr_in" where
  "out_addr (Out_Addr a) old = a"
| "out_addr out old = old"

definition accepted_info :: "(u32 \<Rightarrow> string) \<Rightarrow> int \<Rightarrow> sockaddr_in \<Rightarrow> client_info" where
  "accepted_info inet_ntoa client_fd addr =
     \<lparr>ci_host = inet_ntoa (sin_addr addr), ci_port = uint (htons (sin_port addr)),
      ci_eplev = \<lparr>ev_events = NORMAL_EPOLLEV, ev_fd = client_fd\<rparr>\<rparr>"

definition server_on_event ::
  "os \<Rightarrow> (u32 \<Rightarrow> string) \<Rightarrow> int \<Rightarrow> (nat \<Rightarrow> int \<times> nat) \<Rightarrow> tid \<Rightarrow> epoll_event \<Rightarrow> accept_state \<Rightarrow> accept_state io"
where
  "server_on_event os inet_ntoa cores spawn t ev st =
     (case st of (sv, tp, caddr) \<Rightarrow>
      if has_event (ev_events ev) EPOLLIN \<and> sv_connected_num sv < SERVER_MAX_CONNECTION then
        call_out os (Sys_accept (sv_sockfd sv)) (\<lambda>client_fd out.
        let caddr' = out_addr out caddr in
        if client_fd > 0 then
          let info = accepted_info inet_ntoa client_fd caddr' in
          call_void os (Sys_stdout (''New connection from '' @ ci_host info @ '':'' @ dec_int (ci_port info) @ newline))
          (bind_io (lift (tcp_worker_pool_submit cores spawn t 0 0 0 info (sv_worker_pool sv) tp)) (\<lambda>(wp, tp').
           ret (sv\<lparr>sv_worker_pool := wp, sv_connected_num := sv_connected_num sv + 1\<rparr>, tp', caddr')))
        else
          call_void os (Sys_stderr (''Server accept new connection failed!'' @ newline)) (ret (sv, tp, caddr')))
      else if has_event (ev_events ev) (or EPOLLHUP EPOLLERR) then
        call_void os (Sys_stderr (''Server socket fd on error!'' @ newline))
        (call_void os (Sys_close (sv_sockfd sv)) (stop Abort_Called))
      else ret st)"

definition poll_for_connect_init :: "os \<Rightarrow> tcp_server \<Rightarrow> epoll_wrapper io" where
  "poll_for_connect_init os sv =
     bind_io (epoll_wrapper_ctor os) (\<lambda>w.
     bind_io (epoll_add_event os w (sv_sockfd sv) NORMAL_EPOLLEV False) (\<lambda>res. ret w))"

definition poll_for_connect_turn ::
  "os \<Rightarrow> (u32 \<Rightarrow> string) \<Rightarrow> int \<Rightarrow> (nat \<Rightarrow> int \<times> nat) \<Rightarrow> tid \<Rightarrow> epoll_wrapper \<Rightarrow> accept_state \<Rightarrow> (epoll_wrapper \<times> accept_state) io"
where
  "poll_for_connect_turn os inet_ntoa cores spawn t w st =
     epoll_poll_event os (for_events (server_on_event os inet_ntoa cores spawn t)) w EPOLL_WAIT_TIME st"

section \<open>Lemmas\<close>

definition server_ready :: "tcp_server \<Rightarrow> client_pool \<Rightarrow> bool" where
  "server_ready sv tp \<longleftrightarrow> wp_started (sv_worker_pool sv) \<and> pool_inv tp \<and> tp_lock tp = Mutex_Free"

text \<open>The descriptors of the connections accepted in a trace.\<close>

fun accepted_of :: "syscall \<times> int \<Rightarrow> int list" where
  "accepted_of (Sys_accept fd, r) = (if 0 < r then [r] else [])"
| "accepted_of (c, r) = []"

definition accepted_fds :: "trace \<Rightarrow> int list" where
  "accepted_fds cs = concat (map accepted_of cs)"

lemma accepted_fds_simps [simp]: "accepted_fds [] = []" "accepted_fds (c # cs) = accepted_of c @ accepted_fds cs"
    "accepted_fds (cs @ ds) = accepted_fds cs @ accepted_fds ds"
  by (simp_all add: accepted_fds_def)

definition client_of_task :: "(client_info, unit) thread_pool_task \<Rightarrow> int option" where
  "client_of_task x = map_option (\<lambda>i. ev_fd (ci_eplev i)) (task_fun x)"

lemma submit_result:
  assumes "wp_started wp" "pool_inv tp" "tp_lock tp = Mutex_Free"
  shows "tcp_worker_pool_submit cores spawn t 0 0 0 info wp tp =
    Ret (wp, if pool_room tp then pool_put \<lparr>task_fun = Some info, task_args = None\<rparr> tp else tp)"
  using assms submit_stores [of tp t 0 0 None "Some info"] submit_refuses [of tp t 0 None "Some info"]
  by (simp add: tcp_worker_pool_submit_def)

lemma ready_put: "server_ready sv tp \<Longrightarrow> pool_room tp \<Longrightarrow> server_ready sv (pool_put x tp)"
  using pool_put_inv [of tp x] by (auto simp: server_ready_def pool_room_def pool_put_def)

lemma connected_succ: "c < SERVER_MAX_CONNECTION \<Longrightarrow> unat (c + 1) = Suc (unat c) \<and> unat (c + 1) \<le> 2048"
proof -
  assume "c < SERVER_MAX_CONNECTION"
  then have "unat c < 2048" by (simp add: SERVER_MAX_CONNECTION_def word_less_nat_alt)
  then show ?thesis by (simp add: unat_word_ariths)
qed

lemma connected_less: "c < SERVER_MAX_CONNECTION \<longleftrightarrow> unat c < 2048"
  by (simp add: SERVER_MAX_CONNECTION_def word_less_nat_alt)

text \<open>The thread pool before and after one event, with the connections the event accepted.\<close>

definition pool_grows :: "client_pool \<Rightarrow> client_pool \<Rightarrow> int list \<Rightarrow> bool" where
  "pool_grows tp tp' fds \<longleftrightarrow> (fds = [] \<and> tp' = tp) \<or>
     (\<exists>info. fds = [ev_fd (ci_eplev info)] \<and>
        tp' = (if pool_room tp then pool_put \<lparr>task_fun = Some info, task_args = None\<rparr> tp else tp))"

lemma pool_growsI:
  "fd = ev_fd (ci_eplev info) \<Longrightarrow> tp' = (if pool_room tp then pool_put \<lparr>task_fun = Some info, task_args = None\<rparr> tp else tp) \<Longrightarrow>
     pool_grows tp tp' [fd]"
  by (auto simp: pool_grows_def)

lemma pool_grows_tasks:
  assumes "pool_grows tp tp' fds" "pool_inv tp" "\<not> tp_shutdown tp" "tp_work_count tp < tp_queue_size tp"
  shows "\<not> tp_shutdown tp' \<and> tp_work_count tp' \<le> tp_work_count tp + 1 \<and> tp_queue_size tp' = tp_queue_size tp \<and>
    map client_of_task (pool_tasks tp') = map client_of_task (pool_tasks tp) @ map Some fds"
  using assms pool_put_tasks [OF assms(2)]
  by (auto simp: pool_grows_def pool_room_def pool_put_def client_of_task_def split: if_splits)

text \<open>What the server's state is after events that accepted the connections \<open>fds\<close>.\<close>

definition server_counts :: "tcp_server \<Rightarrow> client_pool \<Rightarrow> int list \<Rightarrow> tcp_server \<Rightarrow> client_pool \<Rightarrow> bool" where
  "server_counts sv tp fds sv' tp' \<longleftrightarrow> server_ready sv' tp' \<and> sv_sockfd sv' = sv_sockfd sv \<and>
     unat (sv_connected_num sv') = unat (sv_connected_num sv) + length fds \<and> unat (sv_connected_num sv') \<le> 2048"

lemma server_step_accept:
  assumes "server_ready sv tp" "has_event (ev_events ev) EPOLLIN" "sv_connected_num sv < SERVER_MAX_CONNECTION"
    "os tr (Sys_accept (sv_sockfd sv)) = (fd, out)" "fd > 0"
  shows "\<exists>msg r sv' tp' ca'. server_on_event os inet_ntoa cores spawn t ev (sv, tp, ca) tr =
      (Ret (sv', tp', ca'), tr @ [(Sys_accept (sv_sockfd sv), fd), (Sys_stdout msg, r)]) \<and>
    server_counts sv tp [fd] sv' tp' \<and> pool_grows tp tp' [fd]"
proof -
  let ?info = "accepted_info inet_ntoa fd (out_addr out ca)"
  let ?tp = "if pool_room tp then pool_put \<lparr>task_fun = Some ?info, task_args = None\<rparr> tp else tp"
  let ?sv = "sv\<lparr>sv_connected_num := sv_connected_num sv + 1\<rparr>"
  let ?msg = "''New connection from '' @ ci_host ?info @ '':'' @ dec_int (ci_port ?info) @ newline"
  have "tcp_worker_pool_submit cores spawn t 0 0 0 ?info (sv_worker_pool sv) tp = Ret (sv_worker_pool sv, ?tp)"
    using assms(1) by (intro submit_result) (simp_all add: server_ready_def)
  then have "server_on_event os inet_ntoa cores spawn t ev (sv, tp, ca) tr =
      (Ret (?sv, ?tp, out_addr out ca), tr @ [(Sys_accept (sv_sockfd sv), fd),
         (Sys_stdout ?msg, fst (os (tr @ [(Sys_accept (sv_sockfd sv), fd)]) (Sys_stdout ?msg)))])"
    using assms(2-5) by (simp add: server_on_event_def io_simps Let_def)
  moreover have "server_ready ?sv ?tp" using assms(1) ready_put [OF assms(1)] by (simp add: server_ready_def)
  then have "server_counts sv tp [fd] ?sv ?tp" using connected_succ [OF assms(3)] by (simp add: server_counts_def)
  moreover have "pool_grows tp ?tp [fd]" by (rule pool_growsI [of fd ?info]) (simp_all add: accepted_info_def)
  ultimately show ?thesis by blast
qed

text \<open>What one event of the listening socket does.\<close>

lemma server_step:
  assumes "server_ready sv tp" "unat (sv_connected_num sv) \<le> 2048"
  shows "\<exists>cs res. server_on_event os inet_ntoa cores spawn t ev (sv, tp, ca) tr = (res, tr @ cs) \<and>
    ((res = Stop Abort_Called \<and> accepted_fds cs = []) \<or>
     (\<exists>sv' tp' ca'. res = Ret (sv', tp', ca') \<and> server_counts sv tp (accepted_fds cs) sv' tp' \<and>
        pool_grows tp tp' (accepted_fds cs)))"
proof (cases "has_event (ev_events ev) EPOLLIN \<and> sv_connected_num sv < SERVER_MAX_CONNECTION")
  case True
  obtain fd out where acc: "os tr (Sys_accept (sv_sockfd sv)) = (fd, out)" by (cases "os tr (Sys_accept (sv_sockfd sv))")
  show ?thesis
  proof (cases "fd > 0")
    case pos: True
    from True have c: "has_event (ev_events ev) EPOLLIN" "sv_connected_num sv < SERVER_MAX_CONNECTION" by simp_all
    obtain msg r sv' tp' ca' where r: "server_on_event os inet_ntoa cores spawn t ev (sv, tp, ca) tr =
       (Ret (sv', tp', ca'), tr @ [(Sys_accept (sv_sockfd sv), fd), (Sys_stdout msg, r)])"
      "server_counts sv tp [fd] sv' tp'" "pool_grows tp tp' [fd]"
      using server_step_accept [of sv tp ev os tr fd out, OF assms(1) c acc pos] by blast
    let ?cs = "[(Sys_accept (sv_sockfd sv), fd), (Sys_stdout msg, r)]"
    have "accepted_fds ?cs = [fd]" using pos by simp
    then show ?thesis using r by (intro exI [of _ ?cs] exI [of _ "Ret (sv', tp', ca')"]) auto
  next
    case False
    then show ?thesis using True assms acc
      by (auto simp: server_on_event_def io_simps Let_def server_counts_def pool_grows_def)
  qed
next
  case False
  then show ?thesis using assms by (auto simp: server_on_event_def io_simps Let_def server_counts_def pool_grows_def)
qed

text \<open>What a batch of events does.\<close>

definition batch_result :: "tcp_server \<Rightarrow> client_pool \<Rightarrow> nat \<Rightarrow> int list \<Rightarrow> accept_state outcome \<Rightarrow> bool" where
  "batch_result sv tp k fds res \<longleftrightarrow> unat (sv_connected_num sv) + length fds \<le> 2048 \<and>
    (res = Stop Abort_Called \<or>
     (\<exists>sv' tp' ca'. res = Ret (sv', tp', ca') \<and> server_counts sv tp fds sv' tp' \<and>
        (\<not> tp_shutdown tp \<longrightarrow> tp_work_count tp + int k \<le> tp_queue_size tp \<longrightarrow>
           map client_of_task (pool_tasks tp') = map client_of_task (pool_tasks tp) @ map Some fds)))"

lemma batch_result_more:
  assumes "server_counts sv tp fds sv1 tp1" "pool_grows tp tp1 fds" "pool_inv tp" "batch_result sv1 tp1 k gds res"
  shows "batch_result sv tp (Suc k) (fds @ gds) res"
proof -
  have n: "unat (sv_connected_num sv1) = unat (sv_connected_num sv) + length fds" "sv_sockfd sv1 = sv_sockfd sv"
    using assms(1) by (simp_all add: server_counts_def)
  have counts: "server_counts sv tp (fds @ gds) sv' tp'" if "server_counts sv1 tp1 gds sv' tp'" for sv' tp'
    using that n by (simp add: server_counts_def)
  have tasks: "map client_of_task (pool_tasks tp') = map client_of_task (pool_tasks tp) @ map Some (fds @ gds)"
    if "\<not> tp_shutdown tp" "tp_work_count tp + int (Suc k) \<le> tp_queue_size tp"
      "\<not> tp_shutdown tp1 \<longrightarrow> tp_work_count tp1 + int k \<le> tp_queue_size tp1 \<longrightarrow>
           map client_of_task (pool_tasks tp') = map client_of_task (pool_tasks tp1) @ map Some gds" for tp'
    using pool_grows_tasks [OF assms(2,3)] that by simp
  from assms(4) have le: "unat (sv_connected_num sv) + length (fds @ gds) \<le> 2048" using n by (simp add: batch_result_def)
  from assms(4) consider "res = Stop Abort_Called"
    | sv' tp' ca' where "res = Ret (sv', tp', ca')" "server_counts sv1 tp1 gds sv' tp'"
       "\<not> tp_shutdown tp1 \<longrightarrow> tp_work_count tp1 + int k \<le> tp_queue_size tp1 \<longrightarrow>
           map client_of_task (pool_tasks tp') = map client_of_task (pool_tasks tp1) @ map Some gds"
    unfolding batch_result_def by blast
  then show ?thesis
  proof cases
    case 1
    then show ?thesis using le by (simp add: batch_result_def)
  next
    case 2
    then show ?thesis using le counts tasks unfolding batch_result_def by blast
  qed
qed

lemma server_batch:
  assumes "server_ready sv tp" "unat (sv_connected_num sv) \<le> 2048"
    and "each_event (server_on_event os inet_ntoa cores spawn t) evs (sv, tp, ca) tr = (res, tr')"
  shows "\<exists>cs. tr' = tr @ cs \<and> batch_result sv tp (length evs) (accepted_fds cs) res"
  using assms
proof (induction evs arbitrary: sv tp ca tr)
  case Nil
  then show ?case by (auto simp: ret_def batch_result_def server_counts_def)
next
  case (Cons ev evs)
  obtain cs res1 where step: "server_on_event os inet_ntoa cores spawn t ev (sv, tp, ca) tr = (res1, tr @ cs)"
    "(res1 = Stop Abort_Called \<and> accepted_fds cs = []) \<or>
     (\<exists>sv' tp' ca'. res1 = Ret (sv', tp', ca') \<and> server_counts sv tp (accepted_fds cs) sv' tp' \<and>
        pool_grows tp tp' (accepted_fds cs))"
    using server_step [OF Cons.prems(1,2), of os inet_ntoa cores spawn t ev ca tr] by blast
  from step(2) consider "res1 = Stop Abort_Called" "accepted_fds cs = []"
    | sv1 tp1 ca1 where "res1 = Ret (sv1, tp1, ca1)" "server_counts sv tp (accepted_fds cs) sv1 tp1"
        "pool_grows tp tp1 (accepted_fds cs)" by blast
  then show ?case
  proof cases
    case 1
    then have "tr' = tr @ cs" "res = Stop Abort_Called" using step(1) Cons.prems(3) by (simp_all add: bind_io_def)
    then show ?thesis using 1 Cons.prems(2) by (intro exI [of _ cs]) (simp add: batch_result_def)
  next
    case 2
    have run: "each_event (server_on_event os inet_ntoa cores spawn t) evs (sv1, tp1, ca1) (tr @ cs) = (res, tr')"
      using Cons.prems(3) step(1) 2(1) by (simp add: bind_io_def)
    have ready: "server_ready sv1 tp1" "unat (sv_connected_num sv1) \<le> 2048" using 2(2) by (simp_all add: server_counts_def)
    obtain ds where ds: "tr' = (tr @ cs) @ ds" "batch_result sv1 tp1 (length evs) (accepted_fds ds) res"
      using Cons.IH [OF ready run] by blast
    have "pool_inv tp" using Cons.prems(1) by (simp add: server_ready_def)
    from batch_result_more [OF 2(2,3) this ds(2)] ds(1) show ?thesis by (intro exI [of _ "cs @ ds"]) simp
  qed
qed

text \<open>A server at its limit accepts nothing any more.\<close>

lemma server_full_step:
  assumes "sv_connected_num sv = 2048"
  shows "\<exists>cs res. server_on_event os inet_ntoa cores spawn t ev (sv, tp, ca) tr = (res, tr @ cs) \<and>
    (\<forall>c \<in> set cs. \<forall>fd. fst c \<noteq> Sys_accept fd) \<and> (res = Ret (sv, tp, ca) \<or> res = Stop Abort_Called)"
  using assms by (auto simp: server_on_event_def SERVER_MAX_CONNECTION_def io_simps Let_def)

lemma server_full_batch:
  assumes "sv_connected_num sv = 2048"
  shows "\<exists>cs res. each_event (server_on_event os inet_ntoa cores spawn t) evs (sv, tp, ca) tr = (res, tr @ cs) \<and>
    (\<forall>c \<in> set cs. \<forall>fd. fst c \<noteq> Sys_accept fd) \<and> (res = Ret (sv, tp, ca) \<or> res = Stop Abort_Called)"
proof (induction evs arbitrary: tr)
  case Nil
  then show ?case by (simp add: ret_def)
next
  case (Cons ev evs)
  obtain cs res where step: "server_on_event os inet_ntoa cores spawn t ev (sv, tp, ca) tr = (res, tr @ cs)"
    "\<forall>c \<in> set cs. \<forall>fd. fst c \<noteq> Sys_accept fd" "res = Ret (sv, tp, ca) \<or> res = Stop Abort_Called"
    using server_full_step [OF assms, of os inet_ntoa cores spawn t ev tp ca tr] by blast
  obtain ds res' where rest: "each_event (server_on_event os inet_ntoa cores spawn t) evs (sv, tp, ca) (tr @ cs) = (res', (tr @ cs) @ ds)"
    "\<forall>c \<in> set ds. \<forall>fd. fst c \<noteq> Sys_accept fd" "res' = Ret (sv, tp, ca) \<or> res' = Stop Abort_Called"
    using Cons.IH [of "tr @ cs"] by blast
  from step(3) show ?case
  proof
    assume "res = Ret (sv, tp, ca)"
    then show ?thesis using step(1,2) rest
      by (intro exI [of _ "cs @ ds"] exI [of _ res']) (auto simp: bind_io_def)
  next
    assume "res = Stop Abort_Called"
    then show ?thesis using step(1,2) by (intro exI [of _ cs] exI [of _ res]) (simp add: bind_io_def)
  qed
qed

text \<open>The calls of \<open>server_listen\<close> when none of the checked ones fails.\<close>

lemma server_listen_result:
  assumes "server_listen os inet_addr sv [] = (Ret sv', t')"
  shows "\<exists>fd r1 r2 r3 flag r4 r5. fd \<noteq> -1 \<and> r3 \<noteq> -1 \<and> flag \<noteq> -1 \<and> r4 \<noteq> -1 \<and> r5 \<noteq> -1 \<and>
    t' = [(Sys_socket AF_INET SOCK_STREAM IPPROTO_TCP, fd), (Sys_setsockopt fd SOL_SOCKET SO_REUSEADDR 1, r1),
          (Sys_setsockopt fd SOL_SOCKET SO_SNDBUF 524288, r2), (Sys_bind fd (server_address inet_addr sv), r3),
          (Sys_fcntl_getfl fd, flag), (Sys_fcntl_setfl fd (or flag O_NONBLOCK), r4), (Sys_listen fd 2048, r5)] \<and>
    sv' = sv\<lparr>sv_sockfd := fd, sv_address := server_address inet_addr sv\<rparr>"
  using assms
  by (auto simp: server_listen_def CHECK_PERROR_ABT_def set_fd_non_block_result SERVER_MAX_CONNECTION_def io_simps Let_def
      split: if_splits)

lemma server_listen_stop:
  "server_listen os inet_addr sv t = (Stop e, t') \<Longrightarrow> e = Abort_Called"
  by (auto simp: server_listen_def CHECK_PERROR_ABT_def set_fd_non_block_result io_simps Let_def split: if_splits)

section \<open>Properties\<close>

text \<open>A system for the witnesses: sockets and registrations succeed, every \<open>accept\<close> gives the next descriptor.\<close>

definition server_os :: "epoll_event list \<Rightarrow> os" where
  "server_os ready t c = (case c of
      Sys_socket a b p \<Rightarrow> (3, No_Out)
    | Sys_accept fd \<Rightarrow> (1 + fold max (map snd t) 99, Out_Addr \<lparr>sin_family = AF_INET, sin_port = htons 4242, sin_addr = 0x0100007F\<rparr>)
    | _ \<Rightarrow> epoll_kernel ready t c)"

definition demo_server :: tcp_server where
  "demo_server = \<lparr>sv_port = 5555, sv_host = Some ''localhost'', sv_sockfd = 3, sv_connected_num = 0, sv_address = no_address,
     sv_worker_pool = demo_wp\<rparr>"

definition demo_tp :: client_pool where
  "demo_tp = thread_pool_ctor\<lparr>tp_queue_size := 4, tp_work_queue := replicate 4 empty_task\<rparr>"

lemma demo_server_ready: "server_ready demo_server demo_tp"
  by (simp add: server_ready_def demo_server_def demo_tp_def demo_wp_def thread_pool_ctor_def pool_inv_def MAX_QUEUE_def)

text \<open>
  C26. The life of an accepted connection starts in order: for any batch of events of the listening socket, the server
  either aborts or counts exactly the connections it accepted, never more than 2048 in all, and, if the thread pool's
  ring has room for the batch, the tasks for those clients stand at the end of the ring in the order they were accepted.
\<close>

theorem server_batch_accounts:
  assumes "server_ready sv tp" "unat (sv_connected_num sv) \<le> 2048"
    and "each_event (server_on_event os inet_ntoa cores spawn t) evs (sv, tp, ca) tr = (res, tr')"
  shows "\<exists>cs. tr' = tr @ cs \<and> unat (sv_connected_num sv) + length (accepted_fds cs) \<le> 2048 \<and>
    (res = Stop Abort_Called \<or>
     (\<exists>sv' tp' ca'. res = Ret (sv', tp', ca') \<and> server_ready sv' tp' \<and>
        unat (sv_connected_num sv') = unat (sv_connected_num sv) + length (accepted_fds cs) \<and>
        (\<not> tp_shutdown tp \<longrightarrow> tp_work_count tp + int (length evs) \<le> tp_queue_size tp \<longrightarrow>
           map client_of_task (pool_tasks tp') = map client_of_task (pool_tasks tp) @ map Some (accepted_fds cs))))"
  using server_batch [OF assms] unfolding batch_result_def server_counts_def by blast

theorem server_batch_accounts_witness:
  "\<exists>cs res tr'. each_event (server_on_event (server_os []) (\<lambda>a. ''127.0.0.1'') 1 (\<lambda>i. (0, i)) 1)
      [\<lparr>ev_events = EPOLLIN, ev_fd = 3\<rparr>, \<lparr>ev_events = EPOLLIN, ev_fd = 3\<rparr>] (demo_server, demo_tp, no_address) [] = (res, tr') \<and>
    tr' = cs \<and> length (accepted_fds cs) \<le> 2048"
proof -
  let ?run = "each_event (server_on_event (server_os []) (\<lambda>a. ''127.0.0.1'') 1 (\<lambda>i. (0, i)) 1)
      [\<lparr>ev_events = EPOLLIN, ev_fd = 3\<rparr>, \<lparr>ev_events = EPOLLIN, ev_fd = 3\<rparr>] (demo_server, demo_tp, no_address) []"
  obtain res tr' where r: "?run = (res, tr')" by (cases ?run)
  have "unat (sv_connected_num demo_server) \<le> 2048" by (simp add: demo_server_def)
  from server_batch_accounts [OF demo_server_ready this r] r show ?thesis by auto
qed

text \<open>
  C34. The server stops accepting for good: \<open>connected_num_\<close> is never decremented, so once 2048 connections have been
  accepted, however many of them are closed since, no event makes the server call \<open>accept\<close> again, and its state
  does not change any more.
\<close>

theorem server_saturates:
  assumes "sv_connected_num sv = 2048"
  shows "\<exists>cs res. each_event (server_on_event os inet_ntoa cores spawn t) evs (sv, tp, ca) tr = (res, tr @ cs) \<and>
    (\<forall>c \<in> set cs. \<forall>fd. fst c \<noteq> Sys_accept fd) \<and> (res = Ret (sv, tp, ca) \<or> res = Stop Abort_Called)"
  using server_full_batch [OF assms] by blast

theorem server_saturates_witness:
  "\<exists>cs res. each_event (server_on_event (server_os []) (\<lambda>a. []) 1 (\<lambda>i. (0, i)) 1) [\<lparr>ev_events = EPOLLIN, ev_fd = 3\<rparr>]
      (demo_server\<lparr>sv_connected_num := 2048\<rparr>, demo_tp, no_address) [] = (res, [] @ cs) \<and> (\<forall>c \<in> set cs. \<forall>fd. fst c \<noteq> Sys_accept fd)"
  using server_saturates [of "demo_server\<lparr>sv_connected_num := 2048\<rparr>" "server_os []" "\<lambda>a. []" 1 "\<lambda>i. (0, i)" 1
      "[\<lparr>ev_events = EPOLLIN, ev_fd = 3\<rparr>]" demo_tp no_address "[]"] by fastforce

text \<open>
  Start-up either aborts or leaves a listening, non-blocking socket: the calls up to \<open>listen\<close> are exactly the seven
  below, in this order, each checked one has succeeded, the address carries the port in network byte order, and
  \<open>O_NONBLOCK\<close> was added to the socket's flags before \<open>listen\<close>.
\<close>

theorem server_listen_sequence:
  "(\<forall>sv' t'. server_listen os inet_addr sv [] = (Ret sv', t') \<longrightarrow>
     (\<exists>fd r1 r2 r3 flag r4 r5. fd \<noteq> -1 \<and> r3 \<noteq> -1 \<and> flag \<noteq> -1 \<and> r4 \<noteq> -1 \<and> r5 \<noteq> -1 \<and>
      t' = [(Sys_socket AF_INET SOCK_STREAM IPPROTO_TCP, fd), (Sys_setsockopt fd SOL_SOCKET SO_REUSEADDR 1, r1),
          (Sys_setsockopt fd SOL_SOCKET SO_SNDBUF 524288, r2), (Sys_bind fd (server_address inet_addr sv), r3),
          (Sys_fcntl_getfl fd, flag), (Sys_fcntl_setfl fd (or flag O_NONBLOCK), r4), (Sys_listen fd 2048, r5)] \<and>
      sv_sockfd sv' = fd \<and> htons (sin_port (sv_address sv')) = sv_port sv)) \<and>
   (\<forall>e t'. server_listen os inet_addr sv [] = (Stop e, t') \<longrightarrow> e = Abort_Called)"
proof (intro conjI allI impI)
  fix sv' t'
  assume "server_listen os inet_addr sv [] = (Ret sv', t')"
  from server_listen_result [OF this]
  show "\<exists>fd r1 r2 r3 flag r4 r5. fd \<noteq> -1 \<and> r3 \<noteq> -1 \<and> flag \<noteq> -1 \<and> r4 \<noteq> -1 \<and> r5 \<noteq> -1 \<and>
      t' = [(Sys_socket AF_INET SOCK_STREAM IPPROTO_TCP, fd), (Sys_setsockopt fd SOL_SOCKET SO_REUSEADDR 1, r1),
          (Sys_setsockopt fd SOL_SOCKET SO_SNDBUF 524288, r2), (Sys_bind fd (server_address inet_addr sv), r3),
          (Sys_fcntl_getfl fd, flag), (Sys_fcntl_setfl fd (or flag O_NONBLOCK), r4), (Sys_listen fd 2048, r5)] \<and>
      sv_sockfd sv' = fd \<and> htons (sin_port (sv_address sv')) = sv_port sv"
    by (auto simp: server_address_def)
next
  fix e t'
  assume "server_listen os inet_addr sv [] = (Stop e, t')"
  then show "e = Abort_Called" by (rule server_listen_stop)
qed

theorem server_listen_sequence_witness:
  "\<exists>sv' t'. server_listen (server_os []) (\<lambda>h. 0) demo_server [] = (Ret sv', t') \<and> sv_sockfd sv' = 3"
proof -
  obtain sv' t' where r: "server_listen (server_os []) (\<lambda>h. 0) demo_server [] = (Ret sv', t')"
    by (auto simp: server_listen_def CHECK_PERROR_ABT_def set_fd_non_block_result io_simps Let_def server_os_def epoll_kernel_def)
  have "fst (server_os [] [] (Sys_socket AF_INET SOCK_STREAM IPPROTO_TCP)) = 3" by (simp add: server_os_def)
  then have "(Sys_socket AF_INET SOCK_STREAM IPPROTO_TCP, fd) \<in> set t' \<Longrightarrow> fd = 3" for fd
    using r by (auto simp: server_listen_def CHECK_PERROR_ABT_def set_fd_non_block_result io_simps Let_def server_os_def
        epoll_kernel_def)
  moreover obtain fd where "(Sys_socket AF_INET SOCK_STREAM IPPROTO_TCP, fd) \<in> set t'" "sv_sockfd sv' = fd"
    using conjunct1 [OF server_listen_sequence [of "server_os []" "\<lambda>h. 0" demo_server], rule_format, OF r] by auto
  ultimately show ?thesis using r by blast
qed

text \<open>
  How the host argument is resolved: no host, the empty string, \<open>0.0.0.0\<close>, \<open>0\<close> and \<open>*\<close> all listen on every
  interface; \<open>localhost\<close> listens on 127.0.0.1 only, its bytes in network order; any other text is what \<open>inet_addr\<close>
  makes of it.
\<close>

theorem host_resolution:
  "resolve_host inet_addr None = 0 \<and> resolve_host inet_addr (Some []) = 0 \<and> resolve_host inet_addr (Some ''0.0.0.0'') = 0 \<and>
   resolve_host inet_addr (Some ''0'') = 0 \<and> resolve_host inet_addr (Some ''*'') = 0 \<and>
   resolve_host inet_addr (Some ''localhost'') = 0x0100007F \<and>
   (h \<notin> {[], ''0.0.0.0'', ''0'', ''*'', ''localhost''} \<longrightarrow> resolve_host inet_addr (Some h) = inet_addr h)"
  by (simp add: resolve_host_def htonl_def INADDR_ANY_def INADDR_LOOPBACK_def)

theorem host_resolution_witness:
  "resolve_host (\<lambda>h. 0x0100000A) (Some ''10.0.0.1'') = 0x0100000A"
  using host_resolution [of "\<lambda>h. 0x0100000A" "''10.0.0.1''"] by simp

text \<open>
  A server cannot be destroyed: the destructor closes the listening socket, then the poller of every worker exactly once, the last one first, and
  then destroys a mutex that \<open>~worker_lock\<close> has just locked, which is undefined. The workers' threads are not joined before.
\<close>

theorem server_dtor_misuse:
  assumes "wl_mutex (wp_locker (sv_worker_pool sv)) = Mutex_Free"
  shows "\<exists>r cs. tcp_server_dtor os t sv tr = (Stop Mutex_Misuse, tr @ (Sys_close (sv_sockfd sv), r) # cs) \<and>
    map fst cs = map (\<lambda>w. Sys_close (ep_fd (tw_poller w))) (rev (wp_workers (sv_worker_pool sv)))"
proof -
  let ?c = "Sys_close (sv_sockfd sv)"
  let ?t = "tr @ [(?c, fst (os tr ?c))]"
  obtain cs where "each_dtor os (rev (wp_workers (sv_worker_pool sv))) ?t = (Ret (), ?t @ cs)"
    "map fst cs = map (\<lambda>w. Sys_close (ep_fd (tw_poller w))) (rev (wp_workers (sv_worker_pool sv)))"
    using each_dtor_closes by blast
  then show ?thesis using assms
    by (simp add: tcp_server_dtor_def tcp_worker_pool_dtor_def worker_lock_dtor_def call_void_def call_out_def bind_io_def lift_def)
qed

theorem server_dtor_misuse_witness: "\<exists>t'. tcp_server_dtor (server_os []) 0 demo_server [] = (Stop Mutex_Misuse, t')"
  using server_dtor_misuse [of demo_server "server_os []" 0 "[]"] by (auto simp: demo_server_def demo_wp_def worker_lock_ctor_def)

end
