(* ===== verification/Thread_Pool_Threads.thy ===== *)
theory Thread_Pool_Threads
  imports Thread_Pool "HOL-Library.Multiset"
begin

text \<open>
  \<open>thread_pool.cpp\<close>, the threads: \<open>create\<close> starting them one by one, the steps of \<open>thread_routine\<close>, clients
  that call \<open>submit\<close>, and one caller of \<open>shutdown\<close>, interleaved in any order.

  A state holds the pool, one program counter per thread created so far, the phase of the pool's owner,
  and the observations the properties need: the number in each thread's name, the processors it was bound
  to, the tasks accepted, taken and run. A step of \<open>thread_routine\<close> is what the thread does between two
  points where another thread can interfere: each atomic counter operation, taking the lock, and everything
  done under the lock, which ends by releasing it. The calls \<open>submit\<close> and \<open>shutdown_interval\<close> run under
  the lock from their start to their end and are one step, enabled when the lock is free; they are the
  definitions of \<open>Thread_Pool\<close> with successful pthread calls. \<open>pthread_cond_signal\<close> wakes one waiter if
  there is one, \<open>pthread_cond_broadcast\<close> all, and a waiter may also wake spuriously.
\<close>

section \<open>State\<close>

datatype ('f, 'a) tpc =
    Spawned      \<comment> \<open>created, has not run yet (line 177)\<close>
  | Counted      \<comment> \<open>past \<open>started_num_++\<close> (line 182)\<close>
  | Named        \<comment> \<open>past \<open>thread_count_++\<close> (line 183)\<close>
  | At_Lock      \<comment> \<open>about to lock (line 192), or woken and about to lock again (line 195)\<close>
  | At_Check     \<comment> \<open>holds the lock, at the loop's condition (line 193)\<close>
  | Waiting      \<comment> \<open>blocked in \<open>pthread_cond_wait\<close> (line 195)\<close>
  | Has_Task "('f, 'a) thread_pool_task"  \<comment> \<open>has released the lock, about to run (line 222)\<close>
  | Exited       \<comment> \<open>after \<open>break\<close> (lines 202, 209)\<close>

datatype owner =
    Creating           \<comment> \<open>in the loop of \<open>create\<close>\<close>
  | Serving            \<comment> \<open>\<open>create\<close> has returned 0\<close>
  | Joining nat        \<comment> \<open>in the loop of \<open>shutdown_interval\<close>, at this index (line 162)\<close>
  | Deleted "int outcome"  \<comment> \<open>the pool is deleted; what \<open>free_resource\<close> did\<close>

fun in_service :: "owner \<Rightarrow> bool" where
  "in_service Serving = True"
| "in_service (Joining k) = True"
| "in_service w = False"

record ('f, 'a) pool_sys =
  sy_pool :: "('f, 'a) thread_pool"
  sy_pcs :: "('f, 'a) tpc list"
  sy_owner :: owner
  sy_names :: "(nat \<times> int) list"
  sy_bound :: "(nat \<times> int set) list"
  sy_accepted :: "('f, 'a) thread_pool_task list"
  sy_taken :: "('f, 'a) thread_pool_task list"
  sy_ran :: "('f, 'a) thread_pool_task list"

fun wake_up :: "('f, 'a) tpc \<Rightarrow> ('f, 'a) tpc" where
  "wake_up Waiting = At_Lock"
| "wake_up pc = pc"

abbreviation set_pc :: "nat \<Rightarrow> ('f, 'a) tpc \<Rightarrow> ('f, 'a) pool_sys \<Rightarrow> ('f, 'a) pool_sys" where
  "set_pc i pc s \<equiv> s\<lparr>sy_pcs := (sy_pcs s)[i := pc]\<rparr>"

abbreviation at_pc :: "('f, 'a) pool_sys \<Rightarrow> nat \<Rightarrow> ('f, 'a) tpc \<Rightarrow> bool" where
  "at_pc s i pc \<equiv> i < length (sy_pcs s) \<and> sy_pcs s ! i = pc"

section \<open>The steps of thread\_routine\<close>

definition routine_count :: "nat \<Rightarrow> ('f, 'a) pool_sys \<Rightarrow> ('f, 'a) pool_sys" where
  "routine_count i s = (set_pc i Counted s)\<lparr>sy_pool := (sy_pool s)\<lparr>tp_started_num := tp_started_num (sy_pool s) + 1\<rparr>\<rparr>"

definition routine_name :: "nat \<Rightarrow> ('f, 'a) pool_sys \<Rightarrow> ('f, 'a) pool_sys" where
  "routine_name i s = (set_pc i Named s)
     \<lparr>sy_pool := (sy_pool s)\<lparr>tp_thread_count := tp_thread_count (sy_pool s) + 1\<rparr>,
      sy_names := sy_names s @ [(i, sint (tp_thread_count (sy_pool s)))]\<rparr>"

definition routine_bind :: "nat \<Rightarrow> ('f, 'a) pool_sys \<Rightarrow> ('f, 'a) pool_sys" where
  "routine_bind i s = (set_pc i At_Lock s)\<lparr>sy_bound := sy_bound s @ [(i, tp_mask (sy_pool s))]\<rparr>"

definition routine_lock :: "nat \<Rightarrow> ('f, 'a) pool_sys \<Rightarrow> ('f, 'a) pool_sys outcome" where
  "routine_lock i s =
     bind_outcome (mutex_lock i (tp_lock (sy_pool s))) (\<lambda>m.
     Ret ((set_pc i At_Check s)\<lparr>sy_pool := (sy_pool s)\<lparr>tp_lock := m\<rparr>\<rparr>))"

text \<open>
  Holding the lock: wait while there is nothing to do, leave when the pool is shut down (whatever the
  mode: lines 198 to 210), otherwise take a task.
\<close>

definition routine_locked :: "nat \<Rightarrow> ('f, 'a) pool_sys \<Rightarrow> ('f, 'a) pool_sys outcome" where
  "routine_locked i s =
     (let p = sy_pool s in
      if \<not> tp_shutdown p \<and> tp_work_count p = 0 then
        bind_outcome (mutex_unlock i (tp_lock p)) (\<lambda>m. Ret ((set_pc i Waiting s)\<lparr>sy_pool := p\<lparr>tp_lock := m\<rparr>\<rparr>))
      else if tp_shutdown p then
        (if tp_shutdown_mode p = IMMEDIATE_SHUTDOWN then
           bind_outcome (mutex_unlock i (tp_lock p)) (\<lambda>m.
             Ret ((set_pc i Exited s)\<lparr>sy_pool := p\<lparr>tp_started_num := tp_started_num p - 1, tp_lock := m\<rparr>\<rparr>))
         else
           bind_outcome (mutex_unlock i (tp_lock p)) (\<lambda>m.
             Ret ((set_pc i Exited s)\<lparr>sy_pool := p\<lparr>tp_started_num := tp_started_num p - 1, tp_lock := m\<rparr>\<rparr>)))
      else
        bind_outcome (thread_pool_take p) (\<lambda>(task, p').
        bind_outcome (mutex_unlock i (tp_lock p')) (\<lambda>m.
          Ret ((set_pc i (Has_Task task) s)\<lparr>sy_pool := p'\<lparr>tp_lock := m\<rparr>, sy_taken := sy_taken s @ [task]\<rparr>))))"

definition routine_run :: "nat \<Rightarrow> ('f, 'a) thread_pool_task \<Rightarrow> ('f, 'a) pool_sys \<Rightarrow> ('f, 'a) pool_sys outcome" where
  "routine_run i task s =
     bind_outcome (thread_pool_task_run task) (\<lambda>c. Ret ((set_pc i At_Lock s)\<lparr>sy_ran := sy_ran s @ [task]\<rparr>))"

section \<open>The step relation\<close>

text \<open>
  \<open>cores\<close> and \<open>spawn\<close> are the arguments of \<open>create\<close>, whose loop body is one step per thread. When a thread cannot be created the loop ends
  with -1 and the owner goes on with the threads there are (\<open>create_fails\<close>): nobody in the program tests what \<open>create\<close> returns.
\<close>

inductive pool_step ::
  "int \<Rightarrow> (nat \<Rightarrow> int \<times> nat) \<Rightarrow> ('f, 'a) pool_sys \<Rightarrow> ('f, 'a) pool_sys \<Rightarrow> bool"
  for cores :: int and spawn :: "nat \<Rightarrow> int \<times> nat" where
  spawn: "sy_owner s = Creating \<Longrightarrow> length (sy_pcs s) < length (tp_threads (sy_pool s)) \<Longrightarrow>
    thread_pool_create_loop cores spawn (length (sy_pcs s)) 1 (sy_pool s) = Ret (0, p') \<Longrightarrow>
    pool_step cores spawn s (s\<lparr>sy_pool := p', sy_pcs := sy_pcs s @ [Spawned]\<rparr>)"
| create_fails: "sy_owner s = Creating \<Longrightarrow> length (sy_pcs s) < length (tp_threads (sy_pool s)) \<Longrightarrow>
    thread_pool_create_loop cores spawn (length (sy_pcs s)) 1 (sy_pool s) = Ret (-1, p') \<Longrightarrow>
    pool_step cores spawn s (s\<lparr>sy_pool := p', sy_owner := Serving\<rparr>)"
| created: "sy_owner s = Creating \<Longrightarrow> length (sy_pcs s) = length (tp_threads (sy_pool s)) \<Longrightarrow>
    pool_step cores spawn s (s\<lparr>sy_owner := Serving\<rparr>)"
| count: "at_pc s i Spawned \<Longrightarrow> pool_step cores spawn s (routine_count i s)"
| name: "at_pc s i Counted \<Longrightarrow> pool_step cores spawn s (routine_name i s)"
| bind: "at_pc s i Named \<Longrightarrow> pool_step cores spawn s (routine_bind i s)"
| lock: "at_pc s i At_Lock \<Longrightarrow> routine_lock i s = Ret s' \<Longrightarrow> pool_step cores spawn s s'"
| locked: "at_pc s i At_Check \<Longrightarrow> routine_locked i s = Ret s' \<Longrightarrow> pool_step cores spawn s s'"
| wakeup: "at_pc s i Waiting \<Longrightarrow> pool_step cores spawn s (set_pc i At_Lock s)"
| run: "at_pc s i (Has_Task task) \<Longrightarrow> routine_run i task s = Ret s' \<Longrightarrow> pool_step cores spawn s s'"
| submit_signal: "in_service (sy_owner s) \<Longrightarrow>
    thread_pool_submit c 0 0 0 args func (sy_pool s) = Ret (0, True, p') \<Longrightarrow> at_pc s i Waiting \<Longrightarrow>
    pool_step cores spawn s ((set_pc i At_Lock s)\<lparr>sy_pool := p',
      sy_accepted := sy_accepted s @ [\<lparr>task_fun = func, task_args = args\<rparr>]\<rparr>)"
| submit_nobody: "in_service (sy_owner s) \<Longrightarrow>
    thread_pool_submit c 0 0 0 args func (sy_pool s) = Ret (0, True, p') \<Longrightarrow> Waiting \<notin> set (sy_pcs s) \<Longrightarrow>
    pool_step cores spawn s (s\<lparr>sy_pool := p',
      sy_accepted := sy_accepted s @ [\<lparr>task_fun = func, task_args = args\<rparr>]\<rparr>)"
| submit_refused: "in_service (sy_owner s) \<Longrightarrow>
    thread_pool_submit c 0 0 0 args func (sy_pool s) = Ret (err, False, p') \<Longrightarrow>
    pool_step cores spawn s (s\<lparr>sy_pool := p'\<rparr>)"
| shutdown: "sy_owner s = Serving \<Longrightarrow>
    shutdown_interval_begin c 0 0 0 mode (sy_pool s) = Ret (0, True, p') \<Longrightarrow>
    pool_step cores spawn s (s\<lparr>sy_pool := p', sy_pcs := map wake_up (sy_pcs s), sy_owner := Joining 0\<rparr>)"
| join: "sy_owner s = Joining k \<Longrightarrow> int k < sint (tp_thread_count (sy_pool s)) \<Longrightarrow> at_pc s k Exited \<Longrightarrow>
    pool_step cores spawn s (s\<lparr>sy_owner := Joining (Suc k)\<rparr>)"
| delete: "sy_owner s = Joining k \<Longrightarrow> \<not> int k < sint (tp_thread_count (sy_pool s)) \<Longrightarrow>
    pool_step cores spawn s
      (s\<lparr>sy_owner := Deleted (bind_outcome (free_resource c (sy_pool s)) (\<lambda>(rc, p'). Ret rc))\<rparr>)"

text \<open>
  The start: \<open>create\<close> on a new pool, with its arguments clamped and its fields reset, about to create the
  first thread. It is what \<open>thread_pool_create\<close> computes before its loop.
\<close>

definition create_prepare :: "int \<Rightarrow> int \<Rightarrow> int \<Rightarrow> ('f, 'a) thread_pool \<Rightarrow> ('f, 'a) thread_pool" where
  "create_prepare cores thread_count queue_size p =
     (let n = coerce_in thread_count cores MAX_THREADS;
          qs = coerce_in queue_size 1024 MAX_QUEUE
      in p\<lparr>tp_queue_size := qs, tp_thread_count := 0,
           tp_threads := vec_resize (nat n) 0 (tp_threads p),
           tp_work_queue := vec_resize (nat qs) empty_task (tp_work_queue p),
           tp_curr := 0, tp_tail := 0, tp_work_count := 0, tp_started_num := 0\<rparr>)"

lemma create_prepare_loop:
  "thread_pool_create cores spawn tc qs p =
     thread_pool_create_loop cores spawn 0 (nat (coerce_in tc cores MAX_THREADS)) (create_prepare cores tc qs p)"
  by (simp add: thread_pool_create_def create_prepare_def Let_def)

definition sys_of :: "('f, 'a) thread_pool \<Rightarrow> ('f, 'a) pool_sys" where
  "sys_of p = \<lparr>sy_pool = p, sy_pcs = [], sy_owner = Creating, sy_names = [], sy_bound = [],
               sy_accepted = [], sy_taken = [], sy_ran = []\<rparr>"

definition pool_init :: "int \<Rightarrow> ('f, 'a) pool_sys \<Rightarrow> bool" where
  "pool_init cores s \<longleftrightarrow> 1 \<le> cores \<and> cores \<le> MAX_THREADS \<and>
     (\<exists>tc qs. s = sys_of (create_prepare cores tc qs thread_pool_ctor))"

abbreviation pool_reach where
  "pool_reach cores spawn \<equiv> reach (pool_init cores) (pool_step cores spawn)"

lemmas routine_defs = routine_count_def routine_name_def routine_bind_def routine_lock_def routine_locked_def
  routine_run_def

section \<open>Each step, spelt out\<close>

text \<open>
  On a state whose ring is well formed and whose lock belongs to the thread at its check, every step is
  one of these updates.
\<close>

definition lock_inv :: "('f, 'a) pool_sys \<Rightarrow> bool" where
  "lock_inv s \<longleftrightarrow> tp_lock (sy_pool s) \<noteq> Mutex_Destroyed \<and>
     (\<forall>i. at_pc s i At_Check \<longleftrightarrow> tp_lock (sy_pool s) = Mutex_Held i)"

lemma lock_Free_update [simp]: "tp_lock p = Mutex_Free \<Longrightarrow> p\<lparr>tp_lock := Mutex_Free\<rparr> = p"
  by (cases p) simp

lemma create_one:
  assumes "thread_pool_create_loop cores spawn i 1 p = Ret (0, p')"
  shows "\<exists>m ts. p' = p\<lparr>tp_mask := m, tp_threads := ts\<rparr> \<and> length ts = length (tp_threads p) \<and>
     (\<exists>cpu. c_rem (int i) cores = Ret cpu \<and> m = cpu_set_of cpu) \<and> fst (spawn i) = 0"
  using assms
  by (auto simp: bind_outcome_eq_Ret Let_def vec_put_at_def split: if_splits)

lemma create_none:
  assumes "thread_pool_create_loop cores spawn i 1 p = Ret (-1, p')"
  shows "fst (spawn i) \<noteq> 0 \<and> (\<exists>cpu. c_rem (int i) cores = Ret cpu \<and> p' = p\<lparr>tp_mask := cpu_set_of cpu\<rparr>)"
  using assms
  by (auto simp: bind_outcome_eq_Ret Let_def split: if_splits)

lemma submit_explicit:
  assumes "pool_inv p" "thread_pool_submit c 0 0 0 args func p = Ret (err, woken, p')"
  shows "tp_lock p = Mutex_Free \<and>
     (if pool_room p then err = 0 \<and> woken \<and> p' = pool_put \<lparr>task_fun = func, task_args = args\<rparr> p
      else err \<noteq> 0 \<and> \<not> woken \<and> p' = p)"
  using submit_stores [OF assms(1), of c 0 0 args func] submit_refuses [of p c 0 args func] assms(2)
  by (cases "tp_lock p") (auto simp: thread_pool_submit_def threadpool_codes Let_def split: if_splits)

lemma locked_explicit:
  assumes "routine_locked i s = Ret s'" "lock_inv s" "pool_inv (sy_pool s)" "at_pc s i At_Check"
  shows "tp_lock (sy_pool s) = Mutex_Held i \<and>
     (if tp_shutdown (sy_pool s) then
        s' = (set_pc i Exited s)\<lparr>sy_pool := (sy_pool s)\<lparr>tp_started_num := tp_started_num (sy_pool s) - 1,
               tp_lock := Mutex_Free\<rparr>\<rparr>
      else if tp_work_count (sy_pool s) = 0 then
        s' = (set_pc i Waiting s)\<lparr>sy_pool := (sy_pool s)\<lparr>tp_lock := Mutex_Free\<rparr>\<rparr>
      else \<exists>task. pool_tasks (sy_pool s) = task # pool_tasks (pool_drop (sy_pool s)) \<and>
        s' = (set_pc i (Has_Task task) s)\<lparr>sy_pool := (pool_drop (sy_pool s))\<lparr>tp_lock := Mutex_Free\<rparr>,
               sy_taken := sy_taken s @ [task]\<rparr>)"
proof -
  have held: "tp_lock (sy_pool s) = Mutex_Held i" "tp_lock (pool_drop (sy_pool s)) = Mutex_Held i"
    using assms(2,4) by (simp_all add: lock_inv_def pool_drop_def)
  then show ?thesis
    using assms(1) pool_tasks_Cons [OF assms(3)]
    by (auto simp: routine_locked_def Let_def take_drop_head [OF assms(3)] split: if_splits)
qed

lemma pool_step_explicit [consumes 3, case_names spawn failed created count name bind lock wait exit take wakeup
    run submit_signal submit_nobody submit_refused shutdown join delete]:
  assumes "pool_step cores spawn s s'" "lock_inv s" "pool_inv (sy_pool s)"
  obtains
    ts cpu where "sy_owner s = Creating" "length (sy_pcs s) < length (tp_threads (sy_pool s))"
      "length ts = length (tp_threads (sy_pool s))" "c_rem (int (length (sy_pcs s))) cores = Ret cpu" "fst (spawn (length (sy_pcs s))) = 0"
      "s' = s\<lparr>sy_pool := (sy_pool s)\<lparr>tp_mask := cpu_set_of cpu, tp_threads := ts\<rparr>, sy_pcs := sy_pcs s @ [Spawned]\<rparr>"
  | cpu where "sy_owner s = Creating" "length (sy_pcs s) < length (tp_threads (sy_pool s))"
      "c_rem (int (length (sy_pcs s))) cores = Ret cpu" "fst (spawn (length (sy_pcs s))) \<noteq> 0"
      "s' = s\<lparr>sy_pool := (sy_pool s)\<lparr>tp_mask := cpu_set_of cpu\<rparr>, sy_owner := Serving\<rparr>"
  | "sy_owner s = Creating" "length (sy_pcs s) = length (tp_threads (sy_pool s))" "s' = s\<lparr>sy_owner := Serving\<rparr>"
  | i where "at_pc s i Spawned" "s' = routine_count i s"
  | i where "at_pc s i Counted" "s' = routine_name i s"
  | i where "at_pc s i Named" "s' = routine_bind i s"
  | i where "at_pc s i At_Lock" "tp_lock (sy_pool s) = Mutex_Free"
      "s' = (set_pc i At_Check s)\<lparr>sy_pool := (sy_pool s)\<lparr>tp_lock := Mutex_Held i\<rparr>\<rparr>"
  | i where "at_pc s i At_Check" "tp_lock (sy_pool s) = Mutex_Held i" "\<not> tp_shutdown (sy_pool s)"
      "tp_work_count (sy_pool s) = 0"
      "s' = (set_pc i Waiting s)\<lparr>sy_pool := (sy_pool s)\<lparr>tp_lock := Mutex_Free\<rparr>\<rparr>"
  | i where "at_pc s i At_Check" "tp_lock (sy_pool s) = Mutex_Held i" "tp_shutdown (sy_pool s)"
      "s' = (set_pc i Exited s)\<lparr>sy_pool := (sy_pool s)\<lparr>tp_started_num := tp_started_num (sy_pool s) - 1,
              tp_lock := Mutex_Free\<rparr>\<rparr>"
  | i task where "at_pc s i At_Check" "tp_lock (sy_pool s) = Mutex_Held i" "\<not> tp_shutdown (sy_pool s)"
      "tp_work_count (sy_pool s) \<noteq> 0" "pool_tasks (sy_pool s) = task # pool_tasks (pool_drop (sy_pool s))"
      "s' = (set_pc i (Has_Task task) s)\<lparr>sy_pool := (pool_drop (sy_pool s))\<lparr>tp_lock := Mutex_Free\<rparr>,
              sy_taken := sy_taken s @ [task]\<rparr>"
  | i where "at_pc s i Waiting" "s' = set_pc i At_Lock s"
  | i task where "at_pc s i (Has_Task task)" "task_fun task \<noteq> None"
      "s' = (set_pc i At_Lock s)\<lparr>sy_ran := sy_ran s @ [task]\<rparr>"
  | i x where "in_service (sy_owner s)" "tp_lock (sy_pool s) = Mutex_Free" "pool_room (sy_pool s)" "at_pc s i Waiting"
      "s' = (set_pc i At_Lock s)\<lparr>sy_pool := pool_put x (sy_pool s), sy_accepted := sy_accepted s @ [x]\<rparr>"
  | x where "in_service (sy_owner s)" "tp_lock (sy_pool s) = Mutex_Free" "pool_room (sy_pool s)"
      "Waiting \<notin> set (sy_pcs s)"
      "s' = s\<lparr>sy_pool := pool_put x (sy_pool s), sy_accepted := sy_accepted s @ [x]\<rparr>"
  | "in_service (sy_owner s)" "tp_lock (sy_pool s) = Mutex_Free" "\<not> pool_room (sy_pool s)" "s' = s"
  | mode where "sy_owner s = Serving" "tp_lock (sy_pool s) = Mutex_Free" "\<not> tp_shutdown (sy_pool s)"
      "s' = s\<lparr>sy_pool := (sy_pool s)\<lparr>tp_shutdown_mode := mode, tp_shutdown := True\<rparr>,
              sy_pcs := map wake_up (sy_pcs s), sy_owner := Joining 0\<rparr>"
  | k where "sy_owner s = Joining k" "int k < sint (tp_thread_count (sy_pool s))" "at_pc s k Exited"
      "s' = s\<lparr>sy_owner := Joining (Suc k)\<rparr>"
  | k c where "sy_owner s = Joining k" "\<not> int k < sint (tp_thread_count (sy_pool s))"
      "s' = s\<lparr>sy_owner := Deleted (bind_outcome (free_resource c (sy_pool s)) (\<lambda>(rc, p'). Ret rc))\<rparr>"
  using assms(1)
proof (cases rule: pool_step.cases)
  case (spawn p')
  then show ?thesis using create_one [OF spawn(4)] that(1) by (auto simp only:)
next
  case (create_fails p')
  then show ?thesis using create_none [OF create_fails(4)] that(2) by blast
next
  case created
  then show ?thesis using that(3) by blast
next
  case (count i)
  then show ?thesis using that(4) by blast
next
  case (name i)
  then show ?thesis using that(5) by blast
next
  case (bind i)
  then show ?thesis using that(6) by blast
next
  case (lock i)
  then show ?thesis using that(7) by (auto simp: routine_lock_def bind_outcome_eq_Ret mutex_lock_Ret_iff)
next
  case (locked i)
  then show ?thesis using locked_explicit [OF locked(2) assms(2,3) locked(1)] that(8,9,10)
    by (auto split: if_splits)
next
  case (wakeup i)
  then show ?thesis using that(11) by blast
next
  case (run i task)
  then show ?thesis using that(12) [of i task]
    by (auto simp: routine_run_def thread_pool_task_run_def split: option.splits)
next
  case (submit_signal c args func p' i)
  then show ?thesis using submit_explicit [OF assms(3) submit_signal(3)] that(13) by (auto split: if_splits)
next
  case (submit_nobody c args func p')
  then show ?thesis using submit_explicit [OF assms(3) submit_nobody(3)] that(14) by (auto split: if_splits)
next
  case (submit_refused c args func err p')
  then show ?thesis using submit_explicit [OF assms(3) submit_refused(3)] that(15) by (auto split: if_splits)
next
  case (shutdown c mode p')
  then show ?thesis using that(16) [of mode]
    by (auto simp: shutdown_interval_begin_def bind_outcome_eq_Ret mutex_lock_Ret_iff Let_def threadpool_codes
        split: if_splits)
next
  case (join k)
  then show ?thesis using that(17) by blast
next
  case (delete k c)
  then show ?thesis using that(18) by blast
qed

section \<open>The invariant\<close>

fun live_pc :: "('f, 'a) tpc \<Rightarrow> bool" where
  "live_pc Spawned = False"
| "live_pc Exited = False"
| "live_pc pc = True"

fun named_pc :: "('f, 'a) tpc \<Rightarrow> bool" where
  "named_pc Spawned = False"
| "named_pc Counted = False"
| "named_pc pc = True"

text \<open>A thread that will look at the ring again without being woken.\<close>

fun contender :: "('f, 'a) tpc \<Rightarrow> bool" where
  "contender Waiting = False"
| "contender (Has_Task t) = False"
| "contender Exited = False"
| "contender pc = True"

fun held_task :: "('f, 'a) tpc \<Rightarrow> ('f, 'a) thread_pool_task multiset" where
  "held_task (Has_Task t) = {#t#}"
| "held_task pc = {#}"

definition held_tasks :: "('f, 'a) tpc list \<Rightarrow> ('f, 'a) thread_pool_task multiset" where
  "held_tasks pcs = sum_list (map held_task pcs)"

lemma held_tasks_simps [simp]:
  "held_tasks [] = {#}" "held_tasks (pc # pcs) = held_task pc + held_tasks pcs"
  "held_tasks (pcs @ pcs') = held_tasks pcs + held_tasks pcs'"
  by (simp_all add: held_tasks_def)

lemma held_tasks_update:
  "i < length pcs \<Longrightarrow> held_tasks (pcs[i := pc]) + held_task (pcs ! i) = held_tasks pcs + held_task pc"
proof (induction pcs arbitrary: i)
  case Nil
  then show ?case by simp
next
  case (Cons x pcs)
  then show ?case by (cases i) (simp_all add: ac_simps)
qed

lemma wake_up_pc [simp]:
  "live_pc (wake_up pc) = live_pc pc" "named_pc (wake_up pc) = named_pc pc" "held_task (wake_up pc) = held_task pc"
  "wake_up pc \<noteq> Waiting" "wake_up pc = At_Check \<longleftrightarrow> pc = At_Check" "wake_up pc = Exited \<longleftrightarrow> pc = Exited"
  by (cases pc; simp)+

lemma wake_up_lists [simp]:
  "count_if live_pc (map wake_up pcs) = count_if live_pc pcs"
  "count_if named_pc (map wake_up pcs) = count_if named_pc pcs"
  "held_tasks (map wake_up pcs) = held_tasks pcs"
  by (induction pcs) simp_all

definition shape_inv :: "('f, 'a) pool_sys \<Rightarrow> bool" where
  "shape_inv s \<longleftrightarrow> pool_inv (sy_pool s) \<and> int (length (tp_threads (sy_pool s))) \<le> MAX_THREADS \<and>
     length (sy_pcs s) \<le> length (tp_threads (sy_pool s))"

definition count_inv :: "('f, 'a) pool_sys \<Rightarrow> bool" where
  "count_inv s \<longleftrightarrow> tp_thread_count (sy_pool s) = of_nat (count_if named_pc (sy_pcs s)) \<and>
     tp_started_num (sy_pool s) = of_nat (count_if live_pc (sy_pcs s)) \<and>
     map snd (sy_names s) = map int [0..<count_if named_pc (sy_pcs s)]"

definition sleep_inv :: "('f, 'a) pool_sys \<Rightarrow> bool" where
  "sleep_inv s \<longleftrightarrow> (Waiting \<in> set (sy_pcs s) \<longrightarrow>
     \<not> tp_shutdown (sy_pool s) \<and> tp_work_count (sy_pool s) \<le> int (count_if contender (sy_pcs s)))"

definition task_inv :: "('f, 'a) pool_sys \<Rightarrow> bool" where
  "task_inv s \<longleftrightarrow> sy_accepted s = sy_taken s @ pool_tasks (sy_pool s) \<and>
     mset (sy_taken s) = mset (sy_ran s) + held_tasks (sy_pcs s)"

definition owner_inv :: "('f, 'a) pool_sys \<Rightarrow> bool" where
  "owner_inv s \<longleftrightarrow> (tp_shutdown (sy_pool s) \<longleftrightarrow> (\<exists>k. sy_owner s = Joining k) \<or> (\<exists>r. sy_owner s = Deleted r)) \<and>
     (Exited \<in> set (sy_pcs s) \<longrightarrow> tp_shutdown (sy_pool s)) \<and>
     (\<forall>k. sy_owner s = Joining k \<longrightarrow> (\<forall>j < k. at_pc s j Exited))"

definition sys_inv :: "('f, 'a) pool_sys \<Rightarrow> bool" where
  "sys_inv s \<longleftrightarrow> shape_inv s \<and> lock_inv s \<and> count_inv s \<and> sleep_inv s \<and> task_inv s \<and> owner_inv s"

lemma pool_put_fields [simp]:
  "tp_lock (pool_put x p) = tp_lock p" "tp_threads (pool_put x p) = tp_threads p"
  "tp_thread_count (pool_put x p) = tp_thread_count p" "tp_started_num (pool_put x p) = tp_started_num p"
  "tp_shutdown (pool_put x p) = tp_shutdown p" "tp_queue_size (pool_put x p) = tp_queue_size p"
  "tp_work_count (pool_put x p) = tp_work_count p + 1"
  by (simp_all add: pool_put_def)

lemma pool_drop_fields [simp]:
  "tp_lock (pool_drop p) = tp_lock p" "tp_threads (pool_drop p) = tp_threads p"
  "tp_thread_count (pool_drop p) = tp_thread_count p" "tp_started_num (pool_drop p) = tp_started_num p"
  "tp_shutdown (pool_drop p) = tp_shutdown p" "tp_queue_size (pool_drop p) = tp_queue_size p"
  "tp_work_count (pool_drop p) = tp_work_count p - 1"
  by (simp_all add: pool_drop_def)

lemma pool_frames [simp]:
  "pool_inv (p\<lparr>tp_thread_count := a\<rparr>) = pool_inv p" "pool_inv (p\<lparr>tp_started_num := a\<rparr>) = pool_inv p"
  "pool_inv (p\<lparr>tp_shutdown_mode := m, tp_shutdown := b\<rparr>) = pool_inv p"
  "pool_tasks (p\<lparr>tp_thread_count := a\<rparr>) = pool_tasks p" "pool_tasks (p\<lparr>tp_started_num := a\<rparr>) = pool_tasks p"
  "pool_tasks (p\<lparr>tp_shutdown_mode := m, tp_shutdown := b\<rparr>) = pool_tasks p"
  by (simp_all add: pool_inv_def pool_tasks_def ring_slot_def)

lemma set_update_other: "x \<in> set (xs[i := y]) \<Longrightarrow> x \<noteq> y \<Longrightarrow> x \<in> set xs"
  using set_update_subset_insert [of xs i y] by auto

lemma step_shape:
  assumes "pool_step cores spawn s s'" "lock_inv s" "shape_inv s"
  shows "shape_inv s'"
proof -
  have inv: "pool_inv (sy_pool s)" using assms(3) by (simp add: shape_inv_def)
  have put: "pool_room (sy_pool s) \<Longrightarrow> pool_inv (pool_put x (sy_pool s))" for x
    using inv by (simp add: pool_room_def pool_put_inv)
  have drop: "tp_work_count (sy_pool s) \<noteq> 0 \<Longrightarrow> pool_inv (pool_drop (sy_pool s))"
    using inv by (simp add: pool_drop_inv)
  show ?thesis
    using assms(1,2) inv
    by (cases rule: pool_step_explicit)
      (use assms(3) put drop in \<open>auto simp: shape_inv_def routine_count_def routine_name_def routine_bind_def\<close>)
qed

lemma shape_inv_ring: "shape_inv s \<Longrightarrow> pool_inv (sy_pool s)"
  by (simp add: shape_inv_def)

text \<open>How a step can change who holds the lock.\<close>

lemma lock_inv_keep:
  assumes "lock_inv s" "tp_lock (sy_pool s') = tp_lock (sy_pool s)" "length (sy_pcs s') \<ge> length (sy_pcs s)"
    and "\<And>j. at_pc s' j At_Check \<longleftrightarrow> at_pc s j At_Check"
  shows "lock_inv s'"
  using assms by (simp add: lock_inv_def)

lemma lock_inv_take:
  assumes "lock_inv s" "tp_lock (sy_pool s) = Mutex_Free" "i < length (sy_pcs s)"
    and "sy_pcs s' = (sy_pcs s)[i := At_Check]" "tp_lock (sy_pool s') = Mutex_Held i"
  shows "lock_inv s'"
proof -
  have "\<not> at_pc s j At_Check" for j using assms(1,2) by (simp add: lock_inv_def)
  then have "at_pc s' j At_Check \<longleftrightarrow> i = j" for j using assms(3,4) by (auto simp: nth_list_update)
  with assms(5) show ?thesis by (simp add: lock_inv_def)
qed

lemma lock_inv_release:
  assumes "lock_inv s" "tp_lock (sy_pool s) = Mutex_Held i" "pc \<noteq> At_Check"
    and "sy_pcs s' = (sy_pcs s)[i := pc]" "tp_lock (sy_pool s') = Mutex_Free"
  shows "lock_inv s'"
proof -
  have "at_pc s j At_Check \<Longrightarrow> j = i" for j using assms(1,2) by (simp add: lock_inv_def)
  then have "\<not> at_pc s' j At_Check" for j using assms(3,4) by (cases "i = j") auto
  with assms(5) show ?thesis by (simp add: lock_inv_def)
qed

lemma at_check_update:
  "i < length pcs \<Longrightarrow> pcs ! i \<noteq> At_Check \<Longrightarrow> pc \<noteq> At_Check \<Longrightarrow>
     (j < length pcs \<and> pcs[i := pc] ! j = At_Check) = (j < length pcs \<and> pcs ! j = At_Check)"
  by (auto simp: nth_list_update)

lemma step_lock:
  assumes "pool_step cores spawn s s'" "lock_inv s" "shape_inv s"
  shows "lock_inv s'"
  using assms(1,2) shape_inv_ring [OF assms(3)]
proof (cases rule: pool_step_explicit)
  case (spawn ts cpu)
  then show ?thesis by (intro lock_inv_keep [OF assms(2)]) (auto simp: nth_append)
next
  case (lock i)
  then show ?thesis by (intro lock_inv_take [OF assms(2), of i]) simp_all
next
  case (wait i)
  then show ?thesis by (intro lock_inv_release [OF assms(2), of i Waiting]) simp_all
next
  case (exit i)
  then show ?thesis by (intro lock_inv_release [OF assms(2), of i Exited]) simp_all
next
  case (take i task)
  then show ?thesis by (intro lock_inv_release [OF assms(2), of i "Has_Task task"]) simp_all
next
  case (shutdown mode)
  then show ?thesis by (intro lock_inv_keep [OF assms(2)]) auto
qed (rule lock_inv_keep [OF assms(2)];
  simp add: routine_count_def routine_name_def routine_bind_def at_check_update)+

lemma shape_count_bound:
  assumes "shape_inv s"
  shows "count_if P (sy_pcs s) \<le> 1024"
proof -
  have "count_if P (sy_pcs s) \<le> length (sy_pcs s)" by (rule count_if_le_length)
  with assms show ?thesis by (simp add: shape_inv_def MAX_THREADS_def)
qed

lemma sint_small: "n \<le> 1024 \<Longrightarrow> sint (of_nat n :: 16 word) = int n"
  by (simp add: signed_of_nat signed_take_bit_int_eq_self)

lemma step_count:
  assumes "pool_step cores spawn s s'" "lock_inv s" "shape_inv s" "count_inv s"
  shows "count_inv s'"
proof -
  have small: "sint (of_nat (count_if named_pc (sy_pcs s)) :: 16 word) = int (count_if named_pc (sy_pcs s))"
    by (rule sint_small) (rule shape_count_bound [OF assms(3)])
  show ?thesis
    using assms(1,2) shape_inv_ring [OF assms(3)]
  proof (cases rule: pool_step_explicit)
    case (exit i)
    have "Suc (count_if live_pc ((sy_pcs s)[i := Exited])) = count_if live_pc (sy_pcs s)"
      using exit by (intro count_if_down) auto
    then have "tp_started_num (sy_pool s) = of_nat (Suc (count_if live_pc ((sy_pcs s)[i := Exited])))"
      using assms(4) by (simp add: count_inv_def)
    with exit assms(4) show ?thesis by (auto simp: count_inv_def count_if_moves)
  qed (use assms(4) small in \<open>auto simp: count_inv_def routine_count_def routine_name_def routine_bind_def count_if_moves\<close>)
qed

text \<open>How a step can change the tasks in the hands of the threads.\<close>

lemma held_tasks_same:
  "i < length pcs \<Longrightarrow> held_task (pcs ! i) = held_task pc \<Longrightarrow> held_tasks (pcs[i := pc]) = held_tasks pcs"
  using held_tasks_update [of i pcs pc] by simp

lemma held_tasks_gain:
  "i < length pcs \<Longrightarrow> held_task (pcs ! i) = {#} \<Longrightarrow> held_tasks (pcs[i := Has_Task t]) = add_mset t (held_tasks pcs)"
  using held_tasks_update [of i pcs "Has_Task t"] by simp

lemma held_tasks_lose:
  "i < length pcs \<Longrightarrow> pcs ! i = Has_Task t \<Longrightarrow> held_task pc = {#} \<Longrightarrow>
     add_mset t (held_tasks (pcs[i := pc])) = held_tasks pcs"
  using held_tasks_update [of i pcs pc] by simp

lemma step_task:
  assumes "pool_step cores spawn s s'" "lock_inv s" "shape_inv s" "task_inv s"
  shows "task_inv s'"
  using assms(1,2) shape_inv_ring [OF assms(3)]
proof (cases rule: pool_step_explicit)
  case (take i task)
  then show ?thesis using assms(4) by (simp add: task_inv_def held_tasks_gain)
next
  case (run i task)
  then show ?thesis using assms(4) held_tasks_lose [of i "sy_pcs s" task At_Lock]
    by (simp add: task_inv_def)
next
  case (submit_signal i x)
  then show ?thesis using assms(4) pool_put_tasks [OF shape_inv_ring [OF assms(3)]]
    by (simp add: task_inv_def held_tasks_same pool_room_def)
next
  case (submit_nobody x)
  then show ?thesis using assms(4) pool_put_tasks [OF shape_inv_ring [OF assms(3)]]
    by (simp add: task_inv_def pool_room_def)
qed (use assms(4) in \<open>auto simp: task_inv_def routine_count_def routine_name_def routine_bind_def held_tasks_same\<close>)

text \<open>A step that leaves the owner alone and makes no thread exit.\<close>

lemma owner_inv_keep:
  assumes "owner_inv s" "sy_owner s' = sy_owner s" "tp_shutdown (sy_pool s') = tp_shutdown (sy_pool s)"
    and "Exited \<in> set (sy_pcs s') \<Longrightarrow> Exited \<in> set (sy_pcs s)"
    and "\<And>j. at_pc s j Exited \<Longrightarrow> at_pc s' j Exited"
  shows "owner_inv s'"
  unfolding owner_inv_def assms(2,3)
proof (intro conjI)
  show "tp_shutdown (sy_pool s) \<longleftrightarrow> (\<exists>k. sy_owner s = Joining k) \<or> (\<exists>r. sy_owner s = Deleted r)"
    using assms(1) unfolding owner_inv_def by blast
  show "Exited \<in> set (sy_pcs s') \<longrightarrow> tp_shutdown (sy_pool s)"
    using assms(1,4) unfolding owner_inv_def by blast
  show "\<forall>k. sy_owner s = Joining k \<longrightarrow> (\<forall>j < k. at_pc s' j Exited)"
    using assms(1,5) unfolding owner_inv_def by blast
qed

lemma exited_update:
  "pcs ! i \<noteq> Exited \<Longrightarrow> j < length pcs \<Longrightarrow> pcs ! j = Exited \<Longrightarrow> pcs[i := pc] ! j = Exited"
  by (cases "i = j") simp_all

lemma step_owner:
  assumes "pool_step cores spawn s s'" "lock_inv s" "shape_inv s" "owner_inv s"
  shows "owner_inv s'"
  using assms(1,2) shape_inv_ring [OF assms(3)]
proof (cases rule: pool_step_explicit)
  case (spawn ts cpu)
  show ?thesis by (rule owner_inv_keep [OF assms(4)]) (use spawn in \<open>simp_all add: nth_append\<close>)
next
  case (exit i)
  have "at_pc s j Exited \<Longrightarrow> at_pc s' j Exited" for j
    using exit by (cases "i = j") simp_all
  then show ?thesis using assms(4) exit by (simp add: owner_inv_def)
next
  case (failed cpu)
  then show ?thesis using assms(4) by (auto simp: owner_inv_def)
next
  case created
  then show ?thesis using assms(4) by (auto simp: owner_inv_def)
next
  case (shutdown mode)
  then show ?thesis using assms(4) by (simp add: owner_inv_def)
next
  case (join k)
  then show ?thesis using assms(4) by (auto simp: owner_inv_def less_Suc_eq)
next
  case (delete k c)
  then show ?thesis using assms(4) by (simp add: owner_inv_def)
qed (rule owner_inv_keep [OF assms(4)];
  auto simp: routine_count_def routine_name_def routine_bind_def exited_update dest: set_update_other)+

lemma step_sleep:
  assumes "pool_step cores spawn s s'" "lock_inv s" "shape_inv s" "sleep_inv s"
  shows "sleep_inv s'"
  using assms(1,2) shape_inv_ring [OF assms(3)]
proof (cases rule: pool_step_explicit)
  case (take i task)
  have "Suc (count_if contender ((sy_pcs s)[i := Has_Task task])) = count_if contender (sy_pcs s)"
    using take by (intro count_if_down) auto
  with take assms(4) show ?thesis
    by (auto simp: sleep_inv_def simp flip: of_nat_Suc dest!: set_update_other)
next
  case (shutdown mode)
  have "Waiting \<notin> set (map wake_up (sy_pcs s))" by (metis imageE set_map wake_up_pc(4))
  with shutdown show ?thesis by (simp add: sleep_inv_def del: set_map)
qed (use assms(4) in \<open>auto simp: sleep_inv_def routine_count_def routine_name_def routine_bind_def count_if_moves
  dest!: set_update_other\<close>)

lemma prepare_inv:
  assumes "1 \<le> cores" "cores \<le> MAX_THREADS"
  shows "pool_inv (create_prepare cores tc qs thread_pool_ctor)"
    and "int (length (tp_threads (create_prepare cores tc qs thread_pool_ctor))) \<le> MAX_THREADS"
proof -
  have "1024 \<le> coerce_in qs 1024 MAX_QUEUE" "coerce_in qs 1024 MAX_QUEUE \<le> MAX_QUEUE"
    using coerce_in_bounds [of 1024 MAX_QUEUE qs] by (simp_all add: MAX_QUEUE_def)
  then show "pool_inv (create_prepare cores tc qs thread_pool_ctor)"
    by (simp add: pool_inv_def create_prepare_def Let_def)
  have "coerce_in tc cores MAX_THREADS \<le> MAX_THREADS"
    using coerce_in_bounds [OF assms(2), of tc] by simp
  then show "int (length (tp_threads (create_prepare cores tc qs thread_pool_ctor))) \<le> MAX_THREADS"
    by (simp add: create_prepare_def Let_def MAX_THREADS_def)
qed

lemma init_sys_inv:
  assumes "pool_init cores s"
  shows "sys_inv s"
proof -
  from assms obtain tc qs where c: "1 \<le> cores" "cores \<le> MAX_THREADS"
    and s: "s = sys_of (create_prepare cores tc qs thread_pool_ctor)"
    by (auto simp: pool_init_def)
  show ?thesis
    using prepare_inv [OF c, of tc qs]
    by (simp add: s sys_inv_def sys_of_def shape_inv_def lock_inv_def count_inv_def sleep_inv_def task_inv_def owner_inv_def)
      (simp add: create_prepare_def Let_def thread_pool_ctor_def pool_tasks_def)
qed

lemma step_sys_inv: "sys_inv s \<Longrightarrow> pool_step cores spawn s s' \<Longrightarrow> sys_inv s'"
  unfolding sys_inv_def
  by (blast intro: step_shape step_lock step_count step_sleep step_task step_owner)

text \<open>The lock's holder, and being inside the part of \<open>thread_routine\<close> that the lock protects.\<close>

interpretation pool: locked_system "pool_init cores" "pool_step cores spawn" sys_inv
  "\<lambda>s. mutex_holder (tp_lock (sy_pool s))" "\<lambda>s i. at_pc s i At_Check" for cores spawn
proof (unfold_locales, goal_cases)
  case (1 s)
  then show ?case by (rule init_sys_inv)
next
  case (2 s s')
  then show ?case by (rule step_sys_inv)
next
  case (3 s i)
  then have "tp_lock (sy_pool s) = Mutex_Held i" by (simp add: sys_inv_def lock_inv_def)
  then show ?case by simp
qed

section \<open>Shutting down terminates\<close>

fun pc_rank :: "('f, 'a) tpc \<Rightarrow> nat" where
  "pc_rank Spawned = 6"
| "pc_rank Counted = 5"
| "pc_rank Named = 4"
| "pc_rank Waiting = 4"
| "pc_rank (Has_Task t) = 4"
| "pc_rank At_Lock = 3"
| "pc_rank At_Check = 2"
| "pc_rank Exited = 0"

definition sys_rank :: "('f, 'a) pool_sys \<Rightarrow> nat" where
  "sys_rank s = sum_list (map pc_rank (sy_pcs s)) +
     (case sy_owner s of Joining k \<Rightarrow> Suc (length (sy_pcs s) - k) | _ \<Rightarrow> 0)"

lemma sum_rank_less:
  "i < length pcs \<Longrightarrow> pc_rank pc < pc_rank (pcs ! i) \<Longrightarrow>
     sum_list (map pc_rank (pcs[i := pc])) < sum_list (map pc_rank pcs)"
  using sum_update [of i pcs pc_rank pc] by linarith

lemma sys_rank_move:
  assumes "i < length (sy_pcs s)" "pc_rank pc < pc_rank (sy_pcs s ! i)"
    and "sy_pcs s' = (sy_pcs s)[i := pc]" "sy_owner s' = sy_owner s"
  shows "sys_rank s' < sys_rank s"
  using sum_rank_less [OF assms(1,2)] assms(3,4) by (simp add: sys_rank_def split: owner.splits)

lemma shutdown_step_rank:
  assumes "sys_inv s" "tp_shutdown (sy_pool s)" "pool_step cores spawn s s'"
  shows "tp_shutdown (sy_pool s') \<and> (s' = s \<or> sys_rank s' < sys_rank s)"
proof -
  have inv: "lock_inv s" "shape_inv s" "sleep_inv s" "owner_inv s" using assms(1) by (simp_all add: sys_inv_def)
  have nowait: "\<not> at_pc s i Waiting" for i using inv(3) assms(2) by (metis nth_mem sleep_inv_def)
  have noroom: "\<not> pool_room (sy_pool s)" using assms(2) by (simp add: pool_room_def)
  have served: "sy_owner s \<noteq> Creating" "sy_owner s \<noteq> Serving" using inv(4) assms(2) by (auto simp: owner_inv_def)
  show ?thesis
    using assms(3) inv(1) shape_inv_ring [OF inv(2)]
  proof (cases rule: pool_step_explicit)
    case (join k)
    then show ?thesis using assms(2) by (intro conjI disjI2) (auto simp: sys_rank_def)
  next
    case (delete k c)
    then show ?thesis using assms(2) by (simp add: sys_rank_def)
  next
    case (count i)
    then show ?thesis using assms(2) sys_rank_move [of i s Counted s'] by (simp add: routine_count_def)
  next
    case (name i)
    then show ?thesis using assms(2) sys_rank_move [of i s Named s'] by (simp add: routine_name_def)
  next
    case (bind i)
    then show ?thesis using assms(2) sys_rank_move [of i s At_Lock s'] by (simp add: routine_bind_def)
  next
    case (lock i)
    then show ?thesis using assms(2) sys_rank_move [of i s At_Check s'] by (simp)
  next
    case (exit i)
    then show ?thesis using assms(2) sys_rank_move [of i s Exited s'] by (simp)
  next
    case (run i task)
    then show ?thesis using assms(2) sys_rank_move [of i s At_Lock s'] by (simp)
  qed (use assms(2) nowait noroom served in auto)
qed

lemma held_task_mem: "at_pc s i (Has_Task t) \<Longrightarrow> t \<in># held_tasks (sy_pcs s)"
proof -
  assume h: "at_pc s i (Has_Task t)"
  then have "sy_pcs s = take i (sy_pcs s) @ Has_Task t # drop (Suc i) (sy_pcs s)"
    using id_take_nth_drop [of i "sy_pcs s"] by simp
  then have "held_tasks (sy_pcs s) = held_tasks (take i (sy_pcs s) @ Has_Task t # drop (Suc i) (sy_pcs s))"
    by simp
  then show ?thesis by simp
qed

lemma held_tasks_none: "\<forall>pc \<in> set pcs. \<nexists>t. pc = Has_Task t \<Longrightarrow> held_tasks pcs = {#}"
proof (induction pcs)
  case (Cons pc pcs)
  then show ?case by (cases pc) auto
qed simp

text \<open>Some step is always possible before the pool is deleted, if no accepted task is an empty function.\<close>

lemma locked_shutdown_step:
  assumes "sys_inv s" "tp_shutdown (sy_pool s)" "at_pc s i At_Check"
  shows "\<exists>s'. pool_step cores spawn s s' \<and> sys_rank s' < sys_rank s"
proof -
  have "tp_lock (sy_pool s) = Mutex_Held i" using assms(1,3) by (simp add: sys_inv_def lock_inv_def)
  then obtain s' where s': "routine_locked i s = Ret s'" "sy_pcs s' = (sy_pcs s)[i := Exited]" "sy_owner s' = sy_owner s"
    using assms(2) by (auto simp: routine_locked_def Let_def)
  have "sys_rank s' < sys_rank s"
    using assms(3) s' by (intro sys_rank_move [of i s Exited s']) auto
  with s'(1) assms(3) show ?thesis by (blast intro: pool_step.locked)
qed

lemma thread_shutdown_step:
  assumes "sys_inv s" "tp_shutdown (sy_pool s)" "i < length (sy_pcs s)" "sy_pcs s ! i \<noteq> Exited"
    and "\<forall>t \<in> set (sy_accepted s). task_fun t \<noteq> None"
  shows "\<exists>s'. pool_step cores spawn s s' \<and> sys_rank s' < sys_rank s"
proof (cases "sy_pcs s ! i")
  case Spawned
  then show ?thesis using assms(3) sys_rank_move [of i s Counted "routine_count i s"]
    by (intro exI [of _ "routine_count i s"]) (simp add: pool_step.count, simp add: routine_count_def)
next
  case Counted
  then show ?thesis using assms(3) sys_rank_move [of i s Named "routine_name i s"]
    by (intro exI [of _ "routine_name i s"]) (simp add: pool_step.name, simp add: routine_name_def)
next
  case Named
  then show ?thesis using assms(3) sys_rank_move [of i s At_Lock "routine_bind i s"]
    by (intro exI [of _ "routine_bind i s"]) (simp add: pool_step.bind, simp add: routine_bind_def)
next
  case At_Lock
  show ?thesis
  proof (cases "tp_lock (sy_pool s)")
    case Mutex_Free
    then obtain s' where s': "routine_lock i s = Ret s'" "sy_pcs s' = (sy_pcs s)[i := At_Check]" "sy_owner s' = sy_owner s"
      by (simp add: routine_lock_def)
    have "sys_rank s' < sys_rank s"
      using At_Lock assms(3) s' by (intro sys_rank_move [of i s At_Check s']) auto
    then show ?thesis using At_Lock assms(3) s'(1) by (blast intro: pool_step.lock)
  next
    case (Mutex_Held j)
    then have "at_pc s j At_Check" using assms(1) by (simp add: sys_inv_def lock_inv_def)
    then show ?thesis by (rule locked_shutdown_step [OF assms(1,2)])
  next
    case Mutex_Destroyed
    then show ?thesis using assms(1) by (simp add: sys_inv_def lock_inv_def)
  qed
next
  case At_Check
  then show ?thesis using locked_shutdown_step [OF assms(1,2)] assms(3) by blast
next
  case Waiting
  then show ?thesis using assms(1,2,3) nth_mem [of i "sy_pcs s"] by (simp add: sys_inv_def sleep_inv_def)
next
  case (Has_Task t)
  then have "t \<in># held_tasks (sy_pcs s)" using assms(3) held_task_mem by blast
  then have "t \<in># mset (sy_taken s)" using assms(1) by (simp add: sys_inv_def task_inv_def)
  then have "t \<in> set (sy_accepted s)" using assms(1) by (simp add: sys_inv_def task_inv_def)
  then obtain f where "task_fun t = Some f" using assms(5) by auto
  then obtain s' where s': "routine_run i t s = Ret s'" "sy_pcs s' = (sy_pcs s)[i := At_Lock]" "sy_owner s' = sy_owner s"
    by (simp add: routine_run_def thread_pool_task_run_def)
  have "sys_rank s' < sys_rank s"
    using Has_Task assms(3) s' by (intro sys_rank_move [of i s At_Lock s']) auto
  then show ?thesis using Has_Task assms(3) s'(1) by (blast intro: pool_step.run)
next
  case Exited
  with assms(4) show ?thesis by simp
qed

lemma shutdown_progress:
  assumes "sys_inv s" "sy_owner s = Joining k" "\<forall>t \<in> set (sy_accepted s). task_fun t \<noteq> None"
  shows "\<exists>s'. pool_step cores spawn s s' \<and> sys_rank s' < sys_rank s"
proof (cases "int k < sint (tp_thread_count (sy_pool s))")
  case False
  let ?s' = "s\<lparr>sy_owner := Deleted (bind_outcome (free_resource 0 (sy_pool s)) (\<lambda>(rc, p'). Ret rc))\<rparr>"
  have "pool_step cores spawn s ?s'" by (rule pool_step.delete [OF assms(2) False])
  moreover have "sys_rank ?s' < sys_rank s" by (simp add: sys_rank_def assms(2))
  ultimately show ?thesis by blast
next
  case True
  have down: "tp_shutdown (sy_pool s)" using assms(1,2) by (simp add: sys_inv_def owner_inv_def)
  have "sint (tp_thread_count (sy_pool s)) = int (count_if named_pc (sy_pcs s))"
    using assms(1) by (simp add: sys_inv_def count_inv_def sint_small shape_count_bound)
  then have k: "k < length (sy_pcs s)" using True count_if_le_length [of named_pc "sy_pcs s"] by simp
  show ?thesis
  proof (cases "sy_pcs s ! k = Exited")
    case True
    then have "pool_step cores spawn s (s\<lparr>sy_owner := Joining (Suc k)\<rparr>)"
      using k \<open>int k < _\<close> by (intro pool_step.join [OF assms(2)]) simp_all
    moreover have "sys_rank (s\<lparr>sy_owner := Joining (Suc k)\<rparr>) < sys_rank s"
      using k by (auto simp: sys_rank_def assms(2))
    ultimately show ?thesis by blast
  next
    case False
    then show ?thesis by (rule thread_shutdown_step [OF assms(1) down k _ assms(3)])
  qed
qed

text \<open>Once the pool is shut down the ring is frozen: nothing is accepted and nothing is taken.\<close>

lemma shutdown_step_frozen:
  assumes "sys_inv s" "tp_shutdown (sy_pool s)" "pool_step cores spawn s s'"
  shows "tp_shutdown (sy_pool s') \<and> sy_accepted s' = sy_accepted s \<and> sy_taken s' = sy_taken s \<and>
     pool_tasks (sy_pool s') = pool_tasks (sy_pool s)"
proof -
  have inv: "lock_inv s" "shape_inv s" using assms(1) by (simp_all add: sys_inv_def)
  have frame: "pool_tasks (p\<lparr>tp_mask := m, tp_threads := ts\<rparr>) = pool_tasks p"
    for p :: "('a, 'b) thread_pool" and m ts
    by (simp add: pool_tasks_def ring_slot_def)
  show ?thesis
    using assms(3) inv(1) shape_inv_ring [OF inv(2)]
    by (cases rule: pool_step_explicit)
      (use assms(2) in \<open>auto simp: routine_count_def routine_name_def routine_bind_def pool_room_def frame\<close>)
qed

lemma shutdown_steps_frozen:
  assumes "steps (pool_step cores spawn) s s'" "sys_inv s" "tp_shutdown (sy_pool s)"
  shows "sys_inv s' \<and> tp_shutdown (sy_pool s') \<and> sy_accepted s' = sy_accepted s \<and> sy_taken s' = sy_taken s \<and>
     pool_tasks (sy_pool s') = pool_tasks (sy_pool s)"
  using assms
proof (induction rule: steps.induct)
  case (steps_more s s' s'')
  then show ?case using shutdown_step_frozen [of s' cores spawn s''] step_sys_inv by metis
qed simp

lemma shutdown_completes:
  assumes "sys_inv s" "tp_shutdown (sy_pool s)" "\<forall>t \<in> set (sy_accepted s). task_fun t \<noteq> None"
  shows "\<exists>s' r. steps (pool_step cores spawn) s s' \<and> sy_owner s' = Deleted r"
  using assms
proof (induction "sys_rank s" arbitrary: s rule: less_induct)
  case less
  then have "(\<exists>k. sy_owner s = Joining k) \<or> (\<exists>r. sy_owner s = Deleted r)"
    by (simp add: sys_inv_def owner_inv_def)
  then show ?case
  proof
    assume "\<exists>k. sy_owner s = Joining k"
    then obtain k where "sy_owner s = Joining k" ..
    from shutdown_progress [OF less.prems(1) this less.prems(3)] obtain s1
      where s1: "pool_step cores spawn s s1" "sys_rank s1 < sys_rank s" by blast
    have "sys_inv s1" "tp_shutdown (sy_pool s1)" "\<forall>t \<in> set (sy_accepted s1). task_fun t \<noteq> None"
      using step_sys_inv [OF less.prems(1) s1(1)] shutdown_step_frozen [OF less.prems(1,2) s1(1)] less.prems(3)
      by simp_all
    from less.hyps [OF s1(2) this] s1(1) show ?thesis by (blast intro: steps_head)
  qed (blast intro: steps_refl)
qed

section \<open>What the owner finds when it deletes the pool\<close>

lemma delete_threads:
  assumes "sys_inv s" "pool_step cores spawn s s'" "sy_owner s = Joining k" "sy_owner s' = Deleted r"
  shows "(\<forall>pc \<in> set (sy_pcs s). pc = Exited \<or> pc = Spawned \<or> pc = Counted) \<and>
     r = (if Counted \<in> set (sy_pcs s) then Ret (-1) else Stop Mutex_Misuse)"
proof -
  have inv: "lock_inv s" "shape_inv s" "count_inv s" "owner_inv s" using assms(1) by (simp_all add: sys_inv_def)
  have bound: "count_if P (sy_pcs s) \<le> 1024" for P by (rule shape_count_bound [OF inv(2)])
  have delete: "\<not> int k < sint (tp_thread_count (sy_pool s)) \<and>
      (\<exists>c. r = bind_outcome (free_resource c (sy_pool s)) (\<lambda>(rc, p'). Ret rc))"
    using assms(2) inv(1) shape_inv_ring [OF inv(2)]
    by (cases rule: pool_step_explicit)
      (use assms(3,4) in \<open>auto simp: routine_count_def routine_name_def routine_bind_def\<close>)
  then have few: "count_if named_pc (sy_pcs s) \<le> k"
    using inv(3) sint_small [OF bound] by (simp add: count_inv_def)
  have joined: "\<forall>j < k. at_pc s j Exited" using inv(4) assms(3) by (simp add: owner_inv_def)
  then have "k \<le> length (sy_pcs s)" by (cases k) auto
  have rest: "pc = Exited \<or> pc = Spawned \<or> pc = Counted" if "pc \<in> set (sy_pcs s)" for pc
  proof -
    from that obtain j where j: "j < length (sy_pcs s)" "pc = sy_pcs s ! j" by (auto simp: in_set_conv_nth)
    show ?thesis
    proof (cases "j < k")
      case False
      then have "\<not> named_pc pc"
        using count_if_prefix_only [OF few \<open>k \<le> _\<close>, of j] joined j by auto
      then show ?thesis by (cases pc) simp_all
    qed (use joined j in auto)
  qed
  have "0 < count_if live_pc (sy_pcs s) \<longleftrightarrow> Counted \<in> set (sy_pcs s)"
    using rest count_if_zero [of live_pc "sy_pcs s"] by (cases "count_if live_pc (sy_pcs s)") force+
  moreover have "sint (tp_started_num (sy_pool s)) = int (count_if live_pc (sy_pcs s))"
    using inv(3) by (simp add: count_inv_def sint_small bound)
  moreover have "tp_lock (sy_pool s) = Mutex_Free"
  proof (cases "tp_lock (sy_pool s)")
    case (Mutex_Held j)
    then have "at_pc s j At_Check" using inv(1) by (simp add: lock_inv_def)
    with rest [of At_Check] show ?thesis using nth_mem by fastforce
  qed (use inv(1) in \<open>simp_all add: lock_inv_def\<close>)
  ultimately show ?thesis using delete rest by (auto simp: free_resource_def)
qed

section \<open>Processors the threads are bound to\<close>

definition one_cpu :: "int \<Rightarrow> int set \<Rightarrow> bool" where
  "one_cpu cores m \<longleftrightarrow> (\<exists>c. 0 \<le> c \<and> c < cores \<and> m = {c})"

definition bound_inv :: "int \<Rightarrow> ('f, 'a) pool_sys \<Rightarrow> bool" where
  "bound_inv cores s \<longleftrightarrow> 1 \<le> cores \<and> cores \<le> MAX_THREADS \<and>
     (sy_pcs s \<noteq> [] \<longrightarrow> one_cpu cores (tp_mask (sy_pool s))) \<and> (\<forall>(i, m) \<in> set (sy_bound s). one_cpu cores m)"

lemma mask_of_one:
  assumes "bound_inv cores s" "c_rem (int i) cores = Ret cpu"
  shows "one_cpu cores (cpu_set_of cpu)"
proof -
  have "c_rem (int i) cores = Ret (int i mod cores)" using assms(1) by (intro c_rem_pos) (simp_all add: bound_inv_def)
  then have "0 \<le> cpu" "cpu < cores" using assms by (auto simp: bound_inv_def)
  then show ?thesis using assms(1) by (auto simp: one_cpu_def cpu_set_of_def bound_inv_def MAX_THREADS_def)
qed

lemma step_bound:
  assumes "pool_step cores spawn s s'" "sys_inv s" "bound_inv cores s"
  shows "bound_inv cores s'"
proof -
  have inv: "lock_inv s" "shape_inv s" using assms(2) by (simp_all add: sys_inv_def)
  show ?thesis
    using assms(1) inv(1) shape_inv_ring [OF inv(2)]
  proof (cases rule: pool_step_explicit)
    case (spawn ts cpu)
    then show ?thesis using mask_of_one [OF assms(3)] assms(3) by (simp add: bound_inv_def)
  next
    case (failed cpu)
    then show ?thesis using mask_of_one [OF assms(3)] assms(3) by (simp add: bound_inv_def)
  next
    case (bind i)
    then have "sy_pcs s \<noteq> []" by auto
    then show ?thesis using bind assms(3) by (auto simp: bound_inv_def routine_bind_def)
  qed (use assms(3) in \<open>auto simp: bound_inv_def routine_count_def routine_name_def pool_put_def pool_drop_def\<close>)
qed

lemma init_bound: "pool_init cores s \<Longrightarrow> bound_inv cores s"
  by (auto simp: pool_init_def bound_inv_def sys_of_def)

lemma reach_bound: "pool_reach cores spawn s \<Longrightarrow> bound_inv cores s"
  by (erule pool.reach_keep) (auto intro: init_bound step_bound)

section \<open>Runs of a pool with one and two threads\<close>

lemma start_run:
  assumes "pool_reach cores spawn s" "at_pc s i Spawned"
  shows "pool_reach cores spawn (routine_bind i (routine_name i (routine_count i s)))"
proof -
  have "pool_step cores spawn s (routine_count i s)" using assms(2) by (rule pool_step.count)
  moreover have "pool_step cores spawn (routine_count i s) (routine_name i (routine_count i s))"
    using assms(2) by (intro pool_step.name) (simp add: routine_count_def)
  moreover have "pool_step cores spawn (routine_name i (routine_count i s))
      (routine_bind i (routine_name i (routine_count i s)))"
    using assms(2) by (intro pool_step.bind) (simp add: routine_count_def routine_name_def)
  ultimately show ?thesis using assms(1) by (metis reach_step)
qed

text \<open>Used as examples: one thread on one processor, ready to serve; then its run up to its check.\<close>

definition demo_spawn :: "nat \<Rightarrow> int \<times> nat" where
  "demo_spawn i = (0, 70 + i)"

definition demo_pool :: "(nat, nat) thread_pool" where
  "demo_pool = (create_prepare 1 1 1024 thread_pool_ctor)\<lparr>tp_mask := {0}, tp_threads := [70]\<rparr>"

definition demo_serving :: "(nat, nat) pool_sys" where
  "demo_serving = (sys_of demo_pool)\<lparr>sy_pcs := [Spawned], sy_owner := Serving\<rparr>"

definition demo_task :: "(nat, nat) thread_pool_task" where
  "demo_task = \<lparr>task_fun = Some 1, task_args = None\<rparr>"

lemma demo_serving_reach: "pool_reach 1 demo_spawn demo_serving"
proof -
  let ?p = "create_prepare 1 1 1024 thread_pool_ctor :: (nat, nat) thread_pool"
  have threads: "tp_threads ?p = [0]"
    by (simp add: create_prepare_def Let_def thread_pool_ctor_def vec_resize_def MAX_THREADS_def)
  have init: "pool_reach 1 demo_spawn (sys_of ?p)"
    by (rule reach_init) (auto simp: pool_init_def MAX_THREADS_def)
  have "thread_pool_create_loop 1 demo_spawn 0 1 ?p = Ret (0, demo_pool)"
    by (simp add: demo_pool_def demo_spawn_def threads c_rem_def vec_put_at_def vec_in_def cpu_set_of_def)
  then have "pool_step 1 demo_spawn (sys_of ?p) ((sys_of ?p)\<lparr>sy_pool := demo_pool, sy_pcs := sy_pcs (sys_of ?p) @ [Spawned]\<rparr>)"
    by (intro pool_step.spawn) (simp_all add: sys_of_def threads)
  from reach_step [OF init this]
  have two: "pool_reach 1 demo_spawn (demo_serving\<lparr>sy_owner := Creating\<rparr>)" by (simp add: sys_of_def demo_serving_def)
  have "pool_step 1 demo_spawn (demo_serving\<lparr>sy_owner := Creating\<rparr>) ((demo_serving\<lparr>sy_owner := Creating\<rparr>)\<lparr>sy_owner := Serving\<rparr>)"
    by (rule pool_step.created) (simp_all add: demo_serving_def sys_of_def demo_pool_def)
  from reach_step [OF two this] show ?thesis by (simp add: demo_serving_def)
qed

lemma demo_checking_reach:
  "\<exists>s :: (nat, nat) pool_sys. pool_reach 1 demo_spawn s \<and> sy_pcs s = [At_Check] \<and> sy_owner s = Serving
     \<and> tp_lock (sy_pool s) = Mutex_Held 0 \<and> \<not> tp_shutdown (sy_pool s) \<and> tp_work_count (sy_pool s) = 0"
proof -
  define s1 where "s1 = routine_count 0 demo_serving"
  define s2 where "s2 = routine_name 0 s1"
  define s3 where "s3 = routine_bind 0 s2"
  have pcs: "sy_pcs s1 = [Counted]" "sy_pcs s2 = [Named]" "sy_pcs s3 = [At_Lock]"
    by (simp_all add: s1_def s2_def s3_def routine_defs demo_serving_def)
  have state: "tp_lock (sy_pool s3) = Mutex_Free" "sy_owner s3 = Serving" "\<not> tp_shutdown (sy_pool s3)"
    "tp_work_count (sy_pool s3) = 0"
    by (simp_all add: s1_def s2_def s3_def routine_defs demo_serving_def sys_of_def demo_pool_def create_prepare_def
        Let_def thread_pool_ctor_def)
  have "pool_step 1 demo_spawn demo_serving s1" unfolding s1_def
    by (rule pool_step.count) (simp add: demo_serving_def)
  moreover have "pool_step 1 demo_spawn s1 s2" unfolding s2_def by (rule pool_step.name) (simp add: pcs)
  moreover have "pool_step 1 demo_spawn s2 s3" unfolding s3_def by (rule pool_step.bind) (simp add: pcs)
  ultimately have r3: "pool_reach 1 demo_spawn s3" using demo_serving_reach by (blast intro: reach_step)
  define s4 where "s4 = (set_pc 0 At_Check s3)\<lparr>sy_pool := (sy_pool s3)\<lparr>tp_lock := Mutex_Held 0\<rparr>\<rparr>"
  have "routine_lock 0 s3 = Ret s4" by (simp add: routine_lock_def state s4_def)
  then have "pool_reach 1 demo_spawn s4" using pcs by (intro reach_step [OF r3 pool_step.lock]) simp_all
  then show ?thesis using pcs state by (intro exI [of _ s4]) (simp add: s4_def)
qed

text \<open>A task is submitted and the pool is shut down before its thread has run at all.\<close>

definition demo_shut :: "(nat, nat) pool_sys" where
  "demo_shut = demo_serving\<lparr>sy_pool := (pool_put demo_task demo_pool)
      \<lparr>tp_shutdown_mode := GRACEFUL_SHUTDOWN, tp_shutdown := True\<rparr>,
      sy_owner := Joining 0, sy_accepted := [demo_task]\<rparr>"

lemma demo_pool_ready: "pool_inv demo_pool" "pool_room demo_pool" "tp_lock demo_pool = Mutex_Free" "\<not> tp_shutdown demo_pool"
  "tp_thread_count demo_pool = 0" "tp_started_num demo_pool = 0" "tp_work_count demo_pool = 0" "pool_tasks demo_pool = []"
proof -
  have "pool_inv (create_prepare 1 1 1024 thread_pool_ctor :: (nat, nat) thread_pool)"
    by (rule prepare_inv) (simp_all add: MAX_THREADS_def)
  then show "pool_inv demo_pool"
    by (simp add: demo_pool_def pool_inv_def)
qed (simp_all add: demo_pool_def create_prepare_def Let_def thread_pool_ctor_def pool_room_def MAX_QUEUE_def pool_tasks_def)

text \<open>A task is queued.\<close>

definition demo_queued :: "(nat, nat) pool_sys" where
  "demo_queued = demo_serving\<lparr>sy_pool := pool_put demo_task demo_pool, sy_accepted := [demo_task]\<rparr>"

lemma demo_queued_reach: "pool_reach 1 demo_spawn demo_queued"
proof -
  let ?s1 = "demo_serving\<lparr>sy_pool := pool_put demo_task demo_pool,
      sy_accepted := sy_accepted demo_serving @ [\<lparr>task_fun = Some 1, task_args = None\<rparr>]\<rparr>"
  have pool: "sy_pool demo_serving = demo_pool" by (simp add: demo_serving_def sys_of_def)
  have "thread_pool_submit 9 0 0 0 None (Some 1) demo_pool = Ret (0, True, pool_put demo_task demo_pool)"
    by (simp add: submit_stores demo_pool_ready Let_def demo_task_def)
  then have "pool_step 1 demo_spawn demo_serving ?s1"
    by (intro pool_step.submit_nobody [where c = 9]) (simp_all add: pool, simp_all add: demo_serving_def)
  from reach_step [OF demo_serving_reach this] show ?thesis
    by (simp add: demo_queued_def demo_serving_def demo_task_def sys_of_def)
qed

lemma demo_shut_reach: "pool_reach 1 demo_spawn demo_shut"
proof -
  let ?p = "(pool_put demo_task demo_pool)\<lparr>tp_shutdown_mode := GRACEFUL_SHUTDOWN, tp_shutdown := True\<rparr>"
  have "tp_lock (pool_put demo_task demo_pool) = Mutex_Free" by (simp add: demo_pool_ready)
  then have "shutdown_interval_begin 9 0 0 0 GRACEFUL_SHUTDOWN (pool_put demo_task demo_pool) = Ret (0, True, ?p)"
    by (simp add: shutdown_interval_begin_def Let_def demo_pool_ready)
  then have "pool_step 1 demo_spawn demo_queued (demo_queued\<lparr>sy_pool := ?p, sy_pcs := map wake_up (sy_pcs demo_queued), sy_owner := Joining 0\<rparr>)"
    by (intro pool_step.shutdown [where c = 9]) (simp_all add: demo_queued_def demo_serving_def)
  from reach_step [OF demo_queued_reach this] show ?thesis
    by (simp add: demo_shut_def demo_queued_def demo_serving_def demo_task_def sys_of_def)
qed

section \<open>Properties\<close>

text \<open>
  C20. Mutual exclusion: in every reachable state at most one thread of the pool is in the part of
  \<open>thread_routine\<close> that tests and changes the ring, and that thread holds the lock.
\<close>

theorem routine_mutual_exclusion:
  assumes "pool_reach cores spawn s" "at_pc s i At_Check" "at_pc s j At_Check"
  shows "i = j \<and> tp_lock (sy_pool s) = Mutex_Held i"
proof -
  have "sys_inv s" using assms(1) by (rule pool.reach_inv)
  with assms(2) have "tp_lock (sy_pool s) = Mutex_Held i" by (simp add: sys_inv_def lock_inv_def)
  moreover have "i = j" using assms by (rule pool.reach_mutex)
  ultimately show ?thesis by simp
qed

theorem routine_mutual_exclusion_witness:
  "\<exists>s :: (nat, nat) pool_sys. pool_reach 1 demo_spawn s \<and> tp_lock (sy_pool s) = Mutex_Held 0"
proof -
  obtain s :: "(nat, nat) pool_sys" where s: "pool_reach 1 demo_spawn s" "sy_pcs s = [At_Check]"
    using demo_checking_reach by blast
  then show ?thesis using routine_mutual_exclusion [OF s(1), of 0 0] by auto
qed

text \<open>
  C14. Under every interleaving each accepted task is in exactly one place: the accepted tasks are those
  taken, in the order of acceptance, followed by those in the ring; and the tasks taken are those already
  run together with those in the hands of a thread. No task is lost, run twice or taken out of order.
\<close>

theorem tasks_in_one_place:
  assumes "pool_reach cores spawn s"
  shows "sy_accepted s = sy_taken s @ pool_tasks (sy_pool s) \<and>
     mset (sy_taken s) = mset (sy_ran s) + held_tasks (sy_pcs s) \<and> pool_inv (sy_pool s)"
  using pool.reach_inv [OF assms] by (simp add: sys_inv_def task_inv_def shape_inv_def)

theorem tasks_in_one_place_witness:
  "sy_accepted demo_shut = sy_taken demo_shut @ pool_tasks (sy_pool demo_shut) \<and> pool_inv (sy_pool demo_shut)"
  using tasks_in_one_place [OF demo_shut_reach] by simp

text \<open>
  C17. No wakeup is lost: while some thread sleeps on the condition variable, the pool is not shut down and
  there are at least as many threads on their way to the ring as tasks in it; so tasks never wait for a
  sleeping thread.
\<close>

theorem no_lost_wakeup:
  assumes "pool_reach cores spawn s" "at_pc s i Waiting"
  shows "\<not> tp_shutdown (sy_pool s) \<and> length (pool_tasks (sy_pool s)) \<le> count_if contender (sy_pcs s)"
proof -
  have "Waiting \<in> set (sy_pcs s)" using assms(2) by (metis nth_mem)
  then show ?thesis
    using pool.reach_inv [OF assms(1)] by (auto simp: sys_inv_def sleep_inv_def length_pool_tasks nat_le_iff)
qed

theorem no_lost_wakeup_witness:
  "\<exists>s :: (nat, nat) pool_sys. pool_reach 1 demo_spawn s \<and> at_pc s 0 Waiting \<and>
     length (pool_tasks (sy_pool s)) \<le> count_if contender (sy_pcs s)"
proof -
  obtain s :: "(nat, nat) pool_sys" where s: "pool_reach 1 demo_spawn s" "sy_pcs s = [At_Check]"
    "tp_lock (sy_pool s) = Mutex_Held 0" "\<not> tp_shutdown (sy_pool s)" "tp_work_count (sy_pool s) = 0"
    using demo_checking_reach by blast
  then obtain s' where s': "routine_locked 0 s = Ret s'" "sy_pcs s' = [Waiting]"
    by (auto simp: routine_locked_def Let_def)
  have "pool_reach 1 demo_spawn s'" using s s'(1) by (intro reach_step [OF s(1) pool_step.locked]) simp_all
  with no_lost_wakeup [OF this, of 0] s'(2) show ?thesis by auto
qed

text \<open>
  C31. The 16-bit counters never wrap: in every reachable state \<open>thread_count_\<close> is the number of threads past
  line 183 and \<open>started_num_\<close> the number of threads between line 182 and their exit, both at most
  \<open>MAX_THREADS\<close>; and the numbers in the names of the threads are 0, 1, 2, ... without repetition.
\<close>

theorem counters_count:
  assumes "pool_reach cores spawn s"
  shows "sint (tp_thread_count (sy_pool s)) = int (count_if named_pc (sy_pcs s)) \<and>
     sint (tp_started_num (sy_pool s)) = int (count_if live_pc (sy_pcs s)) \<and>
     int (length (sy_pcs s)) \<le> MAX_THREADS \<and>
     map snd (sy_names s) = map int [0..<count_if named_pc (sy_pcs s)]"
proof -
  have inv: "shape_inv s" "count_inv s" using pool.reach_inv [OF assms] by (simp_all add: sys_inv_def)
  then show ?thesis
    by (auto simp: count_inv_def sint_small shape_count_bound) (simp add: shape_inv_def)
qed

theorem counters_count_witness:
  "sint (tp_thread_count (sy_pool demo_serving)) = int (count_if named_pc (sy_pcs demo_serving)) \<and>
     int (length (sy_pcs demo_serving)) \<le> MAX_THREADS"
  using counters_count [OF demo_serving_reach] by simp

text \<open>
  C37. Both shutdown modes drop the tasks that are still queued: after the pool is shut down no task is
  accepted or taken any more, so whatever was in the ring stays in it and never runs, also in the mode
  \<open>GRACEFUL_SHUTDOWN\<close>.
\<close>

theorem shutdown_drops_queue:
  assumes "pool_reach cores spawn s" "tp_shutdown (sy_pool s)" "steps (pool_step cores spawn) s s'"
  shows "pool_tasks (sy_pool s') = pool_tasks (sy_pool s) \<and> sy_taken s' = sy_taken s \<and>
     mset (sy_ran s') \<subseteq># mset (sy_taken s)"
proof -
  have inv: "sys_inv s" using assms(1) by (rule pool.reach_inv)
  from shutdown_steps_frozen [OF assms(3) inv assms(2)]
  have "sys_inv s'" "sy_taken s' = sy_taken s" "pool_tasks (sy_pool s') = pool_tasks (sy_pool s)" by simp_all
  then show ?thesis by (auto simp: sys_inv_def task_inv_def)
qed

theorem shutdown_drops_queue_witness:
  "\<exists>s' r. steps (pool_step 1 demo_spawn) demo_shut s' \<and> sy_owner s' = Deleted r \<and>
     pool_tasks (sy_pool s') = [demo_task] \<and> sy_taken s' = []"
proof -
  have down: "tp_shutdown (sy_pool demo_shut)" by (simp add: demo_shut_def)
  have ring: "pool_tasks (sy_pool demo_shut) = [demo_task]"
    using pool_put_tasks [OF demo_pool_ready(1), of demo_task] demo_pool_ready
    by (simp add: demo_shut_def pool_room_def)
  have "\<forall>t \<in> set (sy_accepted demo_shut). task_fun t \<noteq> None" by (simp add: demo_shut_def demo_task_def)
  from shutdown_completes [OF pool.reach_inv [OF demo_shut_reach] down this] obtain s' r
    where s': "steps (pool_step 1 demo_spawn) demo_shut s'" "sy_owner s' = Deleted r" by blast
  from shutdown_drops_queue [OF demo_shut_reach down s'(1)] s' ring show ?thesis
    by (auto simp: demo_shut_def demo_serving_def sys_of_def)
qed

text \<open>
  Shutting down terminates: from a shut down state no schedule can go on for ever with steps that
  change the state.
\<close>

theorem shutdown_terminates:
  assumes "pool_reach cores spawn s" "tp_shutdown (sy_pool s)"
  shows "\<nexists>f. f 0 = s \<and> (\<forall>n. pool_step cores spawn (f n) (f (Suc n)) \<and> f (Suc n) \<noteq> f n)"
proof
  assume "\<exists>f. f 0 = s \<and> (\<forall>n. pool_step cores spawn (f n) (f (Suc n)) \<and> f (Suc n) \<noteq> f n)"
  then obtain f where f: "f 0 = s" "\<And>n. pool_step cores spawn (f n) (f (Suc n))" "\<And>n. f (Suc n) \<noteq> f n" by blast
  have "sys_inv (f n) \<and> tp_shutdown (sy_pool (f n))" for n
  proof (induction n)
    case 0
    then show ?case using assms f(1) pool.reach_inv by auto
  next
    case (Suc n)
    then show ?case using step_sys_inv f(2) shutdown_step_rank by blast
  qed
  then have "sys_rank (f (Suc n)) < sys_rank (f n)" for n
    using shutdown_step_rank [OF _ _ f(2)] f(3) by blast
  then have "\<forall>n. (f (Suc n), f n) \<in> measure sys_rank" by simp
  then show False using wf_measure [of sys_rank] by (auto simp: wf_iff_no_infinite_down_chain)
qed

theorem shutdown_terminates_witness:
  "\<nexists>f. f 0 = demo_shut \<and> (\<forall>n. pool_step 1 demo_spawn (f n) (f (Suc n)) \<and> f (Suc n) \<noteq> f n)"
  by (rule shutdown_terminates [OF demo_shut_reach]) (simp add: demo_shut_def)

text \<open>
  Shutting down never gets stuck: if no accepted task is an empty function, a shut down pool that is
  not deleted yet always has a step that brings it closer to the end, and the pool can be run until its
  owner has deleted it.
\<close>

theorem shutdown_reaches_delete:
  assumes "pool_reach cores spawn s" "tp_shutdown (sy_pool s)"
    and "\<forall>t \<in> set (sy_accepted s). task_fun t \<noteq> None"
  shows "\<exists>s' r. steps (pool_step cores spawn) s s' \<and> sy_owner s' = Deleted r"
  using shutdown_completes [OF pool.reach_inv [OF assms(1)] assms(2,3)] .

theorem shutdown_reaches_delete_witness:
  "\<exists>s' r. steps (pool_step 1 demo_spawn) demo_shut s' \<and> sy_owner s' = Deleted r"
  by (rule shutdown_reaches_delete [OF demo_shut_reach]) (simp_all add: demo_shut_def demo_task_def)

text \<open>
  When the owner deletes the pool, every thread that got past line 183 has exited; a thread that did
  not is still to run. \<open>free_resource\<close> answers -1 if a thread is between lines 182 and 183, and otherwise
  ends in the destruction of the locked mutex.
\<close>

theorem delete_joined_named_threads:
  assumes "pool_reach cores spawn s" "pool_step cores spawn s s'" "sy_owner s = Joining k" "sy_owner s' = Deleted r"
  shows "(\<forall>i < length (sy_pcs s). sy_pcs s ! i \<in> {Exited, Spawned, Counted}) \<and>
     r = (if Counted \<in> set (sy_pcs s) then Ret (-1) else Stop Mutex_Misuse)"
  using delete_threads [OF pool.reach_inv [OF assms(1)] assms(2-4)] by auto

theorem delete_joined_named_threads_witness:
  "\<exists>s'. pool_step 1 demo_spawn demo_shut s' \<and> sy_owner s' = Deleted (Stop Mutex_Misuse)"
proof -
  let ?r = "bind_outcome (free_resource 9 (sy_pool demo_shut)) (\<lambda>(rc, p'). Ret rc)"
  have "tp_thread_count (sy_pool demo_shut) = 0" by (simp add: demo_shut_def demo_pool_ready)
  then have "pool_step 1 demo_spawn demo_shut (demo_shut\<lparr>sy_owner := Deleted ?r\<rparr>)"
    by (intro pool_step.delete [where k = 0 and c = 9]) (simp_all add: demo_shut_def)
  with delete_joined_named_threads [OF demo_shut_reach this, of 0 ?r] show ?thesis
    by (intro exI [of _ "demo_shut\<lparr>sy_owner := Deleted ?r\<rparr>"]) (simp add: demo_shut_def demo_serving_def)
qed

text \<open>
  C39. The join loop is bounded by \<open>thread_count_\<close>, which counts the threads that have started, not those
  created: there is a reachable state in which the pool is deleted while a created thread has not run
  yet, and that thread's next step writes to the deleted pool.
\<close>

theorem delete_before_start:
  "\<exists>(s :: (nat, nat) pool_sys) r. pool_reach 1 demo_spawn s \<and> sy_owner s = Deleted r \<and> at_pc s 0 Spawned \<and>
     pool_step 1 demo_spawn s (routine_count 0 s)"
proof -
  let ?s = "demo_shut\<lparr>sy_owner := Deleted (bind_outcome (free_resource 9 (sy_pool demo_shut)) (\<lambda>(rc, p'). Ret rc))\<rparr>"
  have "tp_thread_count (sy_pool demo_shut) = 0" by (simp add: demo_shut_def demo_pool_ready)
  then have "pool_step 1 demo_spawn demo_shut ?s"
    by (intro pool_step.delete [where k = 0 and c = 9]) (simp_all add: demo_shut_def)
  then have "pool_reach 1 demo_spawn ?s" by (rule reach_step [OF demo_shut_reach])
  moreover have at: "at_pc ?s 0 Spawned" by (simp add: demo_shut_def demo_serving_def)
  moreover have "pool_step 1 demo_spawn ?s (routine_count 0 ?s)" by (rule pool_step.count [OF at])
  moreover have "sy_owner ?s = Deleted (bind_outcome (free_resource 9 (sy_pool demo_shut)) (\<lambda>(rc, p'). Ret rc))"
    by simp
  ultimately show ?thesis by blast
qed

text \<open>
  Every thread is bound to exactly one existing processor.
\<close>

theorem threads_bound_to_one_cpu:
  assumes "pool_reach cores spawn s" "(i, m) \<in> set (sy_bound s)"
  shows "\<exists>c. 0 \<le> c \<and> c < cores \<and> m = {c}"
  using reach_bound [OF assms(1)] assms(2) by (auto simp: bound_inv_def one_cpu_def)

theorem threads_bound_to_one_cpu_witness:
  "\<exists>(s :: (nat, nat) pool_sys) c :: int. pool_reach 1 demo_spawn s \<and> (0, {c}) \<in> set (sy_bound s) \<and> 0 \<le> c \<and> c < 1"
proof -
  let ?s = "routine_bind 0 (routine_name 0 (routine_count 0 demo_serving))"
  have r: "pool_reach 1 demo_spawn ?s"
    by (rule start_run [OF demo_serving_reach]) (simp add: demo_serving_def)
  have b: "(0, {0}) \<in> set (sy_bound ?s)"
    by (simp add: routine_defs demo_serving_def sys_of_def demo_pool_def)
  from threads_bound_to_one_cpu [OF r b] r b show ?thesis by blast
qed

text \<open>
  The binding is not the one \<open>create\<close> asks for: the mask is one field shared by all threads, and a
  thread reads it when it runs, not when it is created. With two threads on two processors, the thread
  created for processor 0 can end up bound to processor 1.
\<close>

theorem affinity_race:
  "\<exists>s :: (nat, nat) pool_sys. pool_reach 2 demo_spawn s \<and> (0, {1}) \<in> set (sy_bound s)"
proof -
  let ?p = "create_prepare 2 2 1024 thread_pool_ctor :: (nat, nat) thread_pool"
  let ?p1 = "?p\<lparr>tp_mask := {0}, tp_threads := [70, 0]\<rparr>" and ?p2 = "?p\<lparr>tp_mask := {1}, tp_threads := [70, 71]\<rparr>"
  let ?s1 = "(sys_of ?p)\<lparr>sy_pool := ?p1, sy_pcs := [Spawned]\<rparr>"
  let ?s2 = "(sys_of ?p)\<lparr>sy_pool := ?p2, sy_pcs := [Spawned, Spawned]\<rparr>"
  have threads: "tp_threads ?p = [0, 0]"
    by (simp add: create_prepare_def Let_def thread_pool_ctor_def vec_resize_def MAX_THREADS_def numeral_2_eq_2)
  have one: "thread_pool_create_loop 2 demo_spawn 0 1 ?p = Ret (0, ?p1)"
    by (simp add: demo_spawn_def threads c_rem_def vec_put_at_def vec_in_def cpu_set_of_def)
  have two: "thread_pool_create_loop 2 demo_spawn 1 1 ?p1 = Ret (0, ?p2)"
    by (simp add: demo_spawn_def threads c_rem_def vec_put_at_def vec_in_def cpu_set_of_def signed_modulo_int_def
        signed_divide_int_def)
  have "pool_step 2 demo_spawn (sys_of ?p) ((sys_of ?p)\<lparr>sy_pool := ?p1, sy_pcs := sy_pcs (sys_of ?p) @ [Spawned]\<rparr>)"
    using one by (intro pool_step.spawn) (simp_all add: sys_of_def threads)
  then have step1: "pool_step 2 demo_spawn (sys_of ?p) ?s1" by (simp add: sys_of_def)
  have "pool_step 2 demo_spawn ?s1 (?s1\<lparr>sy_pool := ?p2, sy_pcs := sy_pcs ?s1 @ [Spawned]\<rparr>)"
    using two by (intro pool_step.spawn) (simp_all add: sys_of_def)
  then have step2: "pool_step 2 demo_spawn ?s1 ?s2" by simp
  let ?s5 = "routine_bind 0 (routine_name 0 (routine_count 0 ?s2))"
  have "pool_reach 2 demo_spawn (sys_of ?p)"
    by (rule reach_init) (auto simp: pool_init_def MAX_THREADS_def)
  then have "pool_reach 2 demo_spawn ?s1" using step1 by (rule reach_step)
  then have "pool_reach 2 demo_spawn ?s2" using step2 by (rule reach_step)
  then have "pool_reach 2 demo_spawn ?s5" by (rule start_run) simp
  moreover have "(0, {1}) \<in> set (sy_bound ?s5)" by (simp add: routine_defs)
  ultimately show ?thesis by blast
qed

end
