(* ===== verification/Concurrent_System.thy ===== *)
theory Concurrent_System
  imports Worker_Threads Tcp_Server Thread_Pool_Threads
begin

text \<open>
  The whole server, interleaved: the listening loop of \<open>tcp_server.cpp\<close>, the threads of \<open>thread_pool.cpp\<close> and the
  workers of \<open>tcp_worker_pool.cpp\<close>, on the one trace of system calls. The parts are the step relations of
  \<open>Thread_Pool_Threads\<close> and \<open>Worker_Threads\<close> and the handlers of \<open>Tcp_Server\<close>, \<open>Tcp_Worker_Pool\<close> and \<open>Tcp_Worker\<close>; they meet in three
  places: an accepted connection is submitted to the pool, the task of a pool thread pushes its client into the
  workers' queue, a worker takes it out into its table.

  A task is two steps, the greeting, which is input and output only, and the push under the lock; \<open>fs_greeted\<close> has the threads
  between the two. \<open>startup\<close> starts the workers and stores the counter before it creates the pool, and the listening
  loop begins when it has returned. The loop waits (\<open>listen\<close>, which only adds the call to the trace) and handles one event (\<open>accept\<close>). The contents of a thread's buffers are arbitrary. The ghost \<open>fs_lost\<close> has the descriptors whose task
  the ring refused.
\<close>

section \<open>The calls that give something back\<close>

definition client_fd :: "client_info \<Rightarrow> int" where
  "client_fd info = ev_fd (ci_eplev info)"

fun is_close :: "syscall \<Rightarrow> bool" where
  "is_close (Sys_close fd) = True"
| "is_close (Sys_epoll_ctl_del ep fd) = True"
| "is_close c = False"

text \<open>Calls that neither accept nor close.\<close>

fun plain_call :: "syscall \<Rightarrow> bool" where
  "plain_call (Sys_accept fd) = False"
| "plain_call c = (\<not> is_close c)"

lemma plain_calls: "\<forall>c \<in> set cs. plain_call (fst c) \<Longrightarrow> accepted_fds cs = [] \<and> (\<forall>c \<in> set cs. \<not> is_close (fst c))"
proof (induction cs)
  case (Cons c cs)
  obtain d r where c: "c = (d, r)" by (cases c)
  from Cons.prems have "plain_call d" by (simp add: c)
  then have "accepted_of (d, r) = []" "\<not> is_close d" by (cases d; simp)+
  then show ?case using Cons by (simp add: c)
qed simp

lemma client_greet_plain: "only_calls plain_call (client_greet os info b)"
  unfolding client_greet_def recv_into_def send_buf_def Let_def
  by (intro only_calls_call_out) (auto intro!: only_calls_bind only_calls_call_void)

lemma adopt_plain: "only_calls plain_call (tcp_worker_adopt os q w)"
  unfolding tcp_worker_adopt_def epoll_add_event_def Let_def
  by (auto split: list.splits intro!: only_calls_bind only_calls_call only_calls_CHECK_PERROR)

lemma server_event_closes_nothing:
  assumes "server_on_event os inet_ntoa cores spawn t ev st tr = (Ret st', tr @ cs)"
  shows "\<forall>c \<in> set cs. \<not> is_close (fst c)"
  using assms
  by (cases st)
     (auto simp: server_on_event_def call_out_def call_void_def bind_io_def lift_def ret_def stop_def Let_def
           split: if_splits outcome.splits prod.splits)

lemma adopt_result:
  assumes "tcp_worker_adopt os q w tr = (Ret (q', w'), tr')"
  shows "(\<exists>cs. tr' = tr @ cs \<and> accepted_fds cs = [] \<and> (\<forall>c \<in> set cs. \<not> is_close (fst c))) \<and>
    (\<forall>fd. tw_clients w fd \<noteq> None \<longrightarrow> tw_clients w' fd \<noteq> None) \<and>
    (case q of [] \<Rightarrow> q' = [] | info # rest \<Rightarrow> q' = rest \<and> tw_clients w' (client_fd info) \<noteq> None)"
proof -
  have "\<exists>cs. tr' = tr @ cs \<and> accepted_fds cs = [] \<and> (\<forall>c \<in> set cs. \<not> is_close (fst c))"
    using only_callsD [OF adopt_plain assms] plain_calls by blast
  then show ?thesis
    using assms
    by (cases q) (auto simp: tcp_worker_adopt_def ret_def bind_io_def client_fd_def Let_def split: outcome.splits prod.splits)
qed

section \<open>State\<close>

record full_sys =
  fs_server :: tcp_server
  fs_caddr :: sockaddr_in
  fs_pool :: "(client_info, unit) pool_sys"
  fs_wk :: "client_info wk_sys"
  fs_objs :: "tcp_worker list"
  fs_greeted :: "nat set"
  fs_trace :: trace
  fs_lost :: "int list"

section \<open>Steps\<close>

text \<open>\<open>pthread_cond_signal\<close>: thread \<open>k\<close> is the one that wakes, when any is waiting.\<close>

definition signal_may :: "nat \<Rightarrow> (client_info, unit) pool_sys \<Rightarrow> bool" where
  "signal_may k p \<longleftrightarrow> at_pc p k Waiting \<or> Waiting \<notin> set (sy_pcs p)"

definition signalled :: "nat \<Rightarrow> (client_info, unit) pool_sys \<Rightarrow> (client_info, unit) pool_sys" where
  "signalled k p = (if at_pc p k Waiting then set_pc k At_Lock p else p)"

text \<open>The tasks that are in the ring after an event of the listening socket and were not before.\<close>

definition new_tasks :: "client_pool \<Rightarrow> client_pool \<Rightarrow> (client_info, unit) thread_pool_task list" where
  "new_tasks tp tp' = drop (length (pool_tasks tp)) (pool_tasks tp')"

text \<open>The second half of \<open>client_task\<close>, lines 344 to 353.\<close>

definition hand_over :: "tid \<Rightarrow> client_info \<Rightarrow> client_info wk_sys \<Rightarrow> client_info wk_sys outcome" where
  "hand_over t info w =
     bind_outcome (with_lockguard t (\<lambda>(l, q). Ret ((), l, q @ [info])) (\<lparr>wl_mutex = wk_lock w\<rparr>, wk_storage w)) (\<lambda>(u, l, q).
     Ret (w\<lparr>wk_lock := wl_mutex l, wk_storage := q, wk_pushed := wk_pushed w @ [info]\<rparr>))"

inductive full_step :: "os \<Rightarrow> (u32 \<Rightarrow> string) \<Rightarrow> int \<Rightarrow> (nat \<Rightarrow> int \<times> nat) \<Rightarrow> full_sys \<Rightarrow> full_sys \<Rightarrow> bool"
  for os :: os and inet_ntoa :: "u32 \<Rightarrow> string" and cores :: int and spawn :: "nat \<Rightarrow> int \<times> nat" where
  startup: "\<not> wk_stored (fs_wk s) \<Longrightarrow> wk_step (fs_wk s) w \<Longrightarrow> w \<in> {startup_start (fs_wk s), startup_store (fs_wk s)} \<Longrightarrow>
    full_step os inet_ntoa cores spawn s (s\<lparr>fs_wk := w\<rparr>)"
| accept: "in_service (sy_owner (fs_pool s)) \<Longrightarrow>
    server_on_event os inet_ntoa cores spawn t ev (fs_server s, sy_pool (fs_pool s), fs_caddr s) (fs_trace s) =
      (Ret (sv, tp, ca), fs_trace s @ cs) \<Longrightarrow>
    nt = new_tasks (sy_pool (fs_pool s)) tp \<Longrightarrow> signal_may k (fs_pool s) \<Longrightarrow>
    p = (if nt = [] then fs_pool s else signalled k (fs_pool s)) \<Longrightarrow>
    full_step os inet_ntoa cores spawn s
      (s\<lparr>fs_server := sv, fs_caddr := ca, fs_pool := p\<lparr>sy_pool := tp, sy_accepted := sy_accepted p @ nt\<rparr>,
         fs_trace := fs_trace s @ cs, fs_lost := fs_lost s @ (if nt = [] then accepted_fds cs else [])\<rparr>)"
| thread: "wk_stored (fs_wk s) \<Longrightarrow> pool_step cores spawn (fs_pool s) p \<Longrightarrow>
    sy_accepted p = sy_accepted (fs_pool s) \<Longrightarrow> sy_ran p = sy_ran (fs_pool s) \<Longrightarrow>
    full_step os inet_ntoa cores spawn s (s\<lparr>fs_pool := p\<rparr>)"
| greet: "at_pc (fs_pool s) i (Has_Task task) \<Longrightarrow> i \<notin> fs_greeted s \<Longrightarrow> thread_pool_task_run task = Ret (info, args) \<Longrightarrow>
    bufs_ok b \<Longrightarrow> client_greet os info b (fs_trace s) = (Ret b', tr) \<Longrightarrow>
    full_step os inet_ntoa cores spawn s (s\<lparr>fs_trace := tr, fs_greeted := insert i (fs_greeted s)\<rparr>)"
| push: "at_pc (fs_pool s) i (Has_Task task) \<Longrightarrow> i \<in> fs_greeted s \<Longrightarrow> thread_pool_task_run task = Ret (info, args) \<Longrightarrow>
    hand_over t info (fs_wk s) = Ret w \<Longrightarrow> routine_run i task (fs_pool s) = Ret p \<Longrightarrow>
    full_step os inet_ntoa cores spawn s (s\<lparr>fs_wk := w, fs_pool := p, fs_greeted := fs_greeted s - {i}\<rparr>)"
| worker: "i < length (wk_pcs (fs_wk s)) \<Longrightarrow> wk_pcs (fs_wk s) ! i \<noteq> Wk_Adopt \<Longrightarrow> (\<forall>wt. wk_pcs (fs_wk s) ! i \<noteq> Wk_Poll wt) \<Longrightarrow>
    worker_move i (fs_wk s) = Some w \<Longrightarrow>
    full_step os inet_ntoa cores spawn s (s\<lparr>fs_wk := w\<rparr>)"
| adopt: "i < length (wk_pcs (fs_wk s)) \<Longrightarrow> wk_pcs (fs_wk s) ! i = Wk_Adopt \<Longrightarrow> worker_move i (fs_wk s) = Some w \<Longrightarrow>
    tcp_worker_adopt os (wk_storage (fs_wk s)) (fs_objs s ! i) (fs_trace s) = (Ret (q, x), tr) \<Longrightarrow>
    full_step os inet_ntoa cores spawn s (s\<lparr>fs_wk := w, fs_objs := (fs_objs s)[i := x], fs_trace := tr\<rparr>)"
| poll: "i < length (wk_pcs (fs_wk s)) \<Longrightarrow> wk_pcs (fs_wk s) ! i = Wk_Poll wt \<Longrightarrow> worker_move i (fs_wk s) = Some w \<Longrightarrow>
    tcp_worker_poll os wt (fs_objs s ! i) b (fs_trace s) = (Ret (x, b'), tr) \<Longrightarrow>
    full_step os inet_ntoa cores spawn s (s\<lparr>fs_wk := w, fs_objs := (fs_objs s)[i := x], fs_trace := tr\<rparr>)"
| listen: "epoll_poll_event os (\<lambda>arr n u. ret u) w EPOLL_WAIT_TIME () (fs_trace s) = (Ret (w', ()), tr) \<Longrightarrow>
    full_step os inet_ntoa cores spawn s (s\<lparr>fs_trace := tr\<rparr>)"

text \<open>Every worker's array of events has its size.\<close>

definition arrays_ok :: "tcp_worker list \<Rightarrow> bool" where
  "arrays_ok xs \<longleftrightarrow> (\<forall>x \<in> set xs. length (ep_evary (tw_poller x)) = MAX_EVENTS)"

text \<open>
  The start: \<open>tcp_server::startup\<close> has made the listening socket and calls \<open>tcp_worker_pool::startup\<close>, whose flag \<open>started_\<close> is
  read only when that has returned and set it. The pool is about to be created by \<open>create(CPU_CORE)\<close>, with the queue size that is the default of
  the second argument; the workers have no clients.
\<close>

definition full_init :: "int \<Rightarrow> nat \<Rightarrow> full_sys \<Rightarrow> bool" where
  "full_init cores n s \<longleftrightarrow> 1 \<le> cores \<and> cores \<le> MAX_THREADS \<and>
     fs_pool s = sys_of (create_prepare cores cores (2 ^ 11) thread_pool_ctor) \<and>
     wk_init (int n) (fs_wk s) \<and> length (fs_objs s) = n \<and> arrays_ok (fs_objs s) \<and> (\<forall>x \<in> set (fs_objs s). tw_clients x = Map.empty) \<and>
     wp_started (sv_worker_pool (fs_server s)) \<and> sv_connected_num (fs_server s) = 0 \<and>
     fs_greeted s = {} \<and> fs_trace s = [] \<and> fs_lost s = []"

section \<open>Invariant\<close>

definition task_client :: "(client_info, unit) thread_pool_task \<Rightarrow> client_info" where
  "task_client x = the (task_fun x)"

definition task_fd :: "(client_info, unit) thread_pool_task \<Rightarrow> int" where
  "task_fd x = client_fd (task_client x)"

definition greeted_in :: "trace \<Rightarrow> int \<Rightarrow> bool" where
  "greeted_in tr fd \<longleftrightarrow> (\<exists>r. (Sys_read fd BUFSIZ, r) \<in> set tr)"

definition accept_inv :: "full_sys \<Rightarrow> bool" where
  "accept_inv s \<longleftrightarrow> wp_started (sv_worker_pool (fs_server s)) \<and>
     unat (sv_connected_num (fs_server s)) = length (accepted_fds (fs_trace s)) \<and> length (accepted_fds (fs_trace s)) \<le> 2048 \<and>
     (\<forall>x \<in> set (sy_accepted (fs_pool s)). task_fun x \<noteq> None) \<and>
     mset (accepted_fds (fs_trace s)) = mset (map task_fd (sy_accepted (fs_pool s))) + mset (fs_lost s)"

definition greet_inv :: "full_sys \<Rightarrow> bool" where
  "greet_inv s \<longleftrightarrow> wk_pushed (fs_wk s) = map task_client (sy_ran (fs_pool s)) \<and>
     (\<forall>i \<in> fs_greeted s. \<exists>x. at_pc (fs_pool s) i (Has_Task x) \<and> greeted_in (fs_trace s) (task_fd x)) \<and>
     (\<forall>info \<in> set (wk_pushed (fs_wk s)). greeted_in (fs_trace s) (client_fd info))"

definition table_inv :: "full_sys \<Rightarrow> bool" where
  "table_inv s \<longleftrightarrow> wk_num (fs_wk s) = int (length (fs_objs s)) \<and>
     (\<forall>(i, info) \<in> set (wk_adopted (fs_wk s)). i < length (fs_objs s) \<and> tw_clients (fs_objs s ! i) (client_fd info) \<noteq> None) \<and>
     (\<forall>c \<in> set (fs_trace s). \<not> is_close (fst c))"

definition full_inv :: "int \<Rightarrow> (nat \<Rightarrow> int \<times> nat) \<Rightarrow> nat \<Rightarrow> full_sys \<Rightarrow> bool" where
  "full_inv cores spawn n s \<longleftrightarrow> pool_reach cores spawn (fs_pool s) \<and> reach (wk_init (int n)) wk_step (fs_wk s) \<and>
     accept_inv s \<and> greet_inv s \<and> table_inv s \<and> arrays_ok (fs_objs s)"

section \<open>What each part does to the others\<close>

lemma worker_pool_submit_room:
  assumes "tcp_worker_pool_submit cores spawn t 0 0 0 info wp tp = Ret (wp', tp')" "wp_started wp" "pool_inv tp"
  shows "wp' = wp \<and> tp_lock tp = Mutex_Free \<and>
    tp' = (if pool_room tp then pool_put \<lparr>task_fun = Some info, task_args = None\<rparr> tp else tp)"
proof -
  obtain err woken where sub: "wp' = wp" "thread_pool_submit t 0 0 0 None (Some info) tp = Ret (err, woken, tp')"
    using assms(1,2) by (auto simp: tcp_worker_pool_submit_def bind_outcome_eq_Ret)
  from submit_explicit [OF assms(3) sub(2)] sub(1) show ?thesis by (auto split: if_splits)
qed

text \<open>One event of the listening socket, when the loop goes on after it.\<close>

definition event_effect :: "tcp_server \<Rightarrow> client_pool \<Rightarrow> tcp_server \<Rightarrow> client_pool \<Rightarrow> int list \<Rightarrow> bool" where
  "event_effect sv tp sv' tp' fds \<longleftrightarrow> wp_started (sv_worker_pool sv') \<and>
     unat (sv_connected_num sv') = unat (sv_connected_num sv) + length fds \<and>
     (fds \<noteq> [] \<longrightarrow> unat (sv_connected_num sv') \<le> 2048) \<and>
     ((fds = [] \<and> tp' = tp) \<or>
      (\<exists>info. fds = [client_fd info] \<and> tp_lock tp = Mutex_Free \<and>
         tp' = (if pool_room tp then pool_put \<lparr>task_fun = Some info, task_args = None\<rparr> tp else tp)))"

lemma event_accepted:
  assumes "tcp_worker_pool_submit cores spawn t 0 0 0 (accepted_info inet_ntoa fd addr) (sv_worker_pool sv) tp = Ret (wp', tp')"
    "wp_started (sv_worker_pool sv)" "pool_inv tp" "sv_connected_num sv < SERVER_MAX_CONNECTION"
  shows "event_effect sv tp (sv\<lparr>sv_worker_pool := wp', sv_connected_num := sv_connected_num sv + 1\<rparr>) tp' [fd]"
proof -
  have "fd = client_fd (accepted_info inet_ntoa fd addr)" by (simp add: client_fd_def accepted_info_def)
  then show ?thesis
    using worker_pool_submit_room [OF assms(1-3)] connected_succ [OF assms(4)] assms(2)
    unfolding event_effect_def by auto
qed

lemma server_event_effect:
  assumes "server_on_event os inet_ntoa cores spawn t ev (sv, tp, ca) tr = (Ret (sv', tp', ca'), tr @ cs)"
    "wp_started (sv_worker_pool sv)" "pool_inv tp"
  shows "event_effect sv tp sv' tp' (accepted_fds cs) \<and> (\<forall>c \<in> set cs. \<not> is_close (fst c))"
proof
  show "\<forall>c \<in> set cs. \<not> is_close (fst c)" using server_event_closes_nothing [OF assms(1)] .
  show "event_effect sv tp sv' tp' (accepted_fds cs)"
  proof (cases "has_event (ev_events ev) EPOLLIN \<and> sv_connected_num sv < SERVER_MAX_CONNECTION")
    case False
    then show ?thesis using assms
      by (auto simp: server_on_event_def call_void_def call_out_def ret_def stop_def event_effect_def split: if_splits)
  next
    case True
    obtain fd out where acc: "os tr (Sys_accept (sv_sockfd sv)) = (fd, out)" by (cases "os tr (Sys_accept (sv_sockfd sv))")
    let ?info = "accepted_info inet_ntoa fd (out_addr out ca)"
    show ?thesis
    proof (cases "fd > 0")
      case False
      then show ?thesis using assms True acc
        by (auto simp: server_on_event_def call_void_def call_out_def ret_def event_effect_def Let_def)
    next
      case pos: True
      obtain wp' where sub: "tcp_worker_pool_submit cores spawn t 0 0 0 ?info (sv_worker_pool sv) tp = Ret (wp', tp')"
         and sv': "sv' = sv\<lparr>sv_worker_pool := wp', sv_connected_num := sv_connected_num sv + 1\<rparr>"
        using assms(1) True acc pos
        by (auto simp: server_on_event_def call_void_def call_out_def bind_io_def lift_def ret_def Let_def
            split: outcome.splits prod.splits)
      have "accepted_fds cs = [fd]" using assms(1) True acc pos sub
        by (auto simp: server_on_event_def call_void_def call_out_def bind_io_def lift_def ret_def Let_def)
      then show ?thesis using event_accepted [OF sub assms(2,3)] True sv' by simp
    qed
  qed
qed

lemma hand_over_free:
  "hand_over t info w = Ret w' \<longleftrightarrow> wk_lock w = Mutex_Free \<and> w' = push_client info w"
proof (cases "wk_lock w")
  case Mutex_Free
  have "with_lockguard t (\<lambda>(l, q). Ret ((), l, q @ [info])) (\<lparr>wl_mutex = Mutex_Free\<rparr>, wk_storage w) =
      Ret ((), \<lparr>wl_mutex = Mutex_Free\<rparr>, wk_storage w @ [info])"
    by (rule with_lockguard_free) simp_all
  then show ?thesis using Mutex_Free by (auto simp: hand_over_def push_client_def)
qed (simp_all add: hand_over_def with_lockguard_def worker_lock_defs)

text \<open>Greeting reads from the client first.\<close>

lemma call_out_head:
  assumes "call_out os c k tr = (r, tr')" "\<And>n out. only_calls P (k n out)"
  shows "\<exists>n cs. tr' = tr @ (c, n) # cs"
  using only_callsD [OF assms(2), of "fst (os tr c)" "snd (os tr c)" "tr @ [(c, fst (os tr c))]" r tr'] assms(1)
  by (auto simp: call_out_def)

lemma greet_reads:
  assumes "client_greet os info b tr = (r, tr')"
  shows "greeted_in tr' (client_fd info)"
proof -
  have "\<exists>n cs. tr' = tr @ (Sys_read (ev_fd (ci_eplev info)) BUFSIZ, n) # cs"
    using assms unfolding client_greet_def recv_into_def Let_def
    by (rule call_out_head [where P = plain_call])
       (auto simp: send_buf_def intro!: only_calls_bind only_calls_call_void)
  then show ?thesis by (auto simp: greeted_in_def client_fd_def)
qed

lemma greeted_in_mono: "greeted_in tr fd \<Longrightarrow> greeted_in (tr @ cs) fd"
  by (auto simp: greeted_in_def)

lemma poll_plain: "only_calls plain_call (tcp_worker_poll os wt w b)"
proof -
  have io: "plain_call c" if "is_client_io c" for c using that by (cases c) simp_all
  have ev: "only_calls plain_call (worker_on_event os ev b)" for ev b
    using worker_on_event_calls [of os ev b] only_calls_mono io by blast
  have "only_calls plain_call (for_events_from (worker_on_event os) arr i k b)" for arr i k b
    by (induction k arbitrary: i b) (simp_all add: only_calls_bind ev)
  then show ?thesis
    unfolding tcp_worker_poll_def epoll_poll_event_def worker_callback_def for_events_def Let_def
    by (intro only_calls_bind only_calls_call_out only_calls_CHECK_PERROR) (auto split: prod.splits)
qed

lemma poll_keeps_table: "tcp_worker_poll os wt w b tr = (Ret (w', b'), tr') \<Longrightarrow> tw_clients w' = tw_clients w"
  by (auto simp: tcp_worker_poll_def bind_io_def ret_def split: prod.splits outcome.splits)

lemma worker_move_frame:
  "worker_move i w = Some w' \<Longrightarrow> wk_num w' = wk_num w \<and> wk_pushed w' = wk_pushed w \<and>
     wk_adopted w' = wk_adopted w @ (if wk_pcs w ! i = Wk_Adopt
       then (case wk_storage w of [] \<Rightarrow> [] | info # rest \<Rightarrow> [(i, info)]) else [])"
  by (auto simp: worker_move_def worker_test_def worker_dec_def worker_cmp_def worker_use_def worker_polled_def worker_inc_def
      worker_lock_queue_def worker_adopt_def bind_outcome_eq_Ret split: wpc.splits outcome.splits list.splits)

lemma startup_frame:
  "w' \<in> {startup_start w, startup_store w} \<Longrightarrow> wk_num w' = wk_num w \<and> wk_pushed w' = wk_pushed w \<and>
     wk_adopted w' = wk_adopted w \<and> wk_storage w' = wk_storage w"
  by (auto simp: startup_start_def startup_store_def)

text \<open>A thread that has a task keeps it until it has run it.\<close>

lemma task_kept:
  assumes "pool_step cores spawn p p'" "lock_inv p" "pool_inv (sy_pool p)" "sy_ran p' = sy_ran p" "at_pc p i (Has_Task x)"
  shows "at_pc p' i (Has_Task x)"
  using assms(1-3)
  by (cases rule: pool_step_explicit)
     (use assms(4,5) in \<open>auto simp: routine_count_def routine_name_def routine_bind_def nth_list_update nth_append\<close>)

lemma signalled_task: "at_pc p i (Has_Task x) \<Longrightarrow> at_pc (signalled k p) i (Has_Task x)"
  by (auto simp: signalled_def nth_list_update)

text \<open>An accepted connection is a submission to the pool.\<close>

lemma accept_pool_step:
  assumes "event_effect sv (sy_pool p) sv' tp' fds" "pool_inv (sy_pool p)" "in_service (sy_owner p)" "signal_may k p"
    and "nt = new_tasks (sy_pool p) tp'" "p1 = (if nt = [] then p else signalled k p)"
  shows "(nt = [] \<and> p1\<lparr>sy_pool := tp', sy_accepted := sy_accepted p1 @ nt\<rparr> = p) \<or>
    (\<exists>info. fds = [client_fd info] \<and> nt = [\<lparr>task_fun = Some info, task_args = None\<rparr>] \<and>
       pool_step cores spawn p (p1\<lparr>sy_pool := tp', sy_accepted := sy_accepted p1 @ nt\<rparr>))"
proof (cases "tp' = sy_pool p")
  case True
  then show ?thesis using assms(5,6) by (simp add: new_tasks_def)
next
  case False
  then obtain info where i: "fds = [client_fd info]" "tp_lock (sy_pool p) = Mutex_Free" "pool_room (sy_pool p)"
    "tp' = pool_put \<lparr>task_fun = Some info, task_args = None\<rparr> (sy_pool p)"
    using assms(1) by (auto simp: event_effect_def split: if_splits)
  let ?x = "\<lparr>task_fun = Some info, task_args = None\<rparr>"
  have nt: "nt = [?x]"
    using i(3,4) pool_put_tasks [OF assms(2), of ?x] by (simp add: assms(5) new_tasks_def pool_room_def)
  have sub: "thread_pool_submit 0 0 0 0 None (Some info) (sy_pool p) = Ret (0, True, tp')"
    using submit_stores [OF assms(2) i(2,3), of 0 0 0 None "Some info"] i(4) by (simp add: Let_def)
  have "pool_step cores spawn p (p1\<lparr>sy_pool := tp', sy_accepted := sy_accepted p1 @ nt\<rparr>)"
  proof (cases "at_pc p k Waiting")
    case True
    then show ?thesis
      using pool_step.submit_signal [OF assms(3) sub True] by (simp add: assms(6) nt signalled_def)
  next
    case False
    then have "Waiting \<notin> set (sy_pcs p)" using assms(4) by (auto simp: signal_may_def)
    with pool_step.submit_nobody [OF assms(3) sub this] False show ?thesis by (auto simp: assms(6) nt signalled_def)
  qed
  then show ?thesis using i(1) nt by blast
qed

section \<open>The invariant is kept\<close>

lemma accept_inv_frame:
  assumes "accept_inv s" "fs_server s' = fs_server s" "fs_lost s' = fs_lost s"
    "sy_accepted (fs_pool s') = sy_accepted (fs_pool s)" "accepted_fds (fs_trace s') = accepted_fds (fs_trace s)"
  shows "accept_inv s'"
  using assms by (simp add: accept_inv_def)

lemma greet_inv_frame:
  assumes "greet_inv s" "wk_pushed (fs_wk s') = wk_pushed (fs_wk s)" "sy_ran (fs_pool s') = sy_ran (fs_pool s)"
    "fs_greeted s' = fs_greeted s" "fs_trace s' = fs_trace s @ cs"
    "\<And>i x. at_pc (fs_pool s) i (Has_Task x) \<Longrightarrow> at_pc (fs_pool s') i (Has_Task x)"
  shows "greet_inv s'"
  unfolding greet_inv_def
proof (intro conjI ballI)
  show "wk_pushed (fs_wk s') = map task_client (sy_ran (fs_pool s'))" using assms(1-3) by (simp add: greet_inv_def)
  show "\<exists>x. at_pc (fs_pool s') i (Has_Task x) \<and> greeted_in (fs_trace s') (task_fd x)" if i: "i \<in> fs_greeted s'" for i
  proof -
    obtain x where x: "at_pc (fs_pool s) i (Has_Task x)" "greeted_in (fs_trace s) (task_fd x)"
      using assms(1) i unfolding greet_inv_def assms(4) by blast
    from assms(6) [OF x(1)] greeted_in_mono [OF x(2)] show ?thesis unfolding assms(5) by blast
  qed
  show "greeted_in (fs_trace s') (client_fd info)" if "info \<in> set (wk_pushed (fs_wk s'))" for info
    using assms(1) that greeted_in_mono unfolding greet_inv_def assms(2,5) by blast
qed

lemma table_inv_frame:
  assumes "table_inv s" "wk_num (fs_wk s') = wk_num (fs_wk s)" "wk_adopted (fs_wk s') = wk_adopted (fs_wk s)"
    "length (fs_objs s') = length (fs_objs s)" "fs_trace s' = fs_trace s @ cs" "\<forall>c \<in> set cs. \<not> is_close (fst c)"
    "\<And>i fd. i < length (fs_objs s) \<Longrightarrow> tw_clients (fs_objs s ! i) fd \<noteq> None \<Longrightarrow> tw_clients (fs_objs s' ! i) fd \<noteq> None"
  shows "table_inv s'"
proof -
  have "\<forall>(i, info) \<in> set (wk_adopted (fs_wk s')).
      i < length (fs_objs s') \<and> tw_clients (fs_objs s' ! i) (client_fd info) \<noteq> None"
    using assms(1,7) unfolding table_inv_def assms(3,4) by blast
  moreover have "wk_num (fs_wk s') = int (length (fs_objs s'))"
    using assms(1) by (simp add: table_inv_def assms(2,4))
  moreover have "\<forall>c \<in> set (fs_trace s'). \<not> is_close (fst c)"
    using assms(1,6) unfolding table_inv_def assms(5) set_append by blast
  ultimately show ?thesis unfolding table_inv_def by blast
qed

lemma full_startup_inv:
  assumes "full_inv cores spawn n s" "wk_step (fs_wk s) w" "w \<in> {startup_start (fs_wk s), startup_store (fs_wk s)}"
  shows "full_inv cores spawn n (s\<lparr>fs_wk := w\<rparr>)"
proof -
  have inv: "accept_inv s" "greet_inv s" "table_inv s" using assms(1) by (simp_all add: full_inv_def)
  note w = startup_frame [OF assms(3)]
  have "accept_inv (s\<lparr>fs_wk := w\<rparr>)" by (rule accept_inv_frame [OF inv(1)]) simp_all
  moreover have "greet_inv (s\<lparr>fs_wk := w\<rparr>)" by (rule greet_inv_frame [OF inv(2), of _ "[]"]) (simp_all add: w)
  moreover have "table_inv (s\<lparr>fs_wk := w\<rparr>)" by (rule table_inv_frame [OF inv(3), of _ "[]"]) (simp_all add: w)
  moreover have "reach (wk_init (int n)) wk_step w"
    using assms(1) reach_step [of _ wk_step "fs_wk s" w] assms(2) by (simp add: full_inv_def)
  ultimately show ?thesis using assms(1) by (simp add: full_inv_def)
qed

lemma full_accept_inv:
  assumes "full_inv cores spawn n s" "in_service (sy_owner (fs_pool s))"
    "server_on_event os inet_ntoa cores spawn' t ev (fs_server s, sy_pool (fs_pool s), fs_caddr s) (fs_trace s) =
      (Ret (sv, tp, ca), fs_trace s @ cs)"
    "nt = new_tasks (sy_pool (fs_pool s)) tp" "signal_may k (fs_pool s)"
    "p = (if nt = [] then fs_pool s else signalled k (fs_pool s))"
  shows "full_inv cores spawn n (s\<lparr>fs_server := sv, fs_caddr := ca, fs_pool := p\<lparr>sy_pool := tp, sy_accepted := sy_accepted p @ nt\<rparr>,
         fs_trace := fs_trace s @ cs, fs_lost := fs_lost s @ (if nt = [] then accepted_fds cs else [])\<rparr>)"
    (is "full_inv cores spawn n ?s'")
proof -
  let ?p = "p\<lparr>sy_pool := tp, sy_accepted := sy_accepted p @ nt\<rparr>"
  have inv: "accept_inv s" "greet_inv s" "table_inv s" "pool_reach cores spawn (fs_pool s)"
    using assms(1) by (simp_all add: full_inv_def)
  have pool: "pool_inv (sy_pool (fs_pool s))" using pool.reach_inv [OF inv(4)] by (simp add: sys_inv_def shape_inv_def)
  have started: "wp_started (sv_worker_pool (fs_server s))" using inv(1) by (simp add: accept_inv_def)
  have eff: "event_effect (fs_server s) (sy_pool (fs_pool s)) sv tp (accepted_fds cs)" "\<forall>c \<in> set cs. \<not> is_close (fst c)"
    using server_event_effect [OF assms(3) started pool] by simp_all
  note step = accept_pool_step [OF eff(1) pool assms(2,5,4,6), of cores spawn]
  have kept: "at_pc p i (Has_Task x)" if "at_pc (fs_pool s) i (Has_Task x)" for i x
    using signalled_task [OF that, of k] that by (simp add: assms(6))
  have ran: "sy_ran p = sy_ran (fs_pool s)" "sy_accepted p = sy_accepted (fs_pool s)"
    by (simp_all add: assms(6) signalled_def)
  have "pool_reach cores spawn ?p" using step inv(4) reach_step by metis
  moreover have "accept_inv ?s'"
    using inv(1) eff(1) step
    by (auto simp: accept_inv_def event_effect_def ran task_fd_def task_client_def)
  moreover have "greet_inv ?s'" by (rule greet_inv_frame [OF inv(2), of _ cs]) (use kept in \<open>simp_all add: ran\<close>)
  moreover have "table_inv ?s'" by (rule table_inv_frame [OF inv(3), of _ cs]) (simp_all add: eff(2))
  ultimately show ?thesis using assms(1) by (simp add: full_inv_def)
qed

lemma full_thread_inv:
  assumes "full_inv cores spawn n s" "pool_step cores spawn (fs_pool s) p" "sy_accepted p = sy_accepted (fs_pool s)"
    "sy_ran p = sy_ran (fs_pool s)"
  shows "full_inv cores spawn n (s\<lparr>fs_pool := p\<rparr>)"
proof -
  have inv: "accept_inv s" "greet_inv s" "table_inv s" "pool_reach cores spawn (fs_pool s)"
    using assms(1) by (simp_all add: full_inv_def)
  have pool: "pool_inv (sy_pool (fs_pool s))" "lock_inv (fs_pool s)"
    using pool.reach_inv [OF inv(4)] by (simp_all add: sys_inv_def shape_inv_def)
  have kept: "at_pc p i (Has_Task x)" if "at_pc (fs_pool s) i (Has_Task x)" for i x
    using task_kept [OF assms(2) pool(2,1) assms(4) that] .
  have "accept_inv (s\<lparr>fs_pool := p\<rparr>)" by (rule accept_inv_frame [OF inv(1)]) (simp_all add: assms(3))
  moreover have "greet_inv (s\<lparr>fs_pool := p\<rparr>)"
    by (rule greet_inv_frame [OF inv(2), of _ "[]"]) (use kept in \<open>simp_all add: assms(4)\<close>)
  moreover have "table_inv (s\<lparr>fs_pool := p\<rparr>)" by (rule table_inv_frame [OF inv(3), of _ "[]"]) simp_all
  moreover have "pool_reach cores spawn p" using reach_step [OF inv(4) assms(2)] .
  ultimately show ?thesis using assms(1) by (simp add: full_inv_def)
qed

lemma task_run_client: "thread_pool_task_run task = Ret (info, args) \<Longrightarrow> task_fun task = Some info \<and> task_client task = info"
  by (auto simp: thread_pool_task_run_def task_client_def split: option.splits)

lemma full_greet_inv:
  assumes "full_inv cores spawn n s" "at_pc (fs_pool s) i (Has_Task task)" "thread_pool_task_run task = Ret (info, args)"
    "client_greet os info b (fs_trace s) = (Ret b', tr)"
  shows "full_inv cores spawn n (s\<lparr>fs_trace := tr, fs_greeted := insert i (fs_greeted s)\<rparr>)"
proof -
  have inv: "accept_inv s" "greet_inv s" "table_inv s" using assms(1) by (simp_all add: full_inv_def)
  obtain cs where cs: "tr = fs_trace s @ cs" "accepted_fds cs = []" "\<forall>c \<in> set cs. \<not> is_close (fst c)"
    using only_callsD [OF client_greet_plain assms(4)] plain_calls by blast
  let ?s = "s\<lparr>fs_trace := tr\<rparr>"
  have "greet_inv ?s" by (rule greet_inv_frame [OF inv(2), of _ cs]) (simp_all add: cs(1))
  moreover have "greeted_in tr (task_fd task)"
    using greet_reads [OF assms(4)] task_run_client [OF assms(3)] by (simp add: task_fd_def)
  ultimately have "greet_inv (s\<lparr>fs_trace := tr, fs_greeted := insert i (fs_greeted s)\<rparr>)"
    using assms(2) by (auto simp: greet_inv_def)
  moreover have "accept_inv (s\<lparr>fs_trace := tr, fs_greeted := insert i (fs_greeted s)\<rparr>)"
    by (rule accept_inv_frame [OF inv(1)]) (simp_all add: cs)
  moreover have "table_inv (s\<lparr>fs_trace := tr, fs_greeted := insert i (fs_greeted s)\<rparr>)"
    by (rule table_inv_frame [OF inv(3), of _ cs]) (simp_all add: cs)
  ultimately show ?thesis using assms(1) by (simp add: full_inv_def)
qed

lemma full_push_inv:
  assumes "full_inv cores spawn n s" "at_pc (fs_pool s) i (Has_Task task)" "i \<in> fs_greeted s"
    "thread_pool_task_run task = Ret (info, args)" "hand_over t info (fs_wk s) = Ret w" "routine_run i task (fs_pool s) = Ret p"
  shows "full_inv cores spawn n (s\<lparr>fs_wk := w, fs_pool := p, fs_greeted := fs_greeted s - {i}\<rparr>)"
    (is "full_inv cores spawn n ?s'")
proof -
  have inv: "accept_inv s" "greet_inv s" "table_inv s" "pool_reach cores spawn (fs_pool s)" "reach (wk_init (int n)) wk_step (fs_wk s)"
    using assms(1) by (simp_all add: full_inv_def)
  have w: "wk_lock (fs_wk s) = Mutex_Free" "w = push_client info (fs_wk s)" using assms(5) by (simp_all add: hand_over_free)
  have info: "task_client task = info" using task_run_client [OF assms(4)] by simp
  have p: "p = (set_pc i At_Lock (fs_pool s))\<lparr>sy_ran := sy_ran (fs_pool s) @ [task]\<rparr>"
    using assms(6) by (auto simp: routine_run_def bind_outcome_eq_Ret)
  have "pool_reach cores spawn p" using reach_step [OF inv(4) pool_step.run [OF assms(2,6)]] .
  moreover have "reach (wk_init (int n)) wk_step w" using reach_step [OF inv(5) wk_step.push [OF w(1)]] by (simp add: w(2))
  moreover have "accept_inv ?s'" by (rule accept_inv_frame [OF inv(1)]) (simp_all add: p)
  moreover have "table_inv ?s'"
    by (rule table_inv_frame [OF inv(3), of _ "[]"]) (simp_all add: w push_client_def)
  moreover have "greet_inv ?s'"
    unfolding greet_inv_def
  proof (intro conjI ballI)
    show "wk_pushed (fs_wk ?s') = map task_client (sy_ran (fs_pool ?s'))"
      using inv(2) by (simp add: greet_inv_def w push_client_def p info)
    show "\<exists>x. at_pc (fs_pool ?s') j (Has_Task x) \<and> greeted_in (fs_trace ?s') (task_fd x)" if "j \<in> fs_greeted ?s'" for j
      using inv(2) that by (auto simp: greet_inv_def p nth_list_update)
    have "greeted_in (fs_trace s) (client_fd info)"
      using inv(2) assms(2,3) by (fastforce simp: greet_inv_def task_fd_def info)
    then show "greeted_in (fs_trace ?s') (client_fd c)" if "c \<in> set (wk_pushed (fs_wk ?s'))" for c
      using inv(2) that by (auto simp: greet_inv_def w push_client_def)
  qed
  ultimately show ?thesis using assms(1) by (simp add: full_inv_def)
qed

lemma reach_worker:
  assumes "reach (wk_init n) wk_step w" "i < length (wk_pcs w)" "worker_move i w = Some w'"
  shows "reach (wk_init n) wk_step w'"
  using reach_step [OF assms(1) wk_step.move [OF assms(2,3)]] .

lemma full_worker_inv:
  assumes "full_inv cores spawn n s" "i < length (wk_pcs (fs_wk s))" "wk_pcs (fs_wk s) ! i \<noteq> Wk_Adopt"
    "worker_move i (fs_wk s) = Some w"
  shows "full_inv cores spawn n (s\<lparr>fs_wk := w\<rparr>)"
proof -
  have inv: "accept_inv s" "greet_inv s" "table_inv s" "reach (wk_init (int n)) wk_step (fs_wk s)"
    using assms(1) by (simp_all add: full_inv_def)
  note w = worker_move_frame [OF assms(4)]
  have "accept_inv (s\<lparr>fs_wk := w\<rparr>)" by (rule accept_inv_frame [OF inv(1)]) simp_all
  moreover have "greet_inv (s\<lparr>fs_wk := w\<rparr>)" by (rule greet_inv_frame [OF inv(2), of _ "[]"]) (simp_all add: w)
  moreover have "table_inv (s\<lparr>fs_wk := w\<rparr>)"
    by (rule table_inv_frame [OF inv(3), of _ "[]"]) (use assms(3) in \<open>simp_all add: w\<close>)
  ultimately show ?thesis using assms(1) reach_worker [OF inv(4) assms(2,4)] by (simp add: full_inv_def)
qed

text \<open>A worker has the number of its object.\<close>

lemma worker_objs: "full_inv cores spawn n s \<Longrightarrow> i < length (wk_pcs (fs_wk s)) \<Longrightarrow> i < length (fs_objs s)"
  using workers.reach_inv [of "int n" "fs_wk s"]
  by (auto simp: full_inv_def table_inv_def wk_inv_def wk_count_inv_def)

lemma table_update:
  assumes "\<And>fd. tw_clients (ws ! i) fd \<noteq> None \<Longrightarrow> tw_clients x fd \<noteq> None" "j < length ws" "tw_clients (ws ! j) fd \<noteq> None"
  shows "tw_clients (ws[i := x] ! j) fd \<noteq> None"
  using assms by (cases "j = i") simp_all

lemma arrays_update: "arrays_ok xs \<Longrightarrow> length (ep_evary (tw_poller x)) = MAX_EVENTS \<Longrightarrow> arrays_ok (xs[i := x])"
  unfolding arrays_ok_def using set_update_subset_insert [of xs i x] by blast

lemma arrays_nth: "arrays_ok xs \<Longrightarrow> i < length xs \<Longrightarrow> length (ep_evary (tw_poller (xs ! i))) = MAX_EVENTS"
  by (simp add: arrays_ok_def)

lemma poll_keeps_array:
  "tcp_worker_poll os wt w b tr = (Ret (w', b'), tr') \<Longrightarrow> length (ep_evary (tw_poller w')) = length (ep_evary (tw_poller w))"
  by (auto simp: tcp_worker_poll_def epoll_poll_event_def CHECK_PERROR_def put_events_def call_out_def call_void_def bind_io_def
      ret_def Let_def split: prod.splits outcome.splits sysout.splits if_splits)

lemma adopt_keeps_array: "tcp_worker_adopt os q w tr = (Ret (q', w'), tr') \<Longrightarrow> tw_poller w' = tw_poller w"
  by (auto simp: tcp_worker_adopt_def ret_def bind_io_def Let_def split: list.splits prod.splits outcome.splits)

lemma full_poll_inv:
  assumes "full_inv cores spawn n s" "i < length (wk_pcs (fs_wk s))" "wk_pcs (fs_wk s) ! i = Wk_Poll wt"
    "worker_move i (fs_wk s) = Some w" "tcp_worker_poll os wt (fs_objs s ! i) b (fs_trace s) = (Ret (x, b'), tr)"
  shows "full_inv cores spawn n (s\<lparr>fs_wk := w, fs_objs := (fs_objs s)[i := x], fs_trace := tr\<rparr>)"
    (is "full_inv cores spawn n ?s'")
proof -
  have inv: "accept_inv s" "greet_inv s" "table_inv s" "reach (wk_init (int n)) wk_step (fs_wk s)"
    using assms(1) by (simp_all add: full_inv_def)
  note w = worker_move_frame [OF assms(4)]
  obtain cs where cs: "tr = fs_trace s @ cs" "accepted_fds cs = []" "\<forall>c \<in> set cs. \<not> is_close (fst c)"
    using only_callsD [OF poll_plain assms(5)] plain_calls by blast
  have "accept_inv ?s'" by (rule accept_inv_frame [OF inv(1)]) (simp_all add: cs)
  moreover have "greet_inv ?s'" by (rule greet_inv_frame [OF inv(2), of _ cs]) (simp_all add: w cs)
  moreover have "table_inv ?s'"
  proof (rule table_inv_frame [OF inv(3), of _ cs])
    show "tw_clients (fs_objs ?s' ! j) fd \<noteq> None"
      if "j < length (fs_objs s)" "tw_clients (fs_objs s ! j) fd \<noteq> None" for j fd
      using table_update [of "fs_objs s" i x, OF _ that] poll_keeps_table [OF assms(5)] by simp
  qed (simp_all add: w assms(3) cs)
  moreover have "arrays_ok (fs_objs ?s')"
    using assms(1) worker_objs [OF assms(1,2)] poll_keeps_array [OF assms(5)] arrays_nth
    by (simp add: full_inv_def arrays_update)
  ultimately show ?thesis using assms(1) reach_worker [OF inv(4) assms(2,4)] by (simp add: full_inv_def)
qed

lemma full_adopt_inv:
  assumes "full_inv cores spawn n s" "i < length (wk_pcs (fs_wk s))" "wk_pcs (fs_wk s) ! i = Wk_Adopt"
    "worker_move i (fs_wk s) = Some w"
    "tcp_worker_adopt os (wk_storage (fs_wk s)) (fs_objs s ! i) (fs_trace s) = (Ret (q, x), tr)"
  shows "full_inv cores spawn n (s\<lparr>fs_wk := w, fs_objs := (fs_objs s)[i := x], fs_trace := tr\<rparr>)"
    (is "full_inv cores spawn n ?s'")
proof -
  have inv: "accept_inv s" "greet_inv s" "table_inv s" "reach (wk_init (int n)) wk_step (fs_wk s)"
    using assms(1) by (simp_all add: full_inv_def)
  note w = worker_move_frame [OF assms(4)] and res = adopt_result [OF assms(5)]
  obtain cs where cs: "tr = fs_trace s @ cs" "accepted_fds cs = []" "\<forall>c \<in> set cs. \<not> is_close (fst c)"
    using res by blast
  let ?s1 = "s\<lparr>fs_objs := (fs_objs s)[i := x], fs_trace := tr\<rparr>"
  have i: "i < length (fs_objs s)" using worker_objs [OF assms(1,2)] .
  have "accept_inv ?s'" by (rule accept_inv_frame [OF inv(1)]) (simp_all add: cs)
  moreover have "greet_inv ?s'" by (rule greet_inv_frame [OF inv(2), of _ cs]) (simp_all add: w cs)
  moreover have t1: "table_inv ?s1"
  proof (rule table_inv_frame [OF inv(3), of _ cs])
    show "tw_clients (fs_objs ?s1 ! j) fd \<noteq> None"
      if "j < length (fs_objs s)" "tw_clients (fs_objs s ! j) fd \<noteq> None" for j fd
      using table_update [of "fs_objs s" i x, OF _ that] res by simp
  qed (simp_all add: cs)
  then have "table_inv ?s'"
    using res i w assms(3) by (auto simp: table_inv_def split: list.splits)
  moreover have "arrays_ok (fs_objs ?s')"
    using assms(1) i adopt_keeps_array [OF assms(5)] arrays_nth by (simp add: full_inv_def arrays_update)
  ultimately show ?thesis using assms(1) reach_worker [OF inv(4) assms(2,4)] by (simp add: full_inv_def)
qed

text \<open>Waiting for connections only adds the wait to the trace.\<close>

lemma listen_plain: "only_calls plain_call (epoll_poll_event os (\<lambda>arr n u. ret u) w timeout u)"
  unfolding epoll_poll_event_def Let_def by (intro only_calls_call_out only_calls_CHECK_PERROR) (auto intro: only_calls_bind)

lemma full_listen_inv:
  assumes "full_inv cores spawn n s" "epoll_poll_event os (\<lambda>arr n u. ret u) w timeout () (fs_trace s) = (Ret (w', ()), tr)"
  shows "full_inv cores spawn n (s\<lparr>fs_trace := tr\<rparr>)"
proof -
  have inv: "accept_inv s" "greet_inv s" "table_inv s" using assms(1) by (simp_all add: full_inv_def)
  obtain cs where cs: "tr = fs_trace s @ cs" "accepted_fds cs = []" "\<forall>c \<in> set cs. \<not> is_close (fst c)"
    using only_callsD [OF listen_plain assms(2)] plain_calls by blast
  have "accept_inv (s\<lparr>fs_trace := tr\<rparr>)" by (rule accept_inv_frame [OF inv(1)]) (simp_all add: cs)
  moreover have "greet_inv (s\<lparr>fs_trace := tr\<rparr>)" by (rule greet_inv_frame [OF inv(2), of _ cs]) (simp_all add: cs)
  moreover have "table_inv (s\<lparr>fs_trace := tr\<rparr>)" by (rule table_inv_frame [OF inv(3), of _ cs]) (simp_all add: cs)
  ultimately show ?thesis using assms(1) by (simp add: full_inv_def)
qed

lemma full_step_inv:
  assumes "full_inv cores spawn n s" "full_step os inet_ntoa cores spawn s s'"
  shows "full_inv cores spawn n s'"
  using assms(2)
proof (cases rule: full_step.cases)
  case (startup w)
  show ?thesis unfolding startup(1) by (rule full_startup_inv [OF assms(1) startup(3,4)])
next
  case (accept t ev sv tp ca cs nt k p)
  show ?thesis unfolding accept(1) by (rule full_accept_inv [OF assms(1) accept(2-6)])
next
  case (thread p)
  show ?thesis unfolding thread(1) by (rule full_thread_inv [OF assms(1) thread(3-5)])
next
  case (greet i task info args b b' tr)
  show ?thesis unfolding greet(1) by (rule full_greet_inv [OF assms(1) greet(2,4,6)])
next
  case (push i task info args t w p)
  show ?thesis unfolding push(1) by (rule full_push_inv [OF assms(1) push(2-6)])
next
  case (worker i w)
  show ?thesis unfolding worker(1) by (rule full_worker_inv [OF assms(1) worker(2,3,5)])
next
  case (adopt i w q x tr)
  show ?thesis unfolding adopt(1) by (rule full_adopt_inv [OF assms(1) adopt(2-5)])
next
  case (poll i wt w b x b' tr)
  show ?thesis unfolding poll(1) by (rule full_poll_inv [OF assms(1) poll(2-5)])
next
  case (listen w w' tr)
  show ?thesis unfolding listen(1) by (rule full_listen_inv [OF assms(1) listen(2)])
qed

lemma full_init_pool: "full_init cores n s \<Longrightarrow> pool_init cores (fs_pool s)"
  by (auto simp: full_init_def pool_init_def)

lemma full_init_inv:
  assumes "full_init cores n s"
  shows "full_inv cores spawn n s"
proof -
  have "pool_init cores (fs_pool s)" "wk_init (int n) (fs_wk s)" using full_init_pool [OF assms] assms by (simp_all add: full_init_def)
  then have "pool_reach cores spawn (fs_pool s)" "reach (wk_init (int n)) wk_step (fs_wk s)"
    by (blast intro: reach_init)+
  moreover have "arrays_ok (fs_objs s)" using assms by (simp add: full_init_def)
  moreover have "accept_inv s" "greet_inv s" "table_inv s"
    using assms by (auto simp: full_init_def accept_inv_def greet_inv_def table_inv_def wk_init_def wk_start_def pool_init_def sys_of_def)
  ultimately show ?thesis by (simp add: full_inv_def)
qed

interpretation full: safe_system "full_init cores n" "full_step os inet_ntoa cores spawn" "full_inv cores spawn n"
  for cores n os inet_ntoa spawn
  by unfold_locales (rule full_init_inv, assumption, rule full_step_inv)

end
