(* ===== verification/Server_Flow.thy ===== *)
theory Server_Flow
  imports Concurrent_System
begin

text \<open>
  What the interleaved server promises about connections, as a specification over the descriptors alone (\<open>flow_step\<close>), the
  proof that every step of \<open>Concurrent_System\<close> is a step of it or leaves the connections where they are, and one run
  in which a connection goes all the way from \<open>accept\<close> to a worker.
\<close>

section \<open>What the server promises about connections\<close>

text \<open>
  The specification: a bounded queue of arrivals that is open until it is closed, connections in the hands of threads, a
  queue of served ones, and those a worker has. Arrivals beyond the capacity, or after the closing, are refused; nothing is
  taken from a closed queue.
\<close>

record conn_flow =
  fl_cap :: int
  fl_open :: bool
  fl_ring :: "int list"
  fl_held :: "int multiset"
  fl_queue :: "int list"
  fl_adopted :: "int list"
  fl_lost :: "int list"

inductive flow_step :: "conn_flow \<Rightarrow> conn_flow \<Rightarrow> bool" where
  arrive: "fl_open f \<Longrightarrow> int (length (fl_ring f)) < fl_cap f \<Longrightarrow> flow_step f (f\<lparr>fl_ring := fl_ring f @ [fd]\<rparr>)"
| refuse: "\<not> fl_open f \<or> int (length (fl_ring f)) = fl_cap f \<Longrightarrow> flow_step f (f\<lparr>fl_lost := fl_lost f @ [fd]\<rparr>)"
| take: "fl_open f \<Longrightarrow> fl_ring f = fd # rest \<Longrightarrow> flow_step f (f\<lparr>fl_ring := rest, fl_held := add_mset fd (fl_held f)\<rparr>)"
| serve: "fd \<in># fl_held f \<Longrightarrow> flow_step f (f\<lparr>fl_held := fl_held f - {#fd#}, fl_queue := fl_queue f @ [fd]\<rparr>)"
| adopt: "fl_queue f = fd # rest \<Longrightarrow> flow_step f (f\<lparr>fl_queue := rest, fl_adopted := fl_adopted f @ [fd]\<rparr>)"
| close: "flow_step f (f\<lparr>fl_open := False\<rparr>)"

definition flow_of :: "full_sys \<Rightarrow> conn_flow" where
  "flow_of s = \<lparr>fl_cap = tp_queue_size (sy_pool (fs_pool s)), fl_open = (\<not> tp_shutdown (sy_pool (fs_pool s))),
     fl_ring = map task_fd (pool_tasks (sy_pool (fs_pool s))), fl_held = image_mset task_fd (held_tasks (sy_pcs (fs_pool s))),
     fl_queue = map client_fd (wk_storage (fs_wk s)), fl_adopted = map (\<lambda>e. client_fd (snd e)) (wk_adopted (fs_wk s)),
     fl_lost = fs_lost s\<rparr>"

lemma pool_lock_frame [simp]: "pool_tasks (p\<lparr>tp_lock := m\<rparr>) = pool_tasks p" "pool_tasks (p\<lparr>tp_mask := c, tp_threads := ts\<rparr>) = pool_tasks p"
  by (simp_all add: pool_tasks_def ring_slot_def)

lemma thread_flow:
  assumes "pool_step cores spawn (fs_pool s) p" "lock_inv (fs_pool s)" "pool_inv (sy_pool (fs_pool s))"
    "sy_accepted p = sy_accepted (fs_pool s)" "sy_ran p = sy_ran (fs_pool s)"
  shows "flow_of (s\<lparr>fs_pool := p\<rparr>) = flow_of s \<or> flow_step (flow_of s) (flow_of (s\<lparr>fs_pool := p\<rparr>))"
  using assms(1-3)
proof (cases rule: pool_step_explicit)
  case (take i x)
  then have "flow_of (s\<lparr>fs_pool := p\<rparr>) = (flow_of s)\<lparr>fl_ring := map task_fd (pool_tasks (pool_drop (sy_pool (fs_pool s)))),
      fl_held := add_mset (task_fd x) (fl_held (flow_of s))\<rparr>"
    by (simp add: flow_of_def held_tasks_gain)
  moreover have "fl_open (flow_of s)" "fl_ring (flow_of s) = task_fd x # map task_fd (pool_tasks (pool_drop (sy_pool (fs_pool s))))"
    using take(3,5) by (simp_all add: flow_of_def)
  ultimately show ?thesis using flow_step.take by simp
next
  case (shutdown mode)
  then have "flow_of (s\<lparr>fs_pool := p\<rparr>) = (flow_of s)\<lparr>fl_open := False\<rparr>" by (simp add: flow_of_def)
  then show ?thesis using flow_step.close by simp
qed (use assms(4,5) in \<open>auto simp: flow_of_def held_tasks_same routine_count_def routine_name_def routine_bind_def\<close>)

lemma worker_storage_keep:
  "worker_move i w = Some w' \<Longrightarrow> wk_storage w' = (if wk_pcs w ! i = Wk_Adopt then drop 1 (wk_storage w) else wk_storage w)"
  by (auto simp: worker_move_def worker_test_def worker_dec_def worker_cmp_def worker_use_def worker_polled_def worker_inc_def
      worker_lock_queue_def worker_adopt_def bind_outcome_eq_Ret split: wpc.splits outcome.splits list.splits)

lemma accept_flow:
  assumes "full_inv cores spawn n s" "in_service (sy_owner (fs_pool s))"
    "server_on_event os inet_ntoa cores spawn' t ev (fs_server s, sy_pool (fs_pool s), fs_caddr s) (fs_trace s) =
      (Ret (sv, tp, ca), fs_trace s @ cs)"
    "nt = new_tasks (sy_pool (fs_pool s)) tp" "signal_may k (fs_pool s)"
    "p = (if nt = [] then fs_pool s else signalled k (fs_pool s))"
    "s' = s\<lparr>fs_server := sv, fs_caddr := ca, fs_pool := p\<lparr>sy_pool := tp, sy_accepted := sy_accepted p @ nt\<rparr>,
         fs_trace := fs_trace s @ cs, fs_lost := fs_lost s @ (if nt = [] then accepted_fds cs else [])\<rparr>"
  shows "flow_of s' = flow_of s \<or> flow_step (flow_of s) (flow_of s')"
proof -
  let ?tp = "sy_pool (fs_pool s)"
  have inv: "accept_inv s" "pool_reach cores spawn (fs_pool s)" using assms(1) by (simp_all add: full_inv_def)
  have pool: "pool_inv ?tp" using pool.reach_inv [OF inv(2)] by (simp add: sys_inv_def shape_inv_def)
  have len: "int (length (pool_tasks ?tp)) = tp_work_count ?tp" "tp_work_count ?tp \<le> tp_queue_size ?tp"
    using pool by (simp_all add: length_pool_tasks pool_inv_def)
  have "event_effect (fs_server s) ?tp sv tp (accepted_fds cs)"
    using server_event_effect [OF assms(3) _ pool] inv(1) by (simp add: accept_inv_def)
  then consider "accepted_fds cs = []" "tp = ?tp"
    | info where "accepted_fds cs = [client_fd info]" "\<not> pool_room ?tp" "tp = ?tp"
    | info where "accepted_fds cs = [client_fd info]" "pool_room ?tp"
        "tp = pool_put \<lparr>task_fun = Some info, task_args = None\<rparr> ?tp"
    unfolding event_effect_def by (metis (full_types))
  then show ?thesis
  proof cases
    case 1
    then show ?thesis using assms(4,6,7) by (simp add: new_tasks_def flow_of_def)
  next
    case (2 info)
    then have "flow_of s' = (flow_of s)\<lparr>fl_lost := fl_lost (flow_of s) @ [client_fd info]\<rparr>"
      using assms(4,6,7) by (simp add: new_tasks_def flow_of_def)
    moreover have "\<not> fl_open (flow_of s) \<or> int (length (fl_ring (flow_of s))) = fl_cap (flow_of s)"
      using 2(2) len by (auto simp: flow_of_def pool_room_def)
    ultimately show ?thesis using flow_step.refuse by simp
  next
    case (3 info)
    let ?x = "\<lparr>task_fun = Some info, task_args = None\<rparr>"
    have tasks: "pool_tasks tp = pool_tasks ?tp @ [?x]"
      using 3(2,3) pool_put_tasks [OF pool] by (simp add: pool_room_def)
    then have nt: "nt = [?x]" by (simp add: assms(4) new_tasks_def)
    have held: "held_tasks (sy_pcs p) = held_tasks (sy_pcs (fs_pool s))"
      by (simp add: assms(6) signalled_def held_tasks_same)
    have "flow_of s' = (flow_of s)\<lparr>fl_ring := fl_ring (flow_of s) @ [client_fd info]\<rparr>"
      using tasks by (simp add: flow_of_def assms(7) nt held 3(3) task_fd_def task_client_def)
    moreover have "fl_open (flow_of s)" "int (length (fl_ring (flow_of s))) < fl_cap (flow_of s)"
      using 3(2) len by (auto simp: flow_of_def pool_room_def)
    ultimately show ?thesis using flow_step.arrive by simp
  qed
qed

lemma push_flow:
  assumes "at_pc (fs_pool s) i (Has_Task task)" "thread_pool_task_run task = Ret (info, args)"
    "hand_over t info (fs_wk s) = Ret w" "routine_run i task (fs_pool s) = Ret p"
  shows "flow_step (flow_of s) (flow_of (s\<lparr>fs_wk := w, fs_pool := p, fs_greeted := g\<rparr>))"
proof -
  have w: "w = push_client info (fs_wk s)" using assms(3) by (simp add: hand_over_free)
  have p: "p = (set_pc i At_Lock (fs_pool s))\<lparr>sy_ran := sy_ran (fs_pool s) @ [task]\<rparr>"
    using assms(4) by (auto simp: routine_run_def bind_outcome_eq_Ret)
  have fd: "task_fd task = client_fd info" using task_run_client [OF assms(2)] by (simp add: task_fd_def)
  have held: "held_tasks (sy_pcs (fs_pool s)) = add_mset task (held_tasks ((sy_pcs (fs_pool s))[i := At_Lock]))"
    using held_tasks_lose [of i "sy_pcs (fs_pool s)" task At_Lock] assms(1) by simp
  have "flow_of (s\<lparr>fs_wk := w, fs_pool := p, fs_greeted := g\<rparr>) = (flow_of s)
      \<lparr>fl_held := fl_held (flow_of s) - {#client_fd info#}, fl_queue := fl_queue (flow_of s) @ [client_fd info]\<rparr>"
    by (simp add: flow_of_def w p push_client_def held fd)
  moreover have "client_fd info \<in># fl_held (flow_of s)" by (simp add: flow_of_def held fd)
  ultimately show ?thesis using flow_step.serve by simp
qed

lemma adopt_flow:
  assumes "wk_pcs (fs_wk s) ! i = Wk_Adopt" "worker_move i (fs_wk s) = Some w"
  shows "flow_of (s\<lparr>fs_wk := w, fs_objs := xs, fs_trace := tr\<rparr>) = flow_of s \<or>
    flow_step (flow_of s) (flow_of (s\<lparr>fs_wk := w, fs_objs := xs, fs_trace := tr\<rparr>))"
proof (cases "wk_storage (fs_wk s)")
  case Nil
  then show ?thesis using worker_storage_keep [OF assms(2)] worker_move_frame [OF assms(2)] assms(1) by (simp add: flow_of_def)
next
  case (Cons info rest)
  then have "flow_of (s\<lparr>fs_wk := w, fs_objs := xs, fs_trace := tr\<rparr>) = (flow_of s)
      \<lparr>fl_queue := map client_fd rest, fl_adopted := fl_adopted (flow_of s) @ [client_fd info]\<rparr>"
    using worker_storage_keep [OF assms(2)] worker_move_frame [OF assms(2)] assms(1) by (simp add: flow_of_def)
  moreover have "fl_queue (flow_of s) = client_fd info # map client_fd rest" using Cons by (simp add: flow_of_def)
  ultimately show ?thesis using flow_step.adopt by simp
qed

lemma worker_flow:
  assumes "wk_pcs (fs_wk s) ! i \<noteq> Wk_Adopt" "worker_move i (fs_wk s) = Some w"
  shows "flow_of (s\<lparr>fs_wk := w\<rparr>) = flow_of s" "flow_of (s\<lparr>fs_wk := w, fs_objs := xs, fs_trace := tr\<rparr>) = flow_of s"
  using worker_storage_keep [OF assms(2)] worker_move_frame [OF assms(2)] assms(1) by (simp_all add: flow_of_def)

lemma full_step_flow:
  assumes "full_inv cores spawn n s" "full_step os inet_ntoa cores spawn s s'"
  shows "flow_of s' = flow_of s \<or> flow_step (flow_of s) (flow_of s')"
  using assms(2)
proof (cases rule: full_step.cases)
  case (startup w)
  then show ?thesis using startup_frame [OF startup(4)] by (simp add: flow_of_def)
next
  case (accept t ev sv tp ca cs nt k p)
  show ?thesis by (rule accept_flow [OF assms(1) accept(2-6,1)])
next
  case (thread p)
  have "pool_reach cores spawn (fs_pool s)" using assms(1) by (simp add: full_inv_def)
  then have "lock_inv (fs_pool s)" "pool_inv (sy_pool (fs_pool s))"
    using pool.reach_inv by (auto simp: sys_inv_def shape_inv_def)
  from thread_flow [OF thread(3) this thread(4,5)] show ?thesis by (simp add: thread(1))
next
  case (greet i task info args b b' tr)
  then show ?thesis by (simp add: flow_of_def)
next
  case (push i task info args t w p)
  show ?thesis unfolding push(1) using push_flow [OF push(2,4-6)] by blast
next
  case (worker i w)
  show ?thesis unfolding worker(1) using worker_flow(1) [OF worker(3,5)] by blast
next
  case (adopt i w q x tr)
  show ?thesis unfolding adopt(1) by (rule adopt_flow [OF adopt(3,4)])
next
  case (poll i wt w b x b' tr)
  then show ?thesis using worker_flow(2) [of s i w] by simp
next
  case (listen w w' tr)
  then show ?thesis by (simp add: flow_of_def)
qed

text \<open>So the interleaved server is a refinement of the specification, and whatever is reachable in it is so there.\<close>

definition flow_init :: "conn_flow \<Rightarrow> bool" where
  "flow_init f \<longleftrightarrow> fl_open f \<and> 0 < fl_cap f \<and> fl_ring f = [] \<and> fl_held f = {#} \<and> fl_queue f = [] \<and> fl_adopted f = [] \<and> fl_lost f = []"

lemma prepared_flow:
  assumes "1 \<le> cores" "cores \<le> MAX_THREADS"
  shows "\<not> tp_shutdown (create_prepare cores tc qs thread_pool_ctor)" "0 < tp_queue_size (create_prepare cores tc qs thread_pool_ctor)"
    "pool_tasks (create_prepare cores tc qs thread_pool_ctor) = []"
  using prepare_inv(1) [OF assms, of tc qs] by (simp_all add: create_prepare_def Let_def thread_pool_ctor_def pool_tasks_def pool_inv_def)

lemma full_init_flow:
  assumes "full_init cores n s"
  shows "flow_init (flow_of s)"
proof -
  have "pool_init cores (fs_pool s)" "wk_init (int n) (fs_wk s)" "fs_lost s = []"
    using full_init_pool [OF assms] assms by (simp_all add: full_init_def)
  then show ?thesis by (auto simp: pool_init_def prepared_flow sys_of_def flow_init_def flow_of_def wk_init_def wk_start_def)
qed

interpretation full_flow: refined_system "full_init cores n" "full_step os inet_ntoa cores spawn" "full_inv cores spawn n"
  flow_init flow_step flow_of for cores n os inet_ntoa spawn
  by unfold_locales (fact full_init_flow, fact full_step_flow)

text \<open>
  The specification keeps its queue within its capacity, and once closed it takes and admits nothing more.
\<close>

definition flow_inv :: "conn_flow \<Rightarrow> bool" where
  "flow_inv f \<longleftrightarrow> 0 < fl_cap f \<and> int (length (fl_ring f)) \<le> fl_cap f"

interpretation flow: safe_system flow_init flow_step flow_inv
proof
  show "flow_inv f" if "flow_init f" for f using that by (simp add: flow_init_def flow_inv_def)
  show "flow_inv f'" if "flow_inv f" "flow_step f f'" for f f'
    using that(2,1) by cases (auto simp: flow_inv_def)
qed

text \<open>Where the connections are.\<close>

lemma full_places:
  assumes "full_inv cores spawn n s"
  shows "mset (accepted_fds (fs_trace s)) = mset (fl_ring (flow_of s)) + fl_held (flow_of s) + mset (fl_queue (flow_of s)) +
    mset (fl_adopted (flow_of s)) + mset (fs_lost s)"
proof -
  have inv: "accept_inv s" "greet_inv s" "pool_reach cores spawn (fs_pool s)" "reach (wk_init (int n)) wk_step (fs_wk s)"
    using assms by (simp_all add: full_inv_def)
  have tasks: "sy_accepted (fs_pool s) = sy_taken (fs_pool s) @ pool_tasks (sy_pool (fs_pool s))"
    "mset (sy_taken (fs_pool s)) = mset (sy_ran (fs_pool s)) + held_tasks (sy_pcs (fs_pool s))"
    using pool.reach_inv [OF inv(3)] by (simp_all add: sys_inv_def task_inv_def)
  have queue: "wk_pushed (fs_wk s) = map snd (wk_adopted (fs_wk s)) @ wk_storage (fs_wk s)"
    using workers.reach_inv [OF inv(4)] by (simp add: wk_inv_def wk_queue_inv_def)
  have "task_fd = (\<lambda>x. client_fd (task_client x))" by (simp add: fun_eq_iff task_fd_def)
  then have "image_mset task_fd (mset (sy_ran (fs_pool s))) = image_mset client_fd (mset (wk_pushed (fs_wk s)))"
    using inv(2) by (simp add: greet_inv_def image_mset.compositionality comp_def)
  then have ran: "image_mset task_fd (mset (sy_ran (fs_pool s))) =
      mset (fl_adopted (flow_of s)) + mset (fl_queue (flow_of s))"
    by (simp add: queue flow_of_def image_mset.compositionality comp_def)
  have "mset (accepted_fds (fs_trace s)) = image_mset task_fd (mset (sy_accepted (fs_pool s))) + mset (fs_lost s)"
    using inv(1) by (simp add: accept_inv_def)
  also have "\<dots> = image_mset task_fd (mset (sy_ran (fs_pool s))) + fl_held (flow_of s) + mset (fl_ring (flow_of s)) + mset (fs_lost s)"
    by (simp add: tasks flow_of_def)
  finally show ?thesis unfolding ran by (simp add: ac_simps)
qed

section \<open>One connection on its whole way, with every thread's steps\<close>

abbreviation demo_reach :: "full_sys \<Rightarrow> bool" where
  "demo_reach \<equiv> reach (full_init 1 2) (full_step (server_os []) (\<lambda>a. []) 1 (\<lambda>i. (0, 70 + i)))"

definition full_start :: full_sys where
  "full_start = \<lparr>fs_server = demo_server, fs_caddr = no_address, fs_pool = sys_of (create_prepare 1 1 2048 thread_pool_ctor),
     fs_wk = wk_start 2, fs_objs = [demo_worker, demo_worker], fs_greeted = {}, fs_trace = [], fs_lost = []\<rparr>"

definition wk_ready :: "client_info wk_sys" where
  "wk_ready = (wk_start 2)\<lparr>wk_avail := 2, wk_stored := True, wk_pcs := [Wk_Test, Wk_Test]\<rparr>"

definition pool_ready :: "(client_info, unit) pool_sys" where
  "pool_ready = \<lparr>sy_pool = (create_prepare 1 1 2048 thread_pool_ctor)
       \<lparr>tp_mask := {0}, tp_threads := [70], tp_started_num := 1, tp_thread_count := 1\<rparr>,
     sy_pcs = [At_Lock], sy_owner = Serving, sy_names = [(0, 0)], sy_bound = [(0, {0})], sy_accepted = [], sy_taken = [], sy_ran = []\<rparr>"

lemma demo_thread:
  assumes "demo_reach s" "wk_stored (fs_wk s)" "pool_step 1 (\<lambda>i. (0, 70 + i)) (fs_pool s) p"
    "sy_accepted p = sy_accepted (fs_pool s)" "sy_ran p = sy_ran (fs_pool s)"
  shows "demo_reach (s\<lparr>fs_pool := p\<rparr>)"
  by (rule reach_step [OF assms(1) full_step.thread [OF assms(2-5)]])

lemma demo_worker_step:
  assumes "demo_reach s" "i < length (wk_pcs (fs_wk s))" "wk_pcs (fs_wk s) ! i \<noteq> Wk_Adopt" "\<forall>wt. wk_pcs (fs_wk s) ! i \<noteq> Wk_Poll wt"
    "worker_move i (fs_wk s) = Some w"
  shows "demo_reach (s\<lparr>fs_wk := w\<rparr>)"
  by (rule reach_step [OF assms(1) full_step.worker [OF assms(2-5)]])

lemma demo_startup:
  assumes "demo_reach s" "\<not> wk_stored (fs_wk s)" "wk_step (fs_wk s) w" "w \<in> {startup_start (fs_wk s), startup_store (fs_wk s)}"
  shows "demo_reach (s\<lparr>fs_wk := w\<rparr>)"
  by (rule reach_step [OF assms(1) full_step.startup [OF assms(2-4)]])

lemma demo_workers_started: "demo_reach (full_start\<lparr>fs_wk := wk_ready\<rparr>)"
proof -
  have r0: "demo_reach full_start"
    by (rule reach_init) (auto simp: full_init_def full_start_def pool_init_def MAX_THREADS_def wk_init_def demo_server_def demo_wp_def
        arrays_ok_def demo_worker_def)
  let ?v = "startup_start (wk_start 2) :: client_info wk_sys"
  let ?w = "startup_start ?v"
  have s1: "wk_step (wk_start 2) ?v" by (rule wk_step.start) (simp_all add: wk_start_def)
  have s2: "wk_step ?v ?w" by (rule wk_step.start) (simp_all add: wk_start_def startup_start_def)
  have s3: "wk_step ?w (startup_store ?w)" by (rule wk_step.store) (simp_all add: wk_start_def startup_start_def)
  have "demo_reach (full_start\<lparr>fs_wk := ?v\<rparr>)"
    by (rule demo_startup [OF r0]) (use s1 in \<open>simp_all add: full_start_def wk_start_def\<close>)
  then have "demo_reach ((full_start\<lparr>fs_wk := ?v\<rparr>)\<lparr>fs_wk := ?w\<rparr>)"
    by (rule demo_startup) (use s2 in \<open>simp_all add: wk_start_def startup_start_def\<close>)
  then have "demo_reach (((full_start\<lparr>fs_wk := ?v\<rparr>)\<lparr>fs_wk := ?w\<rparr>)\<lparr>fs_wk := startup_store ?w\<rparr>)"
    by (rule demo_startup) (use s3 in \<open>simp_all add: wk_start_def startup_start_def\<close>)
  then show ?thesis by (simp add: wk_ready_def startup_store_def startup_start_def wk_start_def wk_polling_def)
qed

lemma demo_pool_started: "demo_reach (full_start\<lparr>fs_wk := wk_ready, fs_pool := pool_ready\<rparr>)"
proof -
  let ?p = "create_prepare 1 1 2048 thread_pool_ctor :: client_pool"
  let ?p1 = "?p\<lparr>tp_mask := {0}, tp_threads := [70]\<rparr>"
  let ?sp = "\<lambda>i. (0 :: int, 70 + i :: nat)"
  define s0 where "s0 = full_start\<lparr>fs_wk := wk_ready\<rparr>"
  have w: "wk_stored (fs_wk s0)" "fs_pool s0 = sys_of ?p" by (simp_all add: s0_def wk_ready_def full_start_def)
  have threads: "tp_threads ?p = [0]"
    by (simp add: create_prepare_def Let_def thread_pool_ctor_def vec_resize_def MAX_THREADS_def)
  have "thread_pool_create_loop 1 ?sp 0 1 ?p = Ret (0, ?p1)"
    by (simp add: threads c_rem_def vec_put_at_def vec_in_def cpu_set_of_def)
  then have "pool_step 1 ?sp (sys_of ?p) ((sys_of ?p)\<lparr>sy_pool := ?p1, sy_pcs := sy_pcs (sys_of ?p) @ [Spawned]\<rparr>)"
    by (intro pool_step.spawn) (simp_all add: sys_of_def threads)
  then have r1: "demo_reach (s0\<lparr>fs_pool := (sys_of ?p)\<lparr>sy_pool := ?p1, sy_pcs := [Spawned]\<rparr>\<rparr>)"
    using demo_thread [OF demo_workers_started [folded s0_def] w(1)] by (simp add: w(2) sys_of_def)
  define a where "a = (sys_of ?p)\<lparr>sy_pool := ?p1, sy_pcs := [Spawned]\<rparr>"
  have "pool_step 1 ?sp a (a\<lparr>sy_owner := Serving\<rparr>)" by (rule pool_step.created) (simp_all add: a_def sys_of_def)
  then have r2: "demo_reach (s0\<lparr>fs_pool := a\<lparr>sy_owner := Serving\<rparr>\<rparr>)"
    using demo_thread [OF r1 [folded a_def], of "a\<lparr>sy_owner := Serving\<rparr>"] w(1) by simp
  define b where "b = a\<lparr>sy_owner := Serving\<rparr>"
  have "pool_step 1 ?sp b (routine_count 0 b)" by (rule pool_step.count) (simp add: b_def a_def)
  then have r3: "demo_reach (s0\<lparr>fs_pool := routine_count 0 b\<rparr>)"
    using demo_thread [OF r2 [folded b_def], of "routine_count 0 b"] w(1) by (simp add: routine_count_def)
  have "pool_step 1 ?sp (routine_count 0 b) (routine_name 0 (routine_count 0 b))"
    by (rule pool_step.name) (simp add: b_def a_def routine_count_def)
  then have r4: "demo_reach (s0\<lparr>fs_pool := routine_name 0 (routine_count 0 b)\<rparr>)"
    using demo_thread [OF r3, of "routine_name 0 (routine_count 0 b)"] w(1) by (simp add: routine_name_def)
  have "pool_step 1 ?sp (routine_name 0 (routine_count 0 b)) (routine_bind 0 (routine_name 0 (routine_count 0 b)))"
    by (rule pool_step.bind) (simp add: b_def a_def routine_count_def routine_name_def)
  then have r5: "demo_reach (s0\<lparr>fs_pool := routine_bind 0 (routine_name 0 (routine_count 0 b))\<rparr>)"
    using demo_thread [OF r4, of "routine_bind 0 (routine_name 0 (routine_count 0 b))"] w(1) by (simp add: routine_bind_def)
  have "routine_bind 0 (routine_name 0 (routine_count 0 b)) = pool_ready"
    by (simp add: b_def a_def routine_count_def routine_name_def routine_bind_def sys_of_def pool_ready_def create_prepare_def
        thread_pool_ctor_def Let_def)
  then show ?thesis using r5 by (simp add: s0_def)
qed

lemma pool_ready_facts: "pool_inv (sy_pool pool_ready)" "pool_room (sy_pool pool_ready)" "tp_lock (sy_pool pool_ready) = Mutex_Free"
  "\<not> tp_shutdown (sy_pool pool_ready)" "tp_work_count (sy_pool pool_ready) = 0" "pool_tasks (sy_pool pool_ready) = []"
proof -
  have "pool_inv (create_prepare 1 1 2048 thread_pool_ctor :: client_pool)" by (rule prepare_inv) (simp_all add: MAX_THREADS_def)
  then show "pool_inv (sy_pool pool_ready)" by (simp add: pool_ready_def pool_inv_def)
qed (simp_all add: pool_ready_def create_prepare_def Let_def thread_pool_ctor_def pool_room_def MAX_QUEUE_def pool_tasks_def)

text \<open>The connection is accepted and its task submitted.\<close>

lemma demo_accepted:
  "\<exists>s x info. demo_reach s \<and> fs_trace s \<noteq> [] \<and> accepted_fds (fs_trace s) = [100] \<and> fs_lost s = [] \<and> fs_greeted s = {} \<and>
     fs_wk s = wk_ready \<and> fs_objs s = [demo_worker, demo_worker] \<and> x = \<lparr>task_fun = Some info, task_args = None\<rparr> \<and> client_fd info = 100 \<and>
     fs_pool s = pool_ready\<lparr>sy_pool := pool_put x (sy_pool pool_ready), sy_accepted := [x]\<rparr>"
proof -
  let ?ev = "\<lparr>ev_events = EPOLLIN, ev_fd = 3\<rparr>" and ?tp = "sy_pool pool_ready" and ?sp = "\<lambda>i. (0 :: int, 70 + i :: nat)"
  let ?s = "full_start\<lparr>fs_wk := wk_ready, fs_pool := pool_ready\<rparr>"
  have ready: "server_ready demo_server ?tp"
    using demo_server_ready pool_ready_facts by (simp add: server_ready_def)
  have h: "has_event (ev_events ?ev) EPOLLIN" "sv_connected_num demo_server < SERVER_MAX_CONNECTION"
      "server_os [] [] (Sys_accept (sv_sockfd demo_server)) =
        (100, Out_Addr \<lparr>sin_family = AF_INET, sin_port = htons 4242, sin_addr = 0x0100007F\<rparr>)" "(0::int) < 100"
    by (simp_all add: has_event_def EPOLLIN_def demo_server_def SERVER_MAX_CONNECTION_def server_os_def)
  obtain msg r sv tp ca where step: "server_on_event (server_os []) (\<lambda>a. []) 1 ?sp 9 ?ev (demo_server, ?tp, no_address) [] =
      (Ret (sv, tp, ca), [] @ [(Sys_accept (sv_sockfd demo_server), 100), (Sys_stdout msg, r)])"
    "pool_grows ?tp tp [100]"
    using server_step_accept [of demo_server ?tp ?ev "server_os []" "[]" 100, OF ready h, of "\<lambda>a. []" 1 ?sp 9 no_address]
    by blast
  let ?cs = "[(Sys_accept (sv_sockfd demo_server), 100), (Sys_stdout msg, r)]"
  obtain info where info: "client_fd info = 100" "tp = pool_put \<lparr>task_fun = Some info, task_args = None\<rparr> ?tp"
    using step(2) pool_ready_facts(2) by (auto simp: pool_grows_def client_fd_def)
  let ?x = "\<lparr>task_fun = Some info, task_args = None\<rparr> :: (client_info, unit) thread_pool_task"
  have nt: "new_tasks ?tp tp = [?x]"
    using pool_put_tasks [OF pool_ready_facts(1), of ?x] pool_ready_facts(2,6)
    by (simp add: new_tasks_def info(2) pool_room_def)
  have same: "(if [?x] = [] then pool_ready else signalled 0 pool_ready) = pool_ready" "signal_may 0 pool_ready"
    by (simp_all add: signalled_def signal_may_def pool_ready_def)
  let ?s' = "?s\<lparr>fs_server := sv, fs_caddr := ca, fs_pool := pool_ready\<lparr>sy_pool := tp, sy_accepted := sy_accepted pool_ready @ [?x]\<rparr>,
         fs_trace := fs_trace ?s @ ?cs, fs_lost := fs_lost ?s @ (if [?x] = [] then accepted_fds ?cs else [])\<rparr>"
  have "full_step (server_os []) (\<lambda>a. []) 1 ?sp ?s ?s'"
  proof (rule full_step.accept)
    show "in_service (sy_owner (fs_pool ?s))" by (simp add: pool_ready_def)
    show "server_on_event (server_os []) (\<lambda>a. []) 1 ?sp 9 ?ev (fs_server ?s, sy_pool (fs_pool ?s), fs_caddr ?s) (fs_trace ?s) =
      (Ret (sv, tp, ca), fs_trace ?s @ ?cs)" using step(1) by (simp add: full_start_def)
    show "[?x] = new_tasks (sy_pool (fs_pool ?s)) tp" by (simp add: nt)
    show "signal_may 0 (fs_pool ?s)" using same(2) by simp
    show "pool_ready = (if [?x] = [] then fs_pool ?s else signalled 0 (fs_pool ?s))" using same(1) by simp
  qed
  from reach_step [OF demo_pool_started this] have "demo_reach ?s'" .
  then show ?thesis
    by (intro exI [of _ ?s'] exI [of _ ?x] exI [of _ info]) (simp add: full_start_def pool_ready_def info)
qed

text \<open>The thread takes the task, greets the client and hands it over.\<close>

lemma demo_handed_over:
  "\<exists>s info. demo_reach s \<and> accepted_fds (fs_trace s) = [100] \<and> fs_lost s = [] \<and> client_fd info = 100 \<and>
     fs_wk s = push_client info wk_ready \<and> fs_objs s = [demo_worker, demo_worker] \<and> pool_tasks (sy_pool (fs_pool s)) = [] \<and>
     held_tasks (sy_pcs (fs_pool s)) = {#}"
proof -
  obtain s x info where s: "demo_reach s" "accepted_fds (fs_trace s) = [100]" "fs_lost s = []" "fs_greeted s = {}"
    "fs_wk s = wk_ready" "fs_objs s = [demo_worker, demo_worker]" "x = \<lparr>task_fun = Some info, task_args = None\<rparr>" "client_fd info = 100"
    "fs_pool s = pool_ready\<lparr>sy_pool := pool_put x (sy_pool pool_ready), sy_accepted := [x]\<rparr>"
    using demo_accepted by blast
  let ?sp = "\<lambda>i. (0 :: int, 70 + i :: nat)" and ?p = "pool_put x (sy_pool pool_ready)"
  have w: "wk_stored (fs_wk s)" by (simp add: s(5) wk_ready_def)
  have inv: "pool_inv ?p" "tp_work_count ?p = 1" "pool_tasks ?p = [x]" "\<not> tp_shutdown ?p"
    using pool_put_inv [OF pool_ready_facts(1)] pool_put_tasks [OF pool_ready_facts(1), of x] pool_ready_facts
    by (simp_all add: pool_room_def)
  define a where "a = (set_pc 0 At_Check (fs_pool s))\<lparr>sy_pool := ?p\<lparr>tp_lock := Mutex_Held 0\<rparr>\<rparr>"
  have "routine_lock 0 (fs_pool s) = Ret a"
    using pool_ready_facts(3) by (simp add: routine_lock_def s(9) a_def)
  then have "pool_step 1 ?sp (fs_pool s) a" by (intro pool_step.lock [where i = 0]) (simp_all add: s(9) pool_ready_def)
  then have r1: "demo_reach (s\<lparr>fs_pool := a\<rparr>)" using demo_thread [OF s(1) w] by (simp add: a_def)
  define b where "b = (set_pc 0 (Has_Task x) a)\<lparr>sy_pool := (pool_drop (sy_pool a))\<lparr>tp_lock := Mutex_Free\<rparr>, sy_taken := [x]\<rparr>"
  have ap: "pool_inv (sy_pool a)" "tp_work_count (sy_pool a) \<noteq> 0" "\<not> tp_shutdown (sy_pool a)" "pool_tasks (sy_pool a) = [x]"
    "tp_lock (sy_pool a) = Mutex_Held 0"
    using inv by (simp_all add: a_def pool_inv_def)
  have drop: "pool_tasks (pool_drop (sy_pool a)) = []" "thread_pool_take (sy_pool a) = Ret (x, pool_drop (sy_pool a))"
    using pool_tasks_Cons [OF ap(1,2)] ap(4) take_drop_head [OF ap(1)] by simp_all
  have "routine_locked 0 a = Ret b"
    using ap drop(2) by (simp add: routine_locked_def Let_def b_def) (simp add: a_def s(9) pool_ready_def)
  then have "pool_step 1 ?sp a b" by (intro pool_step.locked [where i = 0]) (simp_all add: a_def s(9) pool_ready_def)
  then have r2: "demo_reach (s\<lparr>fs_pool := b\<rparr>)" using demo_thread [OF r1, of b] w by (simp add: b_def)
  have pc: "at_pc b 0 (Has_Task x)" and run: "thread_pool_task_run x = Ret (info, None)"
    by (simp_all add: b_def a_def s(7,9) pool_ready_def thread_pool_task_run_def)
  have "server_os [] (fs_trace s) (Sys_read (ev_fd (ci_eplev info)) BUFSIZ) = (0, No_Out)"
    by (simp add: server_os_def epoll_kernel_def)
  then obtain b' tr where greet: "client_greet (server_os []) info fresh_bufs (fs_trace s) = (Ret b', tr)"
    using greet_quiet [of fresh_bufs "server_os []" "fs_trace s" info 0 No_Out, OF fresh_bufs_ok] by (simp add: Let_def)
  let ?s2 = "s\<lparr>fs_pool := b\<rparr>"
  let ?s3 = "?s2\<lparr>fs_trace := tr, fs_greeted := insert 0 (fs_greeted ?s2)\<rparr>"
  have "full_step (server_os []) (\<lambda>a. []) 1 ?sp ?s2 ?s3"
    by (rule full_step.greet [where task = x and info = info and args = None and b = fresh_bufs and b' = b'])
       (use pc run fresh_bufs_ok greet in \<open>simp_all add: s(4)\<close>)
  from reach_step [OF r2 this] have r3: "demo_reach ?s3" .
  let ?w = "push_client info wk_ready" and ?c = "(set_pc 0 At_Lock b)\<lparr>sy_ran := sy_ran b @ [x]\<rparr>"
  have "full_step (server_os []) (\<lambda>a. []) 1 ?sp ?s3 (?s3\<lparr>fs_wk := ?w, fs_pool := ?c, fs_greeted := fs_greeted ?s3 - {0}\<rparr>)"
    by (rule full_step.push [where task = x and info = info and args = None and t = 0])
       (use pc run in \<open>simp_all add: hand_over_free s(5) wk_ready_def wk_start_def routine_run_def\<close>)
  from reach_step [OF r3 this]
  have r4: "demo_reach (?s3\<lparr>fs_wk := ?w, fs_pool := ?c, fs_greeted := fs_greeted ?s3 - {0}\<rparr>)" .
  have "accepted_fds tr = [100]" using only_callsD [OF client_greet_plain greet] plain_calls s(2) by auto
  then show ?thesis using r4 s(3,6,8) drop(1)
    by (intro exI [of _ "?s3\<lparr>fs_wk := ?w, fs_pool := ?c, fs_greeted := fs_greeted ?s3 - {0}\<rparr>"] exI [of _ info])
       (simp add: b_def a_def s(9) pool_ready_def)
qed

text \<open>The worker adopts it.\<close>

lemma demo_adopting:
  "\<exists>s s' info. demo_reach s \<and> full_step (server_os []) (\<lambda>a. []) 1 (\<lambda>i. (0, 70 + i)) s s' \<and> client_fd info = 100 \<and>
     accepted_fds (fs_trace s') = [100] \<and> wk_adopted (fs_wk s) = [] \<and> wk_adopted (fs_wk s') = [(0, info)]"
proof -
  obtain s info where s: "demo_reach s" "accepted_fds (fs_trace s) = [100]" "client_fd info = 100"
    "fs_wk s = push_client info wk_ready" "fs_objs s = [demo_worker, demo_worker]"
    using demo_handed_over by blast
  let ?w0 = "push_client info wk_ready"
  let ?w1 = "?w0\<lparr>wk_pcs := [Wk_Lock, Wk_Test]\<rparr>" and ?w2 = "?w0\<lparr>wk_pcs := [Wk_Adopt, Wk_Test], wk_lock := Mutex_Held 0\<rparr>"
  let ?w3 = "?w0\<lparr>wk_pcs := [Wk_Dec, Wk_Test], wk_storage := [], wk_adopted := [(0, info)]\<rparr>"
  have start: "wk_pcs ?w0 = [Wk_Test, Wk_Test]" "wk_lock ?w0 = Mutex_Free" "wk_storage ?w0 = [info]" "wk_adopted ?w0 = []"
    by (simp_all add: push_client_def wk_ready_def wk_start_def)
  have m1: "worker_move 0 ?w0 = Some ?w1" using start by (simp add: worker_move_def worker_test_def)
  have m2: "worker_move 0 ?w1 = Some ?w2" using start by (simp add: worker_move_def worker_lock_queue_def)
  have m3: "worker_move 0 ?w2 = Some ?w3"
    using start by (simp add: worker_move_def worker_adopt_def Let_def push_client_def wk_ready_def wk_start_def)
  have r1: "demo_reach (s\<lparr>fs_wk := ?w1\<rparr>)"
    using demo_worker_step [OF s(1), of 0 ?w1] m1 start by (simp add: s(4))
  have r2: "demo_reach (s\<lparr>fs_wk := ?w2\<rparr>)"
    using demo_worker_step [OF r1, of 0 ?w2] m2 by simp
  obtain q x tr where ad: "tcp_worker_adopt (server_os []) (wk_storage ?w2) demo_worker (fs_trace s) = (Ret (q, x), tr)"
    using start(3) by (auto simp: tcp_worker_adopt_def bind_io_def ret_def add_event_result Let_def)
  let ?s2 = "s\<lparr>fs_wk := ?w2\<rparr>"
  let ?s3 = "?s2\<lparr>fs_wk := ?w3, fs_objs := (fs_objs ?s2)[0 := x], fs_trace := tr\<rparr>"
  have "full_step (server_os []) (\<lambda>a. []) 1 (\<lambda>i. (0, 70 + i)) ?s2 ?s3"
    by (rule full_step.adopt) (use m3 ad in \<open>simp_all add: s(5)\<close>)
  moreover have "accepted_fds tr = [100]" using adopt_result [OF ad] s(2) by auto
  ultimately show ?thesis using r2 s(3) start(4)
    by (intro exI [of _ ?s2] exI [of _ ?s3] exI [of _ info]) simp
qed

lemma demo_adopted:
  "\<exists>s info. demo_reach s \<and> accepted_fds (fs_trace s) = [100] \<and> client_fd info = 100 \<and> wk_adopted (fs_wk s) = [(0, info)]"
  using demo_adopting reach_step [of "full_init 1 2" "full_step (server_os []) (\<lambda>a. []) 1 (\<lambda>i. (0, 70 + i))"] by blast

end
