(* ===== verification/Server_Capacity.thy ===== *)
theory Server_Capacity
  imports Server_Flow
begin

text \<open>
  Two bounds that hold between the components. The ring that \<open>startup\<close> makes has 2048 places, and the server accepts at most 2048 connections in its
  whole life, so the ring refuses nobody while the pool is not shut down. Descriptors are never closed, so \<open>accept\<close> never delivers one
  twice, and the tables of the workers are exactly the connections they adopted.
\<close>

section \<open>The ring is large enough\<close>

lemma startup_queue_size: "tp_queue_size (create_prepare cores tc (2 ^ 11) thread_pool_ctor) = 2048"
  by (simp add: create_prepare_def Let_def coerce_in_def MAX_QUEUE_def)

definition ring_inv :: "conn_flow \<Rightarrow> bool" where
  "ring_inv f \<longleftrightarrow> fl_cap f = 2048 \<and> (fl_open f \<longrightarrow> fl_lost f = [])"

lemma accepted_bound:
  assumes "full_inv cores spawn n s"
  shows "length (fl_ring (flow_of s)) + length (fs_lost s) \<le> 2048"
proof -
  have "length (accepted_fds (fs_trace s)) \<le> 2048" using assms by (simp add: full_inv_def accept_inv_def)
  moreover have "length (fl_ring (flow_of s)) + length (fs_lost s) \<le> length (accepted_fds (fs_trace s))"
    using arg_cong [OF full_places [OF assms], of size] by simp
  ultimately show ?thesis by linarith
qed

lemma ring_inv_step:
  assumes "full_inv cores spawn n s" "full_step os inet_ntoa cores spawn s s'" "ring_inv (flow_of s)"
  shows "ring_inv (flow_of s')"
proof -
  have bound: "length (fl_ring (flow_of s')) + length (fl_lost (flow_of s')) \<le> 2048"
    using accepted_bound [OF full_step_inv [OF assms(1,2)]] by (simp add: flow_of_def)
  consider "flow_of s' = flow_of s" | "flow_step (flow_of s) (flow_of s')" using full_step_flow [OF assms(1,2)] by blast
  then show ?thesis
  proof cases
    case 2
    then show ?thesis using assms(3) bound by cases (auto simp: ring_inv_def)
  qed (use assms(3) in simp)
qed

lemma ring_inv_reach:
  assumes "reach (full_init cores n) (full_step os inet_ntoa cores spawn) s"
  shows "ring_inv (flow_of s)"
  using assms
proof (rule full.reach_keep)
  show "ring_inv (flow_of s)" if "full_init cores n s" for s
    using that startup_queue_size [of cores cores] by (auto simp: full_init_def ring_inv_def flow_of_def sys_of_def)
qed (rule ring_inv_step)

section \<open>Descriptors are given out once\<close>

text \<open>The descriptors that \<open>accept\<close> has delivered and nobody has closed, and what accept(2) documents: a new descriptor is none of them.\<close>

fun open_step :: "syscall \<times> int \<Rightarrow> int set \<Rightarrow> int set" where
  "open_step (Sys_accept f, r) fds = (if 0 < r then insert r fds else fds)"
| "open_step (Sys_close f, r) fds = fds - {f}"
| "open_step (c, r) fds = fds"

definition open_fds :: "trace \<Rightarrow> int set" where
  "open_fds t = fold open_step t {}"

definition accept_documented :: "os \<Rightarrow> bool" where
  "accept_documented os \<longleftrightarrow> (\<forall>t fd. fst (os t (Sys_accept fd)) \<notin> open_fds t)"

lemma open_fds_accepted:
  assumes "\<forall>c \<in> set t. \<not> is_close (fst c)"
  shows "open_fds t = set (accepted_fds t)"
  using assms
proof (induction t rule: rev_induct)
  case (snoc c t)
  obtain d r where c: "c = (d, r)" by (cases c)
  have "open_fds (t @ [c]) = open_step c (open_fds t)" by (simp add: open_fds_def)
  then show ?case using snoc by (cases d) (simp_all add: c)
qed (simp add: open_fds_def)

lemma server_event_accepts:
  assumes "server_on_event os inet_ntoa cores spawn t ev (sv, tp, ca) tr = (Ret st, tr @ cs)"
  shows "accepted_fds cs = [] \<or> accepted_fds cs = [fst (os tr (Sys_accept (sv_sockfd sv)))]"
  using assms
  by (auto simp: server_on_event_def call_out_def call_void_def bind_io_def lift_def ret_def stop_def Let_def
           split: if_splits outcome.splits prod.splits)

text \<open>A system that numbers its descriptors upwards.\<close>

lemma fold_max_le: "x \<in> insert m (set xs) \<Longrightarrow> x \<le> fold max xs (m :: int)"
proof (induction xs arbitrary: m x)
  case (Cons y ys)
  have "max y m \<le> fold max ys (max y m)" by (rule Cons.IH) simp
  moreover have "z \<in> set ys \<Longrightarrow> z \<le> fold max ys (max y m)" for z by (rule Cons.IH) simp
  ultimately show ?case using Cons.prems by auto
qed simp

lemma open_fds_results: "fd \<in> open_fds t \<Longrightarrow> fd \<in> set (map snd t)"
proof (induction t rule: rev_induct)
  case (snoc c t)
  obtain d r where c: "c = (d, r)" by (cases c)
  have "open_fds (t @ [c]) = open_step c (open_fds t)" by (simp add: open_fds_def)
  then show ?case using snoc by (cases d) (auto simp: c split: if_splits)
qed (simp add: open_fds_def)

lemma server_os_fresh: "accept_documented (server_os ready)"
  unfolding accept_documented_def
proof (intro allI notI)
  fix t fd
  assume "fst (server_os ready t (Sys_accept fd)) \<in> open_fds t"
  then have "1 + fold max (map snd t) 99 \<in> set (map snd t)" using open_fds_results by (simp add: server_os_def)
  then show False using fold_max_le [of "1 + fold max (map snd t) 99" 99 "map snd t"] by simp
qed

section \<open>The tables\<close>

definition tables_exact :: "full_sys \<Rightarrow> bool" where
  "tables_exact s \<longleftrightarrow> (\<forall>i < length (fs_objs s). \<forall>fd info.
     tw_clients (fs_objs s ! i) fd = Some info \<longleftrightarrow> (i, info) \<in> set (wk_adopted (fs_wk s)) \<and> client_fd info = fd)"

definition clients_inv :: "full_sys \<Rightarrow> bool" where
  "clients_inv s \<longleftrightarrow> distinct (accepted_fds (fs_trace s)) \<and> tables_exact s"

lemma clients_inv_frame:
  assumes "clients_inv s" "accepted_fds (fs_trace s') = accepted_fds (fs_trace s)" "wk_adopted (fs_wk s') = wk_adopted (fs_wk s)"
    "length (fs_objs s') = length (fs_objs s)" "\<And>i. i < length (fs_objs s) \<Longrightarrow> tw_clients (fs_objs s' ! i) = tw_clients (fs_objs s ! i)"
  shows "clients_inv s'"
  using assms by (simp add: clients_inv_def tables_exact_def)

lemma accept_clients:
  assumes "full_inv cores spawn n s" "accept_documented os" "clients_inv s"
    "server_on_event os inet_ntoa cores spawn t ev (fs_server s, sy_pool (fs_pool s), fs_caddr s) (fs_trace s) = (Ret st, fs_trace s @ cs)"
    "fs_trace s' = fs_trace s @ cs" "fs_wk s' = fs_wk s" "fs_objs s' = fs_objs s"
  shows "clients_inv s'"
proof -
  have "\<forall>c \<in> set (fs_trace s). \<not> is_close (fst c)" using assms(1) by (simp add: full_inv_def table_inv_def)
  then have "fst (os (fs_trace s) (Sys_accept fd)) \<notin> set (accepted_fds (fs_trace s))" for fd
    using assms(2) unfolding accept_documented_def by (simp flip: open_fds_accepted)
  then have "distinct (accepted_fds (fs_trace s @ cs))"
    using server_event_accepts [OF assms(4)] assms(3) by (auto simp: clients_inv_def)
  then show ?thesis using assms(3,5-7) by (simp add: clients_inv_def tables_exact_def)
qed

text \<open>The client at the front of the queue has not been adopted before.\<close>

lemma distinct_places:
  assumes "full_inv cores spawn n s" "distinct (accepted_fds (fs_trace s))"
  shows "distinct (fl_queue (flow_of s) @ fl_adopted (flow_of s))"
proof -
  obtain held where "mset held = fl_held (flow_of s)" using ex_mset by blast
  then have "mset (accepted_fds (fs_trace s)) =
      mset (fl_ring (flow_of s) @ held @ (fl_queue (flow_of s) @ fl_adopted (flow_of s)) @ fs_lost s)"
    using full_places [OF assms(1)] by simp
  from mset_eq_imp_distinct_iff [OF this] assms(2) show ?thesis by (simp add: Int_Un_distrib)
qed

lemma head_is_new:
  assumes "full_inv cores spawn n s" "distinct (accepted_fds (fs_trace s))" "wk_storage (fs_wk s) = info # rest"
    "(i, info') \<in> set (wk_adopted (fs_wk s))"
  shows "client_fd info' \<noteq> client_fd info"
  using distinct_places [OF assms(1,2)] assms(3,4) by (force simp: flow_of_def)

lemma adopt_clients:
  assumes "full_inv cores spawn n s" "clients_inv s" "i < length (wk_pcs (fs_wk s))" "wk_pcs (fs_wk s) ! i = Wk_Adopt"
    "worker_move i (fs_wk s) = Some w" "tcp_worker_adopt os (wk_storage (fs_wk s)) (fs_objs s ! i) (fs_trace s) = (Ret (q, x), tr)"
  shows "clients_inv (s\<lparr>fs_wk := w, fs_objs := (fs_objs s)[i := x], fs_trace := tr\<rparr>)"
proof -
  have i: "i < length (fs_objs s)" using worker_objs [OF assms(1,3)] .
  have acc: "accepted_fds tr = accepted_fds (fs_trace s)" using adopt_result [OF assms(6)] by auto
  have exact: "distinct (accepted_fds (fs_trace s))" "tables_exact s" using assms(2) by (simp_all add: clients_inv_def)
  show ?thesis
  proof (cases "wk_storage (fs_wk s)")
    case Nil
    then have "x = fs_objs s ! i" "wk_adopted w = wk_adopted (fs_wk s)"
      using assms(4,6) worker_move_frame [OF assms(5)] by (simp_all add: tcp_worker_adopt_def ret_def)
    then show ?thesis using assms(2) acc by (simp add: clients_inv_def tables_exact_def)
  next
    case (Cons info rest)
    let ?fd = "client_fd info"
    have w: "wk_adopted w = wk_adopted (fs_wk s) @ [(i, info)]" using assms(4) Cons worker_move_frame [OF assms(5)] by simp
    have new: "(j, info') \<in> set (wk_adopted (fs_wk s)) \<Longrightarrow> client_fd info' \<noteq> ?fd" for j info'
      by (rule head_is_new [OF assms(1) exact(1) Cons])
    have "tw_clients (fs_objs s ! i) ?fd = None"
    proof (rule ccontr)
      assume "tw_clients (fs_objs s ! i) ?fd \<noteq> None"
      then obtain info' where "tw_clients (fs_objs s ! i) ?fd = Some info'" by auto
      then have "(i, info') \<in> set (wk_adopted (fs_wk s))" "client_fd info' = ?fd" using exact(2) i by (auto simp: tables_exact_def)
      then show False using new by blast
    qed
    then have x: "tw_clients x = (tw_clients (fs_objs s ! i))(?fd \<mapsto> info)"
      using assms(6) Cons by (auto simp: tcp_worker_adopt_def bind_io_eq_Ret ret_def client_fd_def Let_def)
    have "tw_clients ((fs_objs s)[i := x] ! j) fd = Some y \<longleftrightarrow> (j, y) \<in> set (wk_adopted w) \<and> client_fd y = fd"
      if "j < length (fs_objs s)" for j fd y
    proof (cases "j = i")
      case True
      then show ?thesis using exact(2) i x w new by (auto simp: tables_exact_def)
    next
      case False
      then show ?thesis using exact(2) that w by (simp add: tables_exact_def)
    qed
    then show ?thesis using exact(1) acc by (simp add: clients_inv_def tables_exact_def)
  qed
qed

lemma poll_keeps_clients: "tcp_worker_poll os wt w b tr = (Ret (w', b'), tr') \<Longrightarrow> tw_clients w' = tw_clients w"
  by (auto simp: tcp_worker_poll_def bind_io_eq_Ret ret_def)

lemma clients_inv_step:
  assumes "full_inv cores spawn n s" "full_step os inet_ntoa cores spawn s s'" "clients_inv s" "accept_documented os"
  shows "clients_inv s'"
  using assms(2)
proof (cases rule: full_step.cases)
  case (startup w)
  then show ?thesis using startup_frame [OF startup(4)] by (intro clients_inv_frame [OF assms(3)]) simp_all
next
  case (accept t ev sv tp ca cs nt k p)
  show ?thesis by (rule accept_clients [OF assms(1,4,3) accept(3)]) (simp_all add: accept(1))
next
  case (thread p)
  then show ?thesis by (intro clients_inv_frame [OF assms(3)]) simp_all
next
  case (greet i task info args b b' tr)
  have "accepted_fds tr = accepted_fds (fs_trace s)" using only_callsD [OF client_greet_plain greet(6)] plain_calls by auto
  then show ?thesis by (intro clients_inv_frame [OF assms(3)]) (simp_all add: greet(1))
next
  case (push i task info args t w p)
  have "wk_adopted w = wk_adopted (fs_wk s)" using push(5) by (simp add: hand_over_free push_client_def)
  then show ?thesis by (intro clients_inv_frame [OF assms(3)]) (simp_all add: push(1))
next
  case (worker i w)
  have "wk_adopted w = wk_adopted (fs_wk s)" using worker_move_frame [OF worker(5)] worker(3) by simp
  then show ?thesis by (intro clients_inv_frame [OF assms(3)]) (simp_all add: worker(1))
next
  case (adopt i w q x tr)
  show ?thesis unfolding adopt(1) by (rule adopt_clients [OF assms(1,3) adopt(2-5)])
next
  case (poll i wt w b x b' tr)
  have "wk_adopted w = wk_adopted (fs_wk s)" using worker_move_frame [OF poll(4)] poll(3) by simp
  moreover have "accepted_fds tr = accepted_fds (fs_trace s)" using only_callsD [OF poll_plain poll(5)] plain_calls by auto
  moreover have "tw_clients ((fs_objs s)[i := x] ! j) = tw_clients (fs_objs s ! j)" if "j < length (fs_objs s)" for j
    using poll_keeps_clients [OF poll(5)] that by (cases "j = i") simp_all
  ultimately show ?thesis by (intro clients_inv_frame [OF assms(3)]) (simp_all add: poll(1))
next
  case (listen w w' tr)
  have "accepted_fds tr = accepted_fds (fs_trace s)" using only_callsD [OF listen_plain listen(2)] plain_calls by auto
  then show ?thesis by (intro clients_inv_frame [OF assms(3)]) (simp_all add: listen(1))
qed

lemma clients_inv_reach:
  assumes "reach (full_init cores n) (full_step os inet_ntoa cores spawn) s" "accept_documented os"
  shows "clients_inv s"
  using assms(1)
proof (rule full.reach_keep)
  show "clients_inv s" if "full_init cores n s" for s
    using that by (auto simp: full_init_def clients_inv_def tables_exact_def wk_init_def wk_start_def)
qed (use clients_inv_step assms(2) in blast)

section \<open>Properties\<close>

text \<open>
  C3. The ring never refuses a connection: while nobody has shut the pool down, no accepted connection has been refused, however slow the
  threads are, and the connections that were accepted are exactly those in the ring, in the hands of a thread, in the queue and
  with the workers. The ring of 2048 places that \<open>startup\<close> makes is as large as the number of connections the server ever accepts.
\<close>

theorem ring_never_refuses:
  assumes "reach (full_init cores n) (full_step os inet_ntoa cores spawn) s" "\<not> tp_shutdown (sy_pool (fs_pool s))"
  shows "fs_lost s = [] \<and> tp_queue_size (sy_pool (fs_pool s)) = 2048 \<and>
    mset (accepted_fds (fs_trace s)) = mset (map task_fd (pool_tasks (sy_pool (fs_pool s)))) +
      image_mset task_fd (held_tasks (sy_pcs (fs_pool s))) + mset (map client_fd (wk_storage (fs_wk s))) +
      mset (map (\<lambda>e. client_fd (snd e)) (wk_adopted (fs_wk s)))"
  using ring_inv_reach [OF assms(1)] full_places [OF full.reach_inv [OF assms(1)]] assms(2)
  by (simp add: ring_inv_def flow_of_def)

theorem ring_never_refuses_witness:
  "\<exists>s. demo_reach s \<and> accepted_fds (fs_trace s) = [100] \<and> fs_lost s = [] \<and> tp_queue_size (sy_pool (fs_pool s)) = 2048"
proof -
  obtain s x info where s: "demo_reach s" "accepted_fds (fs_trace s) = [100]"
    "fs_pool s = pool_ready\<lparr>sy_pool := pool_put x (sy_pool pool_ready), sy_accepted := [x]\<rparr>"
    using demo_accepted by blast
  have "\<not> tp_shutdown (sy_pool (fs_pool s))" using pool_ready_facts(4) by (simp add: s(3))
  from ring_never_refuses [OF s(1) this] s(1,2) show ?thesis by blast
qed

text \<open>
  C4. The tables are exact: if \<open>accept\<close> never delivers a descriptor that is still open, as accept(2) documents, then no descriptor is accepted
  twice, the table of each worker has exactly the clients it adopted, each under its own descriptor, and no client is in the tables of
  two workers. So the \<open>insert\<close> of a worker never meets an older entry.
\<close>

theorem tables_are_exact:
  assumes "reach (full_init cores n) (full_step os inet_ntoa cores spawn) s" "accept_documented os"
  shows "distinct (accepted_fds (fs_trace s)) \<and>
    (\<forall>i fd info. i < length (fs_objs s) \<longrightarrow>
       (tw_clients (fs_objs s ! i) fd = Some info \<longleftrightarrow> (i, info) \<in> set (wk_adopted (fs_wk s)) \<and> client_fd info = fd)) \<and>
    (\<forall>i j fd. i < length (fs_objs s) \<and> j < length (fs_objs s) \<and> tw_clients (fs_objs s ! i) fd \<noteq> None \<and>
       tw_clients (fs_objs s ! j) fd \<noteq> None \<longrightarrow> i = j)"
proof (intro conjI)
  have inv: "distinct (accepted_fds (fs_trace s))" "tables_exact s"
    using clients_inv_reach [OF assms] by (simp_all add: clients_inv_def)
  show "distinct (accepted_fds (fs_trace s))" by (rule inv(1))
  show exact: "\<forall>i fd info. i < length (fs_objs s) \<longrightarrow>
      (tw_clients (fs_objs s ! i) fd = Some info \<longleftrightarrow> (i, info) \<in> set (wk_adopted (fs_wk s)) \<and> client_fd info = fd)"
    using inv(2) by (simp add: tables_exact_def)
  have "distinct (fl_adopted (flow_of s))"
    using distinct_places [OF full.reach_inv [OF assms(1)] inv(1)] by simp
  then show "\<forall>i j fd. i < length (fs_objs s) \<and> j < length (fs_objs s) \<and> tw_clients (fs_objs s ! i) fd \<noteq> None \<and>
      tw_clients (fs_objs s ! j) fd \<noteq> None \<longrightarrow> i = j"
    using exact by (fastforce simp: flow_of_def distinct_map inj_on_def)
qed

theorem tables_are_exact_witness:
  "\<exists>s info. demo_reach s \<and> wk_adopted (fs_wk s) = [(0, info)] \<and> tw_clients (fs_objs s ! 0) 100 = Some info \<and> tw_clients (fs_objs s ! 1) 100 = None"
proof -
  obtain s info where s: "demo_reach s" "client_fd info = 100" "wk_adopted (fs_wk s) = [(0, info)]" using demo_adopted by blast
  have "full_inv 1 (\<lambda>i. (0, 70 + i)) 2 s" using full.reach_inv [OF s(1)] .
  then have "wk_inv 2 (fs_wk s)" "table_inv s" using workers.reach_inv [of 2 "fs_wk s"] by (simp_all add: full_inv_def)
  then have "length (fs_objs s) = 2" by (simp add: wk_inv_def table_inv_def)
  moreover from tables_are_exact [OF s(1) server_os_fresh]
  have "i < length (fs_objs s) \<Longrightarrow> tw_clients (fs_objs s ! i) fd = Some y \<longleftrightarrow> (i, y) \<in> set (wk_adopted (fs_wk s)) \<and> client_fd y = fd"
    for i fd y by blast
  from this [of 0 100 info] this [of 1 100] s(2,3) calculation show ?thesis
    using s(1) by (intro exI [of _ s] exI [of _ info]) (simp, cases "tw_clients (fs_objs s ! 1) 100", simp_all)
qed

end
