(* ===== verification/Worker_Progress.thy ===== *)
theory Worker_Progress
  imports Worker_Threads
begin

text \<open>
  Progress of the workers: from which states the queue of new clients can be drained by moves of the workers alone, without any of them
  running into the division by zero. A worker that has faulted has ended the process, and it never leaves that state: a run that ends with
  no worker faulted has none anywhere.
\<close>

section \<open>Where the division cannot trap\<close>

definition wk_alive :: "'c wk_sys \<Rightarrow> bool" where
  "wk_alive s \<longleftrightarrow> (\<forall>e. Wk_Fault e \<notin> set (wk_pcs s))"

text \<open>Between its decrement of the counter and the division.\<close>

fun committed :: "wpc \<Rightarrow> bool" where
  "committed Wk_Cmp = True"
| "committed (Wk_Use a) = True"
| "committed pc = False"

text \<open>
  A decrement was lost when \<open>startup\<close> stored the counter, which is then too high for ever; or there is a second worker, and not every
  worker is committed.
\<close>

definition uncornered :: "'c wk_sys \<Rightarrow> bool" where
  "uncornered s \<longleftrightarrow> wk_alive s \<and> (0 < wk_early s \<or> 2 \<le> length (wk_pcs s) \<and> (\<exists>pc \<in> set (wk_pcs s). \<not> committed pc))"

abbreviation worker_moves :: "'c wk_sys \<Rightarrow> 'c wk_sys \<Rightarrow> bool" where
  "worker_moves s s' \<equiv> \<exists>i < length (wk_pcs s). worker_move i s = Some s'"

section \<open>What a move leaves alone\<close>

lemma worker_move_keeps:
  assumes "worker_move i s = Some s'"
  shows "wk_num s' = wk_num s" "wk_stored s' = wk_stored s" "wk_early s' = wk_early s" "wk_pushed s' = wk_pushed s"
    "length (wk_pcs s') = length (wk_pcs s)" "j \<noteq> i \<Longrightarrow> wk_pcs s' ! j = wk_pcs s ! j"
  using assms by (auto simp: worker_move_def worker_defs bind_outcome_def Let_def split: wpc.splits outcome.splits list.splits)

lemma fault_stays: "worker_moves s s' \<Longrightarrow> wk_alive s' \<Longrightarrow> wk_alive s"
proof -
  assume "worker_moves s s'" and alive: "wk_alive s'"
  then obtain i where i: "i < length (wk_pcs s)" "worker_move i s = Some s'" by blast
  have "wk_pcs s ! j \<noteq> Wk_Fault e" if "j < length (wk_pcs s)" for j e
  proof (cases "j = i")
    case True
    then show ?thesis using i(2) by (auto simp: worker_move_def)
  next
    case False
    then have "wk_pcs s ! j \<in> set (wk_pcs s')" using worker_move_keeps(5,6) [OF i(2)] that by (metis nth_mem)
    then show ?thesis using alive by (auto simp: wk_alive_def)
  qed
  then show "wk_alive s" by (auto simp: wk_alive_def in_set_conv_nth)
qed

lemma alive_update: "wk_alive s \<Longrightarrow> wk_pcs s' = (wk_pcs s)[i := pc] \<Longrightarrow> \<nexists>e. pc = Wk_Fault e \<Longrightarrow> wk_alive s'"
  using set_update_subset_insert [of "wk_pcs s" i pc] by (auto simp: wk_alive_def)

section \<open>One worker drains the queue while another one waits\<close>

text \<open>The counter stays positive while worker \<open>k\<close> has not decremented it.\<close>

definition spare :: "nat \<Rightarrow> 'c wk_sys \<Rightarrow> bool" where
  "spare k s \<longleftrightarrow> k < length (wk_pcs s) \<and> (0 < wk_early s \<or> \<not> polling (wk_pcs s ! k))"

lemma spare_avail:
  assumes "wk_inv n s" "wk_stored s" "spare k s"
  shows "0 < wk_avail s"
proof -
  have c: "wk_count_inv s" using assms(1) by (simp add: wk_inv_def)
  have "int (wk_polling s) < int (length (wk_pcs s)) + int (wk_early s)"
  proof (cases "0 < wk_early s")
    case True
    then show ?thesis using polling_le [of s] by linarith
  next
    case False
    then have "\<not> polling (wk_pcs s ! k)" "k < length (wk_pcs s)" using assms(3) by (simp_all add: spare_def)
    then have "count_if polling (wk_pcs s) \<noteq> length (wk_pcs s)" by (auto simp: count_if_full)
    then show ?thesis using polling_le [of s] False by (simp add: wk_polling_def)
  qed
  then show ?thesis using c assms(2) by (simp add: wk_count_inv_def)
qed

definition draining :: "int \<Rightarrow> nat \<Rightarrow> nat \<Rightarrow> 'c list \<Rightarrow> 'c wk_sys \<Rightarrow> bool" where
  "draining n j k cs s \<longleftrightarrow> wk_inv n s \<and> wk_stored s \<and> wk_alive s \<and> spare k s \<and> (j \<noteq> k \<or> 0 < wk_early s) \<and> j < length (wk_pcs s) \<and>
     wk_lock s \<in> {Mutex_Free, Mutex_Held j} \<and> wk_pushed s = cs"

fun turn_left :: "wpc \<Rightarrow> nat" where
  "turn_left Wk_Dec = 7"
| "turn_left Wk_Cmp = 6"
| "turn_left (Wk_Use a) = 5"
| "turn_left (Wk_Poll w) = 4"
| "turn_left Wk_Inc = 3"
| "turn_left Wk_Test = 2"
| "turn_left Wk_Lock = 1"
| "turn_left pc = 0"

definition drain_rank :: "nat \<Rightarrow> 'c wk_sys \<Rightarrow> nat" where
  "drain_rank j s = 8 * length (wk_storage s) + turn_left (wk_pcs s ! j)"

text \<open>The move of worker \<open>j\<close>, its effect on the queue, the lock and the rank.\<close>

lemma draining_move:
  assumes "draining n j k cs s" "wk_storage s \<noteq> []"
  shows "\<exists>s' pc. worker_move j s = Some s' \<and> wk_pcs s' = (wk_pcs s)[j := pc] \<and> (\<nexists>e. pc = Wk_Fault e) \<and>
    wk_lock s' \<in> {Mutex_Free, Mutex_Held j} \<and> drain_rank j s' < drain_rank j s"
proof -
  have inv: "wk_inv n s" "wk_stored s" "spare k s" "wk_alive s" and j: "j < length (wk_pcs s)"
    and lock: "wk_lock s \<in> {Mutex_Free, Mutex_Held j}" using assms(1) by (simp_all add: draining_def)
  obtain info rest where st: "wk_storage s = info # rest" using assms(2) by (cases "wk_storage s") auto
  have l: "wk_pcs s ! j = Wk_Adopt \<longleftrightarrow> wk_lock s = Mutex_Held j" using inv(1) j by (simp add: wk_inv_def wk_lock_inv_def)
  show ?thesis
  proof (cases "wk_pcs s ! j")
    case (Wk_Use a)
    have "wk_avail s \<noteq> 0" using spare_avail [OF inv(1-3)] by simp
    moreover have "1 \<le> wk_num s" "wk_avail s \<le> 2 * wk_num s" "0 \<le> wk_avail s"
      using inv(1) spare_avail [OF inv(1-3)] avail_polling(1) [of s j] j Wk_Use by (simp_all add: wk_inv_def wk_count_inv_def)
    ultimately obtain w where "worker_wait_time (wk_num s) a (wk_avail s) = Ret w"
      using wait_time_cases [of "wk_num s" "wk_avail s" a] by auto
    then show ?thesis using Wk_Use j lock
      by (intro exI [of _ "wk_goto j (Wk_Poll w) s"] exI [of _ "Wk_Poll w"])
         (auto simp: worker_move_def worker_use_def drain_rank_def)
  next
    case (Wk_Fault e)
    then show ?thesis using inv(4) j by (metis nth_mem wk_alive_def)
  qed (use l lock j st in \<open>auto simp: worker_move_def worker_defs drain_rank_def Let_def\<close>)
qed

interpretation drain: progressing_system worker_moves "draining n j k cs" "\<lambda>s. wk_storage s = []" "drain_rank j"
  for n j k cs
proof
  fix s :: "'a wk_sys"
  assume live: "draining n j k cs s" and more: "wk_storage s \<noteq> []"
  obtain s' pc where m: "worker_move j s = Some s'" "wk_pcs s' = (wk_pcs s)[j := pc]" "\<nexists>e. pc = Wk_Fault e"
    "wk_lock s' \<in> {Mutex_Free, Mutex_Held j}" "drain_rank j s' < drain_rank j s"
    using draining_move [OF live more] by blast
  have j: "j < length (wk_pcs s)" and inv: "wk_inv n s" and alive: "wk_alive s" using live by (simp_all add: draining_def)
  note keep = worker_move_keeps [OF m(1)]
  have "spare k s'" using live keep(3,5) keep(6) [of k] by (auto simp: draining_def spare_def)
  then have "draining n j k cs s'"
    using live keep m(4) worker_move_inv [OF inv j m(1)] alive_update [OF alive m(2,3)] by (simp add: draining_def)
  moreover have "steps worker_moves s s'" by (rule steps_one) (use j m(1) in blast)
  ultimately show "\<exists>s'. steps worker_moves s s' \<and> draining n j k cs s' \<and> drain_rank j s' < drain_rank j s" using m(5) by blast
qed


section \<open>Getting there\<close>

definition drainable :: "int \<Rightarrow> 'c list \<Rightarrow> 'c wk_sys \<Rightarrow> bool" where
  "drainable n cs s \<longleftrightarrow> wk_inv n s \<and> wk_stored s \<and> uncornered s \<and> wk_pushed s = cs"

lemma uncornered_update:
  assumes "uncornered s" "i < length (wk_pcs s)" "wk_pcs s' = (wk_pcs s)[i := pc]" "wk_early s' = wk_early s" "\<not> committed pc"
    "\<nexists>e. pc = Wk_Fault e"
  shows "uncornered s'"
proof -
  have "wk_alive s'" using assms(1) alive_update [OF _ assms(3,6)] by (simp add: uncornered_def)
  moreover have "pc \<in> set (wk_pcs s')" using set_update_memI [OF assms(2)] by (simp add: assms(3))
  ultimately show ?thesis using assms(1,3-5) by (auto simp: uncornered_def)
qed

lemma drainable_move:
  assumes "drainable n cs s" "i < length (wk_pcs s)" "worker_move i s = Some s'" "wk_pcs s' = (wk_pcs s)[i := pc]" "\<not> committed pc"
    "\<nexists>e. pc = Wk_Fault e"
  shows "steps worker_moves s s'" "drainable n cs s'"
proof -
  show "steps worker_moves s s'" by (rule steps_one) (use assms(2,3) in blast)
  have "uncornered s" using assms(1) by (simp add: drainable_def)
  then show "drainable n cs s'"
    using assms(1) worker_move_inv [OF _ assms(2,3), of n] uncornered_update [OF _ assms(2,4) _ assms(5,6)] worker_move_keeps [OF assms(3)]
    by (simp add: drainable_def)
qed

lemma lock_released:
  assumes "drainable n cs s"
  shows "\<exists>s'. steps worker_moves s s' \<and> drainable n cs s' \<and> wk_lock s' = Mutex_Free"
proof (cases "wk_lock s")
  case Mutex_Free
  then show ?thesis using assms by (intro exI [of _ s]) (simp add: steps_refl)
next
  case (Mutex_Held i)
  have "wk_lock_inv s" using assms by (simp add: drainable_def wk_inv_def)
  then have i: "i < length (wk_pcs s)" "wk_pcs s ! i = Wk_Adopt" using Mutex_Held by (auto simp: wk_lock_inv_def)
  then obtain s' where s': "worker_move i s = Some s'" "wk_pcs s' = (wk_pcs s)[i := Wk_Dec]" "wk_lock s' = Mutex_Free"
    using Mutex_Held by (cases "wk_storage s") (auto simp: worker_move_def worker_adopt_def)
  from drainable_move [OF assms i(1) s'(1,2)] s'(3) show ?thesis by (intro exI [of _ s']) simp
next
  case Mutex_Destroyed
  then show ?thesis using assms by (simp add: drainable_def wk_inv_def wk_lock_inv_def)
qed

lemma inc_parks:
  assumes "drainable n cs s" "wk_lock s = Mutex_Free" "k < length (wk_pcs s)" "wk_pcs s ! k = Wk_Inc"
  shows "\<exists>s'. steps worker_moves s s' \<and> drainable n cs s' \<and> wk_lock s' = Mutex_Free \<and> length (wk_pcs s') = length (wk_pcs s) \<and>
    \<not> polling (wk_pcs s' ! k)"
proof -
  let ?s' = "(wk_goto k Wk_Test s)\<lparr>wk_avail := wk_avail s + 1\<rparr>"
  have m: "worker_move k s = Some ?s'" using assms(4) by (simp add: worker_move_def worker_inc_def)
  from drainable_move [OF assms(1,3) m, of Wk_Test] assms(2,3) show ?thesis by (intro exI [of _ ?s']) simp
qed

lemma worker_parks:
  assumes "drainable n cs s" "wk_lock s = Mutex_Free" "k < length (wk_pcs s)" "\<not> committed (wk_pcs s ! k)"
  shows "\<exists>s'. steps worker_moves s s' \<and> drainable n cs s' \<and> wk_lock s' = Mutex_Free \<and> length (wk_pcs s') = length (wk_pcs s) \<and>
    \<not> polling (wk_pcs s' ! k)"
proof (cases "wk_pcs s ! k")
  case (Wk_Poll w)
  let ?a = "wk_goto k Wk_Inc s"
  have m: "worker_move k s = Some ?a" using Wk_Poll by (simp add: worker_move_def worker_polled_def)
  note a = drainable_move [OF assms(1,3) m, of Wk_Inc]
  have run: "steps worker_moves s ?a" and live: "drainable n cs ?a" using a by simp_all
  obtain s' where "steps worker_moves ?a s'" "drainable n cs s'" "wk_lock s' = Mutex_Free" "length (wk_pcs s') = length (wk_pcs s)"
    "\<not> polling (wk_pcs s' ! k)"
    using inc_parks [OF live, of k] assms(2,3) by auto
  then show ?thesis using steps_trans [OF run] by blast
next
  case Wk_Inc
  then show ?thesis by (rule inc_parks [OF assms(1-3)])
next
  case (Wk_Fault e)
  then have "Wk_Fault e \<in> set (wk_pcs s)" using nth_mem [OF assms(3)] by simp
  then show ?thesis using assms(1) by (auto simp: drainable_def uncornered_def wk_alive_def)
qed (use assms in \<open>auto intro!: exI [of _ s] steps_refl\<close>)

lemma worker_spared:
  assumes "drainable n cs s" "wk_lock s = Mutex_Free"
  shows "\<exists>s' j k. steps worker_moves s s' \<and> draining n j k cs s'"
proof (cases "0 < wk_early s")
  case True
  have "0 < length (wk_pcs s)" using assms(1) by (auto simp: drainable_def wk_inv_def wk_count_inv_def)
  then have "draining n 0 0 cs s" using assms True by (simp add: draining_def drainable_def uncornered_def spare_def)
  then show ?thesis using steps_refl [of worker_moves s] by blast
next
  case False
  then have two: "2 \<le> length (wk_pcs s)" and "\<exists>pc \<in> set (wk_pcs s). \<not> committed pc"
    using assms(1) by (simp_all add: drainable_def uncornered_def)
  then obtain k where "k < length (wk_pcs s)" "\<not> committed (wk_pcs s ! k)" by (auto simp: in_set_conv_nth)
  from worker_parks [OF assms this]
  obtain s' where s': "steps worker_moves s s'" "drainable n cs s'" "wk_lock s' = Mutex_Free" "length (wk_pcs s') = length (wk_pcs s)"
    "\<not> polling (wk_pcs s' ! k)" by blast
  let ?j = "if k = 0 then 1 else 0"
  have "?j < length (wk_pcs s')" unfolding s'(4) using two by (auto split: if_splits)
  then have "draining n ?j k cs s'"
    using s' \<open>k < length (wk_pcs s)\<close> by (simp add: draining_def drainable_def uncornered_def spare_def)
  then show ?thesis using s'(1) by blast
qed

lemma queue_drained:
  assumes "drainable n cs s"
  shows "\<exists>s'. steps worker_moves s s' \<and> wk_storage s' = [] \<and> wk_alive s' \<and> map snd (wk_adopted s') = cs"
proof -
  obtain a where a: "steps worker_moves s a" "drainable n cs a" "wk_lock a = Mutex_Free" using lock_released [OF assms] by blast
  obtain b j k where b: "steps worker_moves a b" "draining n j k cs b" using worker_spared [OF a(2,3)] by blast
  obtain s' where s': "steps worker_moves b s'" "draining n j k cs s'" "wk_storage s' = []" using drain.goal_reachable [OF b(2)] by blast
  have "wk_pushed s' = map snd (wk_adopted s')" using s'(2,3) by (simp add: draining_def wk_inv_def wk_queue_inv_def)
  then show ?thesis using steps_trans [OF a(1) steps_trans [OF b(1) s'(1)]] s'(2,3) by (auto simp: draining_def)
qed

section \<open>Cornered workers\<close>

text \<open>Every worker has decremented the counter, none was lost, and no one has seen a positive value: all divisions will be by zero.\<close>

definition cornered :: "'c wk_sys \<Rightarrow> bool" where
  "cornered s \<longleftrightarrow> wk_stored s \<and> wk_early s = 0 \<and> (\<forall>pc \<in> set (wk_pcs s). pc \<in> {Wk_Cmp, Wk_Use 0, Wk_Fault Div_By_Zero})"

lemma cornered_avail:
  assumes "wk_inv n s" "cornered s"
  shows "wk_avail s = 0"
proof -
  have "\<forall>pc \<in> set (wk_pcs s). polling pc" using assms(2) by (auto simp: cornered_def)
  then have "wk_polling s = length (wk_pcs s)" unfolding wk_polling_def by (simp add: count_if_full)
  then show ?thesis using assms by (simp add: wk_inv_def wk_count_inv_def cornered_def)
qed

lemma cornered_move:
  assumes "wk_inv n s" "cornered s" "i < length (wk_pcs s)" "worker_move i s = Some s'"
  shows "cornered s' \<and> wk_adopted s' = wk_adopted s"
proof -
  have pc: "wk_pcs s ! i \<in> {Wk_Cmp, Wk_Use 0, Wk_Fault Div_By_Zero}" using assms(2,3) nth_mem unfolding cornered_def by blast
  have avail: "wk_avail s = 0" by (rule cornered_avail [OF assms(1,2)])
  have n: "1 \<le> wk_num s" using assms(1) by (simp add: wk_inv_def wk_count_inv_def)
  then have "worker_wait_time (wk_num s) 0 0 = Stop Div_By_Zero"
    by (simp add: worker_wait_time_def c_rem_def signed_divide_int_def sgn_if)
  then have s': "s' = wk_goto i (if wk_pcs s ! i = Wk_Cmp then Wk_Use 0 else Wk_Fault Div_By_Zero) s"
    using assms(4) pc avail by (auto simp: worker_move_def worker_cmp_def worker_use_def)
  have "set (wk_pcs s') \<subseteq> insert (Wk_Use 0) (insert (Wk_Fault Div_By_Zero) (set (wk_pcs s)))"
    unfolding s' by (auto dest!: set_update_subset_insert [THEN subsetD])
  then show ?thesis using assms(2) unfolding cornered_def by (auto simp: s')
qed

lemma cornered_step:
  assumes "wk_inv n s" "cornered s" "wk_step s s'"
  shows "cornered s' \<and> wk_adopted s' = wk_adopted s"
  using assms(3)
proof (cases rule: wk_step.cases)
  case (move i)
  then show ?thesis using cornered_move [OF assms(1,2)] by blast
qed (use assms(2) in \<open>auto simp: cornered_def push_client_def\<close>)

lemma cornered_steps: "steps wk_step s s' \<Longrightarrow> wk_inv n s \<Longrightarrow> cornered s \<Longrightarrow> cornered s' \<and> wk_adopted s' = wk_adopted s"
proof (induction rule: steps.induct)
  case (steps_more s u v)
  then show ?case using cornered_step [of n u v] workers.steps_inv [of s u n] by simp
qed simp

section \<open>Every schedule\<close>






section \<open>Properties\<close>

definition two_workers :: "int wk_sys" where
  "two_workers = startup_store (startup_start (startup_start (wk_start 2)))"

lemmas two_workers_simps = two_workers_def wk_start_def startup_start_def startup_store_def push_client_def

lemma two_workers_reached: "reach (wk_init 2) wk_step two_workers"
proof -
  have r0: "reach (wk_init 2) wk_step (wk_start 2 :: int wk_sys)" by (rule reach_init) (simp add: wk_init_def)
  have r1: "reach (wk_init 2) wk_step (startup_start (wk_start 2 :: int wk_sys))"
    by (rule reach_step [OF r0 wk_step.start]) (simp_all add: two_workers_simps)
  have r2: "reach (wk_init 2) wk_step (startup_start (startup_start (wk_start 2 :: int wk_sys)))"
    by (rule reach_step [OF r1 wk_step.start]) (simp_all add: two_workers_simps)
  show ?thesis unfolding two_workers_def by (rule reach_step [OF r2 wk_step.store]) (simp_all add: two_workers_simps)
qed


text \<open>
  The workers can always drain the queue unless the division has cornered them: from every reachable state in which the counter is stored and
  no worker has faulted, if a decrement was lost at the start, or if there are two workers and not every one is between its decrement and
  its division, then moves of the workers alone adopt every client that was pushed, in order, and no worker faults.
\<close>

theorem queue_can_be_drained:
  assumes "reach (wk_init n) wk_step s" "wk_stored s" "wk_alive s"
    "0 < wk_early s \<or> 2 \<le> length (wk_pcs s) \<and> (\<exists>pc \<in> set (wk_pcs s). \<not> committed pc)"
  shows "\<exists>s'. steps worker_moves s s' \<and> wk_storage s' = [] \<and> map snd (wk_adopted s') = wk_pushed s \<and> wk_alive s'"
  using queue_drained [of n "wk_pushed s" s] workers.reach_inv [OF assms(1)] assms(2-4) by (auto simp: drainable_def uncornered_def)

theorem queue_can_be_drained_witness:
  "\<exists>s s'. reach (wk_init 2) wk_step (s :: int wk_sys) \<and> wk_storage s = [7, 8] \<and> steps worker_moves s s' \<and> map snd (wk_adopted s') = [7, 8]"
proof -
  let ?s = "push_client 8 (push_client 7 two_workers)"
  have r1: "reach (wk_init 2) wk_step (push_client 7 two_workers)"
    by (rule reach_step [OF two_workers_reached wk_step.push]) (simp add: two_workers_simps)
  have r: "reach (wk_init 2) wk_step ?s" by (rule reach_step [OF r1 wk_step.push]) (simp add: two_workers_simps)
  have "wk_stored ?s" "wk_alive ?s" "2 \<le> length (wk_pcs ?s)" "\<exists>pc \<in> set (wk_pcs ?s). \<not> committed pc"
    by (simp_all add: two_workers_simps wk_alive_def)
  moreover have "wk_storage ?s = [7, 8]" "wk_pushed ?s = [7, 8]"
    by (simp_all add: two_workers_simps)
  ultimately obtain s' where "steps worker_moves ?s s'" "map snd (wk_adopted s') = [7, 8]"
    using queue_can_be_drained [OF r] by auto
  then show ?thesis using r \<open>wk_storage ?s = [7, 8]\<close> by (intro exI [of _ ?s] exI [of _ s']) blast
qed



text \<open>
  C24. Cornered workers adopt nothing any more: once every worker is between its decrement and its division, no decrement was lost and none has seen a
  positive counter, then whatever happens later, clients that arrive included, no client is adopted and every worker stays there or
  faults.
\<close>

theorem cornered_workers_stuck:
  assumes "reach (wk_init n) wk_step s" "wk_stored s" "wk_early s = 0" "\<forall>pc \<in> set (wk_pcs s). pc = Wk_Cmp \<or> pc = Wk_Use 0"
    "steps wk_step s s'"
  shows "wk_adopted s' = wk_adopted s \<and> (\<forall>pc \<in> set (wk_pcs s'). pc \<in> {Wk_Cmp, Wk_Use 0, Wk_Fault Div_By_Zero})"
proof -
  have "cornered s" using assms(2-4) unfolding cornered_def by blast
  with cornered_steps [OF assms(5) workers.reach_inv [OF assms(1)]] show ?thesis unfolding cornered_def by blast
qed

theorem cornered_workers_stuck_witness:
  "\<exists>s. reach (wk_init 2) wk_step (s :: int wk_sys) \<and> wk_pcs s = [Wk_Cmp, Wk_Cmp] \<and>
     (\<forall>s'. steps wk_step s s' \<longrightarrow> wk_adopted s' = [])"
proof -
  define s where "s = two_workers\<lparr>wk_pcs := [Wk_Cmp, Wk_Cmp], wk_avail := 0\<rparr>"
  have "wk_run [0, 1, 0, 1] two_workers = Some s"
    by (simp add: s_def two_workers_simps worker_move_def worker_test_def worker_dec_def)
  then have r: "reach (wk_init 2) wk_step s" by (rule wk_run_reach [OF _ two_workers_reached])
  have s: "wk_pcs s = [Wk_Cmp, Wk_Cmp]" "wk_stored s" "wk_early s = 0" "wk_adopted s = []"
    by (simp_all add: s_def two_workers_simps wk_polling_def)
  have "\<forall>pc \<in> set (wk_pcs s). pc = Wk_Cmp \<or> pc = Wk_Use 0" by (simp add: s(1))
  from cornered_workers_stuck [OF r s(2,3) this] s(1,4) r show ?thesis by (intro exI [of _ s]) simp
qed

end
