(* ===== verification/Server_Progress.thy ===== *)
theory Server_Progress
  imports Server_Capacity Worker_Progress
begin

text \<open>
  Progress of the interleaved server: what it can always still do. From every reachable state in which the pool is in service and
  the workers are counted, the pool threads can empty the ring and hand every client over, and a worker that is not on its way to a
  poll can adopt the client at the front of the queue. So no interleaving of locks, signals and counters blocks a connection.
\<close>

section \<open>A pool thread can always take the head of the ring\<close>

abbreviation quiet_step :: "int \<Rightarrow> (nat \<Rightarrow> int \<times> nat) \<Rightarrow> ('f, 'a) pool_sys \<Rightarrow> ('f, 'a) pool_sys \<Rightarrow> bool" where
  "quiet_step cores spawn p p' \<equiv> pool_step cores spawn p p' \<and> sy_accepted p' = sy_accepted p \<and> sy_ran p' = sy_ran p"

text \<open>Thread \<open>i\<close> has taken \<open>x\<close>.\<close>

definition has_taken :: "nat \<Rightarrow> ('f, 'a) thread_pool_task \<Rightarrow> ('f, 'a) thread_pool_task list \<Rightarrow> ('f, 'a) pool_sys \<Rightarrow> ('f, 'a) pool_sys \<Rightarrow> bool"
  where "has_taken i x rest p p' \<longleftrightarrow> sy_owner p' = sy_owner p \<and> pool_tasks (sy_pool p') = rest \<and> sy_pcs p' = (sy_pcs p)[i := Has_Task x]"

lemma take_at_check:
  assumes "sys_inv p" "\<not> tp_shutdown (sy_pool p)" "pool_tasks (sy_pool p) = x # rest" "at_pc p i At_Check"
  shows "\<exists>p'. quiet_step cores spawn p p' \<and> has_taken i x rest p p'"
proof -
  have inv: "pool_inv (sy_pool p)" "tp_lock (sy_pool p) = Mutex_Held i"
    using assms(1,4) by (auto simp: sys_inv_def shape_inv_def lock_inv_def)
  have "int (length (pool_tasks (sy_pool p))) = tp_work_count (sy_pool p)"
    using inv(1) by (simp add: length_pool_tasks pool_inv_def)
  then have n: "tp_work_count (sy_pool p) \<noteq> 0" using assms(3) by auto
  have head: "thread_pool_take (sy_pool p) = Ret (x, pool_drop (sy_pool p))" "pool_tasks (pool_drop (sy_pool p)) = rest"
    using take_drop_head [OF inv(1)] pool_tasks_Cons [OF inv(1) n] assms(3) by simp_all
  let ?p' = "(set_pc i (Has_Task x) p)\<lparr>sy_pool := (pool_drop (sy_pool p))\<lparr>tp_lock := Mutex_Free\<rparr>, sy_taken := sy_taken p @ [x]\<rparr>"
  have "routine_locked i p = Ret ?p'"
    using assms(2) inv(2) n head(1) by (simp add: routine_locked_def Let_def)
  then have "pool_step cores spawn p ?p'" using assms(4) by (intro pool_step.locked [where i = i])
  then show ?thesis using head(2) by (intro exI [of _ ?p']) (simp add: has_taken_def)
qed

lemma take_at_lock:
  assumes "sys_inv p" "\<not> tp_shutdown (sy_pool p)" "pool_tasks (sy_pool p) = x # rest" "at_pc p i At_Lock"
    "tp_lock (sy_pool p) = Mutex_Free"
  shows "\<exists>p'. steps (quiet_step cores spawn) p p' \<and> has_taken i x rest p p'"
proof -
  let ?p1 = "(set_pc i At_Check p)\<lparr>sy_pool := (sy_pool p)\<lparr>tp_lock := Mutex_Held i\<rparr>\<rparr>"
  have "routine_lock i p = Ret ?p1" using assms(5) by (simp add: routine_lock_def)
  then have step: "pool_step cores spawn p ?p1" using assms(4) by (intro pool_step.lock [where i = i])
  have inv: "sys_inv ?p1" by (rule step_sys_inv [OF assms(1) step])
  obtain p' where p': "quiet_step cores spawn ?p1 p'" "has_taken i x rest ?p1 p'"
    using take_at_check [OF inv, of x rest i cores spawn] assms(2-4) by auto
  have "steps (quiet_step cores spawn) ?p1 p'" using p'(1) by (rule steps_one)
  then have "steps (quiet_step cores spawn) p p'" by (rule steps_head) (use step in simp)
  moreover have "has_taken i x rest p p'" using p'(2) by (simp add: has_taken_def)
  ultimately show ?thesis by blast
qed

text \<open>A contender comes to the lock by steps of its own.\<close>

definition comes_to_lock :: "int \<Rightarrow> (nat \<Rightarrow> int \<times> nat) \<Rightarrow> nat \<Rightarrow> ('f, 'a) pool_sys \<Rightarrow> bool" where
  "comes_to_lock cores spawn i p \<longleftrightarrow> (\<exists>p'. steps (quiet_step cores spawn) p p' \<and> sy_pcs p' = (sy_pcs p)[i := At_Lock] \<and>
     sy_owner p' = sy_owner p \<and> pool_tasks (sy_pool p') = pool_tasks (sy_pool p) \<and> tp_lock (sy_pool p') = tp_lock (sy_pool p) \<and>
     tp_shutdown (sy_pool p') = tp_shutdown (sy_pool p))"

lemma comes_after:
  assumes "quiet_step cores spawn p q" "comes_to_lock cores spawn i q" "sy_pcs q = (sy_pcs p)[i := pc]" "sy_owner q = sy_owner p"
    "pool_tasks (sy_pool q) = pool_tasks (sy_pool p)" "tp_lock (sy_pool q) = tp_lock (sy_pool p)"
    "tp_shutdown (sy_pool q) = tp_shutdown (sy_pool p)"
  shows "comes_to_lock cores spawn i p"
proof -
  obtain p' where p': "steps (quiet_step cores spawn) q p'" "sy_pcs p' = (sy_pcs q)[i := At_Lock]" "sy_owner p' = sy_owner q"
    "pool_tasks (sy_pool p') = pool_tasks (sy_pool q)" "tp_lock (sy_pool p') = tp_lock (sy_pool q)"
    "tp_shutdown (sy_pool p') = tp_shutdown (sy_pool q)"
    using assms(2) unfolding comes_to_lock_def by blast
  have "steps (quiet_step cores spawn) p p'" by (rule steps_head [OF p'(1) assms(1)])
  then show ?thesis using p'(2-) assms(3-) unfolding comes_to_lock_def by (intro exI [of _ p']) simp
qed

lemma comes_At_Lock: "at_pc p i At_Lock \<Longrightarrow> comes_to_lock cores spawn i p"
  unfolding comes_to_lock_def by (intro exI [of _ p]) (metis list_update_id steps_refl)

lemma comes_Named: "at_pc p i Named \<Longrightarrow> comes_to_lock cores spawn i p"
  by (rule comes_after [where q = "routine_bind i p" and pc = At_Lock])
     (auto simp: pool_step.bind, auto simp: routine_bind_def intro: comes_At_Lock)

lemma comes_Counted: "at_pc p i Counted \<Longrightarrow> comes_to_lock cores spawn i p"
  by (rule comes_after [where q = "routine_name i p" and pc = Named])
     (auto simp: pool_step.name, auto simp: routine_name_def intro: comes_Named)

lemma comes_Spawned: "at_pc p i Spawned \<Longrightarrow> comes_to_lock cores spawn i p"
  by (rule comes_after [where q = "routine_count i p" and pc = Counted])
     (auto simp: pool_step.count, auto simp: routine_count_def intro: comes_Counted)

lemma contender_comes:
  "i < length (sy_pcs p) \<Longrightarrow> contender (sy_pcs p ! i) \<Longrightarrow> sy_pcs p ! i \<noteq> At_Check \<Longrightarrow> comes_to_lock cores spawn i p"
  by (cases "sy_pcs p ! i") (auto intro: comes_At_Lock comes_Named comes_Counted comes_Spawned)

lemma steps_sys_inv: "steps (quiet_step cores spawn) p p' \<Longrightarrow> sys_inv p \<Longrightarrow> sys_inv p'"
  by (induction rule: steps.induct) (auto intro: step_sys_inv)

lemma contender_takes:
  assumes "sys_inv p" "\<not> tp_shutdown (sy_pool p)" "pool_tasks (sy_pool p) = x # rest" "i < length (sy_pcs p)" "contender (sy_pcs p ! i)"
  shows "\<exists>p' j. steps (quiet_step cores spawn) p p' \<and> j < length (sy_pcs p) \<and> contender (sy_pcs p ! j) \<and> has_taken j x rest p p'"
proof (cases "tp_lock (sy_pool p)")
  case (Mutex_Held j)
  then have j: "at_pc p j At_Check" using assms(1) by (simp add: sys_inv_def lock_inv_def)
  obtain p' where p': "quiet_step cores spawn p p'" "has_taken j x rest p p'"
    using take_at_check [OF assms(1-3) j] by blast
  have "steps (quiet_step cores spawn) p p'" using p'(1) by (rule steps_one)
  then show ?thesis using p'(2) j by (intro exI [of _ p'] exI [of _ j]) simp
next
  case Mutex_Free
  then have "sy_pcs p ! i \<noteq> At_Check" using assms(1,4) by (auto simp: sys_inv_def lock_inv_def)
  from contender_comes [OF assms(4,5) this, of cores spawn]
  obtain q where q: "steps (quiet_step cores spawn) p q" "sy_pcs q = (sy_pcs p)[i := At_Lock]" "sy_owner q = sy_owner p"
    "pool_tasks (sy_pool q) = x # rest" "tp_lock (sy_pool q) = Mutex_Free" "\<not> tp_shutdown (sy_pool q)"
    using assms(2,3) Mutex_Free unfolding comes_to_lock_def by auto
  obtain p' where "steps (quiet_step cores spawn) q p'" "has_taken i x rest q p'"
    using take_at_lock [OF steps_sys_inv [OF q(1) assms(1)] q(6,4) _ q(5), of i cores spawn] q(2) assms(4) by auto
  then show ?thesis using steps_trans [OF q(1)] q(2,3) assms(4,5)
    by (intro exI [of _ p'] exI [of _ i]) (simp add: has_taken_def)
next
  case Mutex_Destroyed
  then show ?thesis using assms(1) by (simp add: sys_inv_def lock_inv_def)
qed

section \<open>The whole server\<close>

text \<open>A pool that has been created has a thread, if the first can be created.\<close>

lemma prepared_threads:
  assumes "1 \<le> cores" "cores \<le> MAX_THREADS"
  shows "tp_threads (create_prepare cores tc qs thread_pool_ctor) \<noteq> []"
proof -
  have "1 \<le> coerce_in tc cores MAX_THREADS" using coerce_in_bounds [OF assms(2), of tc] assms(1) by linarith
  then show ?thesis by (simp add: create_prepare_def Let_def thread_pool_ctor_def vec_resize_def)
qed

lemma pool_has_threads:
  assumes "pool_reach cores spawn p" "fst (spawn 0) = 0"
  shows "tp_threads (sy_pool p) \<noteq> [] \<and> (sy_owner p \<noteq> Creating \<longrightarrow> sy_pcs p \<noteq> [])"
  using assms(1)
proof (rule pool.reach_keep)
  show "tp_threads (sy_pool p) \<noteq> [] \<and> (sy_owner p \<noteq> Creating \<longrightarrow> sy_pcs p \<noteq> [])" if "pool_init cores p" for p :: "('a, 'b) pool_sys"
    using that by (auto simp: prepared_threads pool_init_def sys_of_def)
  show "tp_threads (sy_pool p') \<noteq> [] \<and> (sy_owner p' \<noteq> Creating \<longrightarrow> sy_pcs p' \<noteq> [])"
    if "sys_inv p" "pool_step cores spawn p p'" "tp_threads (sy_pool p) \<noteq> [] \<and> (sy_owner p \<noteq> Creating \<longrightarrow> sy_pcs p \<noteq> [])"
    for p p' :: "('a, 'b) pool_sys"
  proof -
    have "lock_inv p" "pool_inv (sy_pool p)" using that(1) by (simp_all add: sys_inv_def shape_inv_def)
    with that(2) show ?thesis
    proof (cases rule: pool_step_explicit)
      case (failed cpu)
      then show ?thesis using that(3) assms(2) by (cases "sy_pcs p") simp_all
    qed (use that(3) in \<open>auto simp: routine_count_def routine_name_def routine_bind_def\<close>)
  qed
qed

definition serving :: "int \<Rightarrow> (nat \<Rightarrow> int \<times> nat) \<Rightarrow> nat \<Rightarrow> full_sys \<Rightarrow> bool" where
  "serving cores spawn n s \<longleftrightarrow> full_inv cores spawn n s \<and> sy_owner (fs_pool s) = Serving \<and> wk_stored (fs_wk s) \<and>
     fst (spawn 0) = 0"

lemma serving_pool:
  assumes "serving cores spawn n s"
  shows "sys_inv (fs_pool s)" "\<not> tp_shutdown (sy_pool (fs_pool s))" "sy_pcs (fs_pool s) \<noteq> []" "Exited \<notin> set (sy_pcs (fs_pool s))"
proof -
  have r: "pool_reach cores spawn (fs_pool s)" "sy_owner (fs_pool s) = Serving" "fst (spawn 0) = 0" using assms by (simp_all add: serving_def full_inv_def)
  show inv: "sys_inv (fs_pool s)" by (rule pool.reach_inv [OF r(1)])
  then show "\<not> tp_shutdown (sy_pool (fs_pool s))" "Exited \<notin> set (sy_pcs (fs_pool s))" using r(2) by (auto simp: sys_inv_def owner_inv_def)
  show "sy_pcs (fs_pool s) \<noteq> []" using pool_has_threads [OF r(1,3)] r(2) by simp
qed

text \<open>A run in which nothing arrives, no worker faults and the workers are not cornered by the division.\<close>

definition same_arrivals :: "full_sys \<Rightarrow> full_sys \<Rightarrow> bool" where
  "same_arrivals s s' \<longleftrightarrow> accepted_fds (fs_trace s') = accepted_fds (fs_trace s) \<and> fs_lost s' = fs_lost s \<and>
     sy_owner (fs_pool s') = sy_owner (fs_pool s) \<and> wk_stored (fs_wk s') = wk_stored (fs_wk s) \<and>
     (wk_alive (fs_wk s) \<longrightarrow> wk_alive (fs_wk s')) \<and> (uncornered (fs_wk s) \<longrightarrow> uncornered (fs_wk s'))"

text \<open>A worker that finishes the locked block is not committed to the division.\<close>

lemma adopt_stays_safe:
  assumes "worker_move i w = Some w'" "i < length (wk_pcs w)" "wk_pcs w ! i = Wk_Adopt"
  shows "wk_alive w \<longrightarrow> wk_alive w'" "uncornered w \<longrightarrow> uncornered w'"
proof -
  have "wk_pcs w' = (wk_pcs w)[i := Wk_Dec]"
    using assms(1,3) by (auto simp: worker_move_def worker_adopt_def Let_def bind_outcome_eq_Ret split: outcome.splits list.splits)
  then show "wk_alive w \<longrightarrow> wk_alive w'" "uncornered w \<longrightarrow> uncornered w'"
    using alive_update [of w w' i Wk_Dec] uncornered_update [of w i w' Wk_Dec] worker_move_keeps(3) [OF assms(1)] assms(2) by auto
qed

lemma same_arrivals_refl [simp]: "same_arrivals s s"
  by (simp add: same_arrivals_def)

lemma same_arrivals_trans: "same_arrivals s s' \<Longrightarrow> same_arrivals s' s'' \<Longrightarrow> same_arrivals s s''"
  by (simp add: same_arrivals_def)

lemma serving_steps:
  assumes "serving cores spawn n s" "steps (full_step os inet_ntoa cores spawn) s s'" "same_arrivals s s'"
  shows "serving cores spawn n s'"
  using assms full.steps_inv [OF assms(2)] by (simp add: serving_def same_arrivals_def)

lemma lift_thread:
  assumes "steps (quiet_step cores spawn) p p'" "wk_stored (fs_wk s)" "fs_pool s = p"
  shows "steps (full_step os inet_ntoa cores spawn) s (s\<lparr>fs_pool := p'\<rparr>)"
  using assms
proof (induction rule: steps.induct)
  case (steps_refl p)
  then show ?case by (metis (full_types) full_sys.surjective full_sys.update_convs(3) steps.steps_refl)
next
  case (steps_more p q r)
  then have "full_step os inet_ntoa cores spawn (s\<lparr>fs_pool := q\<rparr>) ((s\<lparr>fs_pool := q\<rparr>)\<lparr>fs_pool := r\<rparr>)"
    by (intro full_step.thread) simp_all
  then show ?case using steps_more.IH [OF steps_more.prems] steps.steps_more by fastforce
qed

lemma ring_head_taken:
  assumes "serving cores spawn n s" "pool_tasks (sy_pool (fs_pool s)) = x # rest" "held_tasks (sy_pcs (fs_pool s)) = {#}"
  shows "\<exists>s'. steps (full_step os inet_ntoa cores spawn) s s' \<and> same_arrivals s s' \<and>
    pool_tasks (sy_pool (fs_pool s')) = rest \<and> held_tasks (sy_pcs (fs_pool s')) = {#x#}"
proof -
  let ?p = "fs_pool s"
  note inv = serving_pool [OF assms(1)]
  have "int (length (pool_tasks (sy_pool ?p))) = tp_work_count (sy_pool ?p)"
    using inv(1) by (simp add: length_pool_tasks pool_inv_def sys_inv_def shape_inv_def)
  then have n: "1 \<le> tp_work_count (sy_pool ?p)" using assms(2) by simp
  have "\<exists>pc \<in> set (sy_pcs ?p). contender pc"
  proof (cases "Waiting \<in> set (sy_pcs ?p)")
    case True
    then have "0 < count_if contender (sy_pcs ?p)" using inv(1) n by (simp add: sys_inv_def sleep_inv_def)
    then show ?thesis using count_if_zero [of contender "sy_pcs ?p"] by auto
  next
    case False
    obtain pc where pc: "pc \<in> set (sy_pcs ?p)" using inv(3) by (cases "sy_pcs ?p") auto
    then have "\<nexists>t. pc = Has_Task t" using held_task_mem assms(3) by (metis empty_not_add_mset in_set_conv_nth insert_DiffM)
    then have "contender pc" using pc False inv(4) by (cases pc) auto
    then show ?thesis using pc by blast
  qed
  then obtain i where "i < length (sy_pcs ?p)" "contender (sy_pcs ?p ! i)" by (auto simp: in_set_conv_nth)
  from contender_takes [OF inv(1,2) assms(2) this, of cores spawn]
  obtain p' j where p': "steps (quiet_step cores spawn) ?p p'" "j < length (sy_pcs ?p)" "contender (sy_pcs ?p ! j)" "has_taken j x rest ?p p'"
    by blast
  have "held_tasks (sy_pcs p') = {#x#}"
    using held_tasks_update [OF p'(2), of "Has_Task x"] p'(3,4) assms(3) by (cases "sy_pcs ?p ! j") (simp_all add: has_taken_def)
  moreover have "steps (full_step os inet_ntoa cores spawn) s (s\<lparr>fs_pool := p'\<rparr>)"
    by (rule lift_thread [OF p'(1)]) (use assms(1) in \<open>simp_all add: serving_def\<close>)
  ultimately show ?thesis using p'(4)
    by (intro exI [of _ "s\<lparr>fs_pool := p'\<rparr>"]) (simp add: same_arrivals_def has_taken_def)
qed

text \<open>The holder of the queue's lock can always finish its block.\<close>

lemma full_inv_workers: "full_inv cores spawn n s \<Longrightarrow> wk_inv (int n) (fs_wk s)"
  using workers.reach_inv by (auto simp: full_inv_def)

lemma adopt_returns: "\<exists>r tr'. tcp_worker_adopt os q w tr = (Ret r, tr')"
  by (cases q) (auto simp: tcp_worker_adopt_def bind_io_def ret_def add_event_result Let_def)

lemma holder_adopts:
  assumes "full_inv cores spawn n s" "i < length (wk_pcs (fs_wk s))" "wk_pcs (fs_wk s) ! i = Wk_Adopt"
  shows "\<exists>s'. full_step os inet_ntoa cores spawn s s' \<and> same_arrivals s s' \<and> fs_pool s' = fs_pool s \<and> fs_greeted s' = fs_greeted s \<and>
    wk_lock (fs_wk s') = Mutex_Free \<and> wk_storage (fs_wk s') = drop 1 (wk_storage (fs_wk s)) \<and>
    (\<forall>j. j \<noteq> i \<longrightarrow> wk_pcs (fs_wk s') ! j = wk_pcs (fs_wk s) ! j) \<and>
    wk_adopted (fs_wk s') = wk_adopted (fs_wk s) @ (case wk_storage (fs_wk s) of [] \<Rightarrow> [] | info # rest \<Rightarrow> [(i, info)])"
proof -
  have "wk_inv (int n) (fs_wk s)" using assms(1) by (rule full_inv_workers)
  then have lock: "wk_lock (fs_wk s) = Mutex_Held i" using assms(2,3) by (simp add: wk_inv_def wk_lock_inv_def)
  then obtain w where w: "worker_move i (fs_wk s) = Some w" "wk_lock w = Mutex_Free" "wk_stored w = wk_stored (fs_wk s)"
    using assms(3) by (cases "wk_storage (fs_wk s)") (auto simp: worker_move_def worker_adopt_def Let_def)
  obtain q x tr where ad: "tcp_worker_adopt os (wk_storage (fs_wk s)) (fs_objs s ! i) (fs_trace s) = (Ret (q, x), tr)"
    using adopt_returns [of os "wk_storage (fs_wk s)" "fs_objs s ! i" "fs_trace s"] by auto
  let ?s' = "s\<lparr>fs_wk := w, fs_objs := (fs_objs s)[i := x], fs_trace := tr\<rparr>"
  have "full_step os inet_ntoa cores spawn s ?s'" by (rule full_step.adopt [OF assms(2,3) w(1) ad])
  moreover have "same_arrivals s ?s'" using adopt_result [OF ad] w(3) adopt_stays_safe [OF w(1) assms(2,3)] by (auto simp: same_arrivals_def)
  ultimately show ?thesis using w worker_storage_keep [OF w(1)] worker_move_frame [OF w(1)] worker_move_keeps(6) [OF w(1)] assms(3) by (intro exI [of _ ?s']) simp
qed

lemma queue_lock_freed:
  assumes "full_inv cores spawn n s"
  shows "\<exists>s'. steps (full_step os inet_ntoa cores spawn) s s' \<and> same_arrivals s s' \<and> fs_pool s' = fs_pool s \<and> fs_greeted s' = fs_greeted s \<and>
    wk_lock (fs_wk s') = Mutex_Free"
proof (cases "wk_lock (fs_wk s)")
  case Mutex_Free
  then show ?thesis by (intro exI [of _ s]) (simp add: steps_refl)
next
  case (Mutex_Held i)
  have "wk_inv (int n) (fs_wk s)" using assms by (rule full_inv_workers)
  then have "i < length (wk_pcs (fs_wk s))" "wk_pcs (fs_wk s) ! i = Wk_Adopt" using Mutex_Held by (auto simp: wk_inv_def wk_lock_inv_def)
  from holder_adopts [OF assms this, of os inet_ntoa]
  obtain s' where s': "full_step os inet_ntoa cores spawn s s'" "same_arrivals s s'" "fs_pool s' = fs_pool s" "fs_greeted s' = fs_greeted s"
    "wk_lock (fs_wk s') = Mutex_Free" by blast
  then show ?thesis using steps_one [of "full_step os inet_ntoa cores spawn", OF s'(1)] by (intro exI [of _ s']) simp
next
  case Mutex_Destroyed
  moreover have "wk_inv (int n) (fs_wk s)" using assms by (rule full_inv_workers)
  ultimately show ?thesis by (simp add: wk_inv_def wk_lock_inv_def)
qed

text \<open>
  A thread with a task can serve it, as long as no client fills the whole receive buffer: then the request that is printed ends
  inside the buffer.
\<close>

definition reads_short :: "os \<Rightarrow> bool" where
  "reads_short os \<longleftrightarrow> (\<forall>t fd. length (out_bytes (snd (os t (Sys_read fd BUFSIZ)))) < BUFSIZ)"

lemma greet_returns:
  assumes "reads_short os"
  shows "\<exists>b' tr'. client_greet os info fresh_bufs tr = (Ret b', tr')"
proof -
  let ?fd = "ev_fd (ci_eplev info)"
  obtain n out where r: "os tr (Sys_read ?fd BUFSIZ) = (n, out)" by fastforce
  show ?thesis
  proof (cases "n \<le> 0")
    case True
    then show ?thesis using greet_quiet [of fresh_bufs os tr info n out, OF fresh_bufs_ok r] by (simp add: Let_def)
  next
    case False
    have "length (out_bytes out) < BUFSIZ" using assms r by (metis reads_short_def snd_conv)
    then have "NUL \<in> set (put_bytes (trd_recv fresh_bufs) (out_bytes out))"
      by (simp add: put_bytes_def fresh_bufs_def)
    then obtain k where "c_strlen (put_bytes (trd_recv fresh_bufs) (out_bytes out)) = Ret k" by (auto simp: c_strlen_def)
    from greet_page [of fresh_bufs os tr info n out, OF fresh_bufs_ok r _ refl this] False show ?thesis by (simp add: Let_def)
  qed
qed

lemma held_task_client:
  assumes "serving cores spawn n s" "at_pc (fs_pool s) i (Has_Task x)"
  shows "\<exists>info. thread_pool_task_run x = Ret (info, task_args x)"
proof -
  have "x \<in># mset (sy_taken (fs_pool s))"
    using serving_pool(1) [OF assms(1)] held_task_mem [OF assms(2)] by (simp add: sys_inv_def task_inv_def)
  then have "x \<in> set (sy_accepted (fs_pool s))" using serving_pool(1) [OF assms(1)] by (simp add: sys_inv_def task_inv_def)
  then have "task_fun x \<noteq> None" using assms(1) by (simp add: serving_def full_inv_def accept_inv_def)
  then show ?thesis by (auto simp: thread_pool_task_run_def)
qed

lemma task_greeted:
  assumes "serving cores spawn n s" "at_pc (fs_pool s) i (Has_Task x)" "reads_short os"
  shows "\<exists>s'. steps (full_step os inet_ntoa cores spawn) s s' \<and> same_arrivals s s' \<and> fs_pool s' = fs_pool s \<and> i \<in> fs_greeted s'"
proof (cases "i \<in> fs_greeted s")
  case True
  then show ?thesis by (intro exI [of _ s]) (simp add: steps_refl)
next
  case False
  obtain info where info: "thread_pool_task_run x = Ret (info, task_args x)" using held_task_client [OF assms(1,2)] by blast
  obtain b' tr where greet: "client_greet os info fresh_bufs (fs_trace s) = (Ret b', tr)" using greet_returns [OF assms(3)] by blast
  let ?s' = "s\<lparr>fs_trace := tr, fs_greeted := insert i (fs_greeted s)\<rparr>"
  have "full_step os inet_ntoa cores spawn s ?s'" by (rule full_step.greet [OF assms(2) False info fresh_bufs_ok greet])
  then have "steps (full_step os inet_ntoa cores spawn) s ?s'" by (rule steps_one)
  moreover have "same_arrivals s ?s'" using only_callsD [OF client_greet_plain greet] plain_calls by (auto simp: same_arrivals_def)
  ultimately show ?thesis by (intro exI [of _ ?s']) simp
qed

lemma task_served:
  assumes "serving cores spawn n s" "at_pc (fs_pool s) i (Has_Task x)" "reads_short os"
  shows "\<exists>s'. steps (full_step os inet_ntoa cores spawn) s s' \<and> same_arrivals s s' \<and> sy_pool (fs_pool s') = sy_pool (fs_pool s) \<and>
    held_tasks (sy_pcs (fs_pool s)) = add_mset x (held_tasks (sy_pcs (fs_pool s')))"
proof -
  let ?step = "full_step os inet_ntoa cores spawn"
  obtain a where a: "steps ?step s a" "same_arrivals s a" "fs_pool a = fs_pool s" "i \<in> fs_greeted a"
    using task_greeted [OF assms] by blast
  have "full_inv cores spawn n a" using serving_steps [OF assms(1) a(1,2)] by (simp add: serving_def)
  from queue_lock_freed [OF this, of os inet_ntoa]
  obtain b where b: "steps ?step a b" "same_arrivals a b" "fs_pool b = fs_pool a" "fs_greeted b = fs_greeted a" "wk_lock (fs_wk b) = Mutex_Free"
    by blast
  obtain info where info: "thread_pool_task_run x = Ret (info, task_args x)" using held_task_client [OF assms(1,2)] by blast
  have pc: "at_pc (fs_pool b) i (Has_Task x)" using assms(2) a(3) b(3) by simp
  let ?w = "push_client info (fs_wk b)" and ?p = "(set_pc i At_Lock (fs_pool b))\<lparr>sy_ran := sy_ran (fs_pool b) @ [x]\<rparr>"
  let ?c = "b\<lparr>fs_wk := ?w, fs_pool := ?p, fs_greeted := fs_greeted b - {i}\<rparr>"
  have "?step b ?c"
    by (rule full_step.push [where task = x and info = info and t = 0])
       (use pc info a(4) b(4,5) in \<open>simp_all add: hand_over_free routine_run_def\<close>)
  from steps_more [OF steps_trans [OF a(1) b(1)] this] have "steps ?step s ?c" .
  moreover have "same_arrivals b ?c" by (simp add: same_arrivals_def push_client_def wk_alive_def uncornered_def)
  then have "same_arrivals s ?c" using a(2) b(2) same_arrivals_trans by blast
  moreover have "held_tasks (sy_pcs (fs_pool s)) = add_mset x (held_tasks ((sy_pcs (fs_pool s))[i := At_Lock]))"
    using held_tasks_lose [of i "sy_pcs (fs_pool s)" x At_Lock] assms(2) by simp
  ultimately show ?thesis using a(3) b(3) by (intro exI [of _ ?c]) simp
qed

text \<open>Serving what is held and taking what waits comes to an end.\<close>

interpretation serve: progressing_system "full_step os inet_ntoa cores spawn"
  "\<lambda>s. serving cores spawn n s \<and> reads_short os \<and> same_arrivals s0 s"
  "\<lambda>s. pool_tasks (sy_pool (fs_pool s)) = [] \<and> held_tasks (sy_pcs (fs_pool s)) = {#}"
  "\<lambda>s. 2 * length (pool_tasks (sy_pool (fs_pool s))) + size (held_tasks (sy_pcs (fs_pool s)))"
  for os inet_ntoa cores spawn n s0
proof
  let ?rank = "\<lambda>s. 2 * length (pool_tasks (sy_pool (fs_pool s))) + size (held_tasks (sy_pcs (fs_pool s)))"
  fix s
  assume live: "serving cores spawn n s \<and> reads_short os \<and> same_arrivals s0 s"
    and more: "\<not> (pool_tasks (sy_pool (fs_pool s)) = [] \<and> held_tasks (sy_pcs (fs_pool s)) = {#})"
  have serving: "serving cores spawn n s" and short: "reads_short os" using live by simp_all
  obtain a where a: "steps (full_step os inet_ntoa cores spawn) s a" "same_arrivals s a" "?rank a < ?rank s"
  proof (cases "held_tasks (sy_pcs (fs_pool s)) = {#}")
    case False
    then obtain x where "Has_Task x \<in> set (sy_pcs (fs_pool s))" using held_tasks_none [of "sy_pcs (fs_pool s)"] by blast
    then obtain i where "at_pc (fs_pool s) i (Has_Task x)" unfolding in_set_conv_nth by blast
    from task_served [OF serving this short, of inet_ntoa] that show ?thesis by fastforce
  next
    case held: True
    then obtain x rest where "pool_tasks (sy_pool (fs_pool s)) = x # rest" using more by (cases "pool_tasks (sy_pool (fs_pool s))") auto
    from ring_head_taken [OF serving this held, of os inet_ntoa] that this held show ?thesis by fastforce
  qed
  then show "\<exists>s'. steps (full_step os inet_ntoa cores spawn) s s' \<and>
      (serving cores spawn n s' \<and> reads_short os \<and> same_arrivals s0 s') \<and> ?rank s' < ?rank s"
    using serving_steps [OF serving a(1,2)] same_arrivals_trans [OF _ a(2), of s0] live by blast
qed

lemma all_served:
  assumes "serving cores spawn n s" "reads_short os"
  shows "\<exists>s'. steps (full_step os inet_ntoa cores spawn) s s' \<and> same_arrivals s s' \<and>
    pool_tasks (sy_pool (fs_pool s')) = [] \<and> held_tasks (sy_pcs (fs_pool s')) = {#}"
  using serve.goal_reachable [of cores spawn n s os s inet_ntoa] assms by auto




text \<open>A worker that has not begun its section with the counter can get to the queue.\<close>

fun near_queue :: "wpc \<Rightarrow> bool" where
  "near_queue Wk_Inc = True"
| "near_queue Wk_Test = True"
| "near_queue Wk_Lock = True"
| "near_queue pc = False"

lemma worker_goes:
  assumes "full_inv cores spawn n s" "i < length (wk_pcs (fs_wk s))" "wk_pcs (fs_wk s) ! i = pc" "pc \<noteq> Wk_Adopt" "\<forall>wt. pc \<noteq> Wk_Poll wt"
    "worker_move i (fs_wk s) = Some w"
  shows "steps (full_step os inet_ntoa cores spawn) s (s\<lparr>fs_wk := w\<rparr>)" "full_inv cores spawn n (s\<lparr>fs_wk := w\<rparr>)"
  using full_step.worker [OF assms(2) _ _ assms(6)] assms(3-5) full_worker_inv [OF assms(1,2) _ assms(6)]
  by (auto intro: steps_more steps_refl)

lemma locking_adopts:
  assumes "full_inv cores spawn n s" "i < length (wk_pcs (fs_wk s))" "wk_pcs (fs_wk s) ! i = Wk_Lock"
    "wk_lock (fs_wk s) = Mutex_Free" "wk_storage (fs_wk s) = info # rest"
  shows "\<exists>s'. steps (full_step os inet_ntoa cores spawn) s s' \<and> wk_storage (fs_wk s') = rest \<and>
    wk_adopted (fs_wk s') = wk_adopted (fs_wk s) @ [(i, info)]"
proof -
  let ?w = "(wk_goto i Wk_Adopt (fs_wk s))\<lparr>wk_lock := Mutex_Held i\<rparr>"
  let ?a = "s\<lparr>fs_wk := ?w\<rparr>"
  have "worker_move i (fs_wk s) = Some ?w" using assms(3,4) by (simp add: worker_move_def worker_lock_queue_def)
  note a = worker_goes [OF assms(1-3) _ _ this]
  have inv: "full_inv cores spawn n ?a" and run: "steps (full_step os inet_ntoa cores spawn) s ?a" using a by simp_all
  obtain s' where s': "full_step os inet_ntoa cores spawn ?a s'" "wk_storage (fs_wk s') = rest"
    "wk_adopted (fs_wk s') = wk_adopted (fs_wk s) @ [(i, info)]"
    using holder_adopts [OF inv, of i os inet_ntoa] assms(2,5) by auto
  then show ?thesis using steps_more [OF run s'(1)] by blast
qed

lemma testing_adopts:
  assumes "full_inv cores spawn n s" "i < length (wk_pcs (fs_wk s))" "wk_pcs (fs_wk s) ! i = Wk_Test"
    "wk_lock (fs_wk s) = Mutex_Free" "wk_storage (fs_wk s) = info # rest"
  shows "\<exists>s'. steps (full_step os inet_ntoa cores spawn) s s' \<and> wk_storage (fs_wk s') = rest \<and>
    wk_adopted (fs_wk s') = wk_adopted (fs_wk s) @ [(i, info)]"
proof -
  let ?w = "wk_goto i Wk_Lock (fs_wk s)"
  let ?a = "s\<lparr>fs_wk := ?w\<rparr>"
  have "worker_move i (fs_wk s) = Some ?w" using assms(3,5) by (simp add: worker_move_def worker_test_def)
  note a = worker_goes [OF assms(1-3) _ _ this]
  have inv: "full_inv cores spawn n ?a" and run: "steps (full_step os inet_ntoa cores spawn) s ?a" using a by simp_all
  from locking_adopts [OF inv, of i info rest os inet_ntoa] assms(2,4,5) steps_trans [OF run] show ?thesis by fastforce
qed

lemma near_queue_adopts:
  assumes "full_inv cores spawn n s" "i < length (wk_pcs (fs_wk s))" "near_queue (wk_pcs (fs_wk s) ! i)"
    "wk_lock (fs_wk s) = Mutex_Free" "wk_storage (fs_wk s) = info # rest"
  shows "\<exists>s'. steps (full_step os inet_ntoa cores spawn) s s' \<and> wk_storage (fs_wk s') = rest \<and>
    wk_adopted (fs_wk s') = wk_adopted (fs_wk s) @ [(i, info)]"
proof (cases "wk_pcs (fs_wk s) ! i")
  case Wk_Inc
  let ?w = "(wk_goto i Wk_Test (fs_wk s))\<lparr>wk_avail := wk_avail (fs_wk s) + 1\<rparr>"
  let ?a = "s\<lparr>fs_wk := ?w\<rparr>"
  have "worker_move i (fs_wk s) = Some ?w" using Wk_Inc by (simp add: worker_move_def worker_inc_def)
  note a = worker_goes [OF assms(1,2) Wk_Inc _ _ this]
  have inv: "full_inv cores spawn n ?a" and run: "steps (full_step os inet_ntoa cores spawn) s ?a" using a by simp_all
  from testing_adopts [OF inv, of i info rest os inet_ntoa] assms(2,4,5) steps_trans [OF run] show ?thesis by fastforce
qed (use assms testing_adopts locking_adopts in auto)

lemma queue_head_adopted:
  assumes "full_inv cores spawn n s" "wk_storage (fs_wk s) = info # rest"
    "wk_lock (fs_wk s) \<noteq> Mutex_Free \<or> (\<exists>pc \<in> set (wk_pcs (fs_wk s)). near_queue pc)"
  shows "\<exists>s' i. steps (full_step os inet_ntoa cores spawn) s s' \<and> wk_storage (fs_wk s') = rest \<and>
    wk_adopted (fs_wk s') = wk_adopted (fs_wk s) @ [(i, info)]"
proof (cases "wk_lock (fs_wk s)")
  case Mutex_Free
  then obtain i where "i < length (wk_pcs (fs_wk s))" "near_queue (wk_pcs (fs_wk s) ! i)" using assms(3) by (auto simp: in_set_conv_nth)
  from near_queue_adopts [OF assms(1) this Mutex_Free assms(2)] show ?thesis by blast
next
  case (Mutex_Held i)
  have "wk_inv (int n) (fs_wk s)" using assms(1) by (rule full_inv_workers)
  then have "i < length (wk_pcs (fs_wk s))" "wk_pcs (fs_wk s) ! i = Wk_Adopt" using Mutex_Held by (auto simp: wk_inv_def wk_lock_inv_def)
  from holder_adopts [OF assms(1) this, of os inet_ntoa]
  obtain s' where s': "full_step os inet_ntoa cores spawn s s'" "wk_storage (fs_wk s') = rest"
    "wk_adopted (fs_wk s') = wk_adopted (fs_wk s) @ [(i, info)]" using assms(2) by auto
  then show ?thesis using steps_one [of "full_step os inet_ntoa cores spawn", OF s'(1)] by blast
next
  case Mutex_Destroyed
  moreover have "wk_inv (int n) (fs_wk s)" using assms(1) by (rule full_inv_workers)
  ultimately show ?thesis by (simp add: wk_inv_def wk_lock_inv_def)
qed

section \<open>Properties\<close>

text \<open>
  The pool cannot get stuck: from every reachable state in which the pool is in service and \<open>startup\<close> has stored the counter,
  whatever the threads and workers are doing and with nothing else arriving, there is a run after which every connection accepted so far,
  except those the full ring refused, has been greeted and handed to the workers; no worker faults in that run. The hypotheses on the system
  are that the first thread of the pool can be created and that no request fills the receive buffer.
\<close>

theorem accepted_clients_can_be_served:
  assumes "reach (full_init cores n) (full_step os inet_ntoa cores spawn) s" "sy_owner (fs_pool s) = Serving" "wk_stored (fs_wk s)"
    "fst (spawn 0) = 0" "reads_short os"
  shows "\<exists>s'. steps (full_step os inet_ntoa cores spawn) s s' \<and> accepted_fds (fs_trace s') = accepted_fds (fs_trace s) \<and>
    mset (accepted_fds (fs_trace s)) = mset (map client_fd (wk_pushed (fs_wk s'))) + mset (fs_lost s) \<and>
    (wk_alive (fs_wk s) \<longrightarrow> wk_alive (fs_wk s')) \<and> (\<forall>info \<in> set (wk_pushed (fs_wk s')). greeted_in (fs_trace s') (client_fd info))"
proof -
  have serving: "serving cores spawn n s" using full.reach_inv [OF assms(1)] assms(2-4) by (simp add: serving_def)
  obtain s' where s': "steps (full_step os inet_ntoa cores spawn) s s'" "same_arrivals s s'" "pool_tasks (sy_pool (fs_pool s')) = []"
    "held_tasks (sy_pcs (fs_pool s')) = {#}"
    using all_served [OF serving assms(5), of inet_ntoa] by blast
  have inv: "full_inv cores spawn n s'" using serving_steps [OF serving s'(1,2)] by (simp add: serving_def)
  then have "wk_inv (int n) (fs_wk s')" by (rule full_inv_workers)
  then have "map client_fd (wk_pushed (fs_wk s')) = fl_adopted (flow_of s') @ fl_queue (flow_of s')"
    by (simp add: wk_inv_def wk_queue_inv_def flow_of_def comp_def)
  then show ?thesis using full_places [OF inv] s' inv
    by (intro exI [of _ s']) (simp add: flow_of_def same_arrivals_def full_inv_def greet_inv_def)
qed

theorem accepted_clients_can_be_served_witness:
  "\<exists>s s'. demo_reach s \<and> length (pool_tasks (sy_pool (fs_pool s))) = 1 \<and> wk_pushed (fs_wk s) = [] \<and>
     steps (full_step (server_os []) (\<lambda>a. []) 1 (\<lambda>i. (0, 70 + i))) s s' \<and> map client_fd (wk_pushed (fs_wk s')) = [100]"
proof -
  obtain s x info where s: "demo_reach s" "accepted_fds (fs_trace s) = [100]" "fs_lost s = []" "fs_wk s = wk_ready"
    "fs_pool s = pool_ready\<lparr>sy_pool := pool_put x (sy_pool pool_ready), sy_accepted := [x]\<rparr>"
    using demo_accepted by blast
  have "sy_owner (fs_pool s) = Serving" "wk_stored (fs_wk s)" by (simp_all add: s(4,5) pool_ready_def wk_ready_def)
  moreover have "reads_short (server_os [])" by (simp add: reads_short_def server_os_def epoll_kernel_def BUFSIZ_def)
  ultimately obtain s' where "steps (full_step (server_os []) (\<lambda>a. []) 1 (\<lambda>i. (0, 70 + i))) s s'"
    "{#100#} = mset (map client_fd (wk_pushed (fs_wk s')))"
    using accepted_clients_can_be_served [OF s(1)] s(2,3) by fastforce
  moreover have "length (pool_tasks (sy_pool (fs_pool s))) = 1" "wk_pushed (fs_wk s) = []"
    using pool_put_tasks [OF pool_ready_facts(1), of x] pool_ready_facts by (simp_all add: s(4,5) pool_room_def wk_ready_def wk_start_def)
  ultimately show ?thesis using s(1) by (metis mset_single_iff_right)
qed

text \<open>
  A queued client can reach a worker: from every reachable state with a client in the queue, if some worker is between its increment of
  the counter and the lock, or is in the locked block, there is a run in which the client at the front is adopted and entered in the table of
  the worker that adopts it. (A worker on its way to a poll may die of the division instead.)
\<close>

theorem queued_client_can_be_adopted:
  assumes "reach (full_init cores n) (full_step os inet_ntoa cores spawn) s" "wk_storage (fs_wk s) = info # rest"
    "wk_lock (fs_wk s) \<noteq> Mutex_Free \<or> (\<exists>pc \<in> set (wk_pcs (fs_wk s)). near_queue pc)"
  shows "\<exists>s' i. steps (full_step os inet_ntoa cores spawn) s s' \<and> wk_storage (fs_wk s') = rest \<and>
    wk_adopted (fs_wk s') = wk_adopted (fs_wk s) @ [(i, info)] \<and> tw_clients (fs_objs s' ! i) (client_fd info) \<noteq> None"
proof -
  have inv: "full_inv cores spawn n s" using full.reach_inv [OF assms(1)] .
  obtain s' i where s': "steps (full_step os inet_ntoa cores spawn) s s'" "wk_storage (fs_wk s') = rest"
    "wk_adopted (fs_wk s') = wk_adopted (fs_wk s) @ [(i, info)]"
    using queue_head_adopted [OF inv assms(2,3)] by blast
  have "table_inv s'" using full.steps_inv [OF s'(1) inv] by (simp add: full_inv_def)
  then show ?thesis using s' by (intro exI [of _ s'] exI [of _ i]) (simp add: table_inv_def)
qed

theorem queued_client_can_be_adopted_witness:
  "\<exists>s s' i info. demo_reach s \<and> wk_storage (fs_wk s) = [info] \<and> client_fd info = 100 \<and>
     steps (full_step (server_os []) (\<lambda>a. []) 1 (\<lambda>i. (0, 70 + i))) s s' \<and> wk_adopted (fs_wk s') = [(i, info)]"
proof -
  obtain s info where s: "demo_reach s" "client_fd info = 100" "fs_wk s = push_client info wk_ready"
    using demo_handed_over by blast
  have "wk_storage (fs_wk s) = [info]" "wk_adopted (fs_wk s) = []" "near_queue Wk_Test" "Wk_Test \<in> set (wk_pcs (fs_wk s))"
    by (simp_all add: s(3) push_client_def wk_ready_def wk_start_def)
  with queued_client_can_be_adopted [OF s(1)] s(1,2) show ?thesis by fastforce
qed



end
