(* ===== verification/Pool_Convergence.thy ===== *)
theory Pool_Convergence
  imports Thread_Pool_Threads
begin

text \<open>
  What the thread pool must do, not only what it can do. Left to itself, with no new task, no shutdown and no spurious wake-up, a pool in
  service runs every accepted task whichever thread moves next; and a pool that is shut down is deleted whatever happens.
\<close>

section \<open>A pool left to itself\<close>

definition pool_works :: "int \<Rightarrow> (nat \<Rightarrow> int \<times> nat) \<Rightarrow> ('f, 'a) pool_sys \<Rightarrow> ('f, 'a) pool_sys \<Rightarrow> bool" where
  "pool_works cores spawn s s' \<longleftrightarrow> pool_step cores spawn s s' \<and> s' \<noteq> s \<and> sy_accepted s' = sy_accepted s \<and>
     tp_shutdown (sy_pool s') = tp_shutdown (sy_pool s) \<and> (\<forall>i. at_pc s i Waiting \<longrightarrow> at_pc s' i Waiting)"

definition pool_live :: "('f, 'a) pool_sys \<Rightarrow> bool" where
  "pool_live s \<longleftrightarrow> sys_inv s \<and> sy_owner s = Serving \<and> sy_pcs s \<noteq> [] \<and> (\<forall>t \<in> set (sy_accepted s). task_fun t \<noteq> None)"

definition pool_idle :: "('f, 'a) pool_sys \<Rightarrow> bool" where
  "pool_idle s \<longleftrightarrow> pool_tasks (sy_pool s) = [] \<and> held_tasks (sy_pcs s) = {#}"

fun work_left :: "('f, 'a) tpc \<Rightarrow> nat" where
  "work_left Spawned = 6"
| "work_left Counted = 5"
| "work_left Named = 4"
| "work_left (Has_Task t) = 3"
| "work_left At_Lock = 2"
| "work_left At_Check = 1"
| "work_left Waiting = 0"
| "work_left Exited = 0"

definition pool_work :: "('f, 'a) pool_sys \<Rightarrow> nat" where
  "pool_work s = 3 * length (pool_tasks (sy_pool s)) + sum_list (map work_left (sy_pcs s))"

lemma pool_live_serving: "pool_live s \<Longrightarrow> \<not> tp_shutdown (sy_pool s) \<and> Exited \<notin> set (sy_pcs s)"
  by (auto simp: pool_live_def sys_inv_def owner_inv_def)

text \<open>Every step of such a pool moves one thread on, and never back.\<close>

lemma pool_works_rank:
  assumes "pool_live s" "pool_works cores spawn s s'"
  shows "pool_work s' < pool_work s \<and> sy_owner s' = Serving \<and> length (sy_pcs s') = length (sy_pcs s)"
proof -
  have inv: "lock_inv s" "pool_inv (sy_pool s)" using assms(1) by (simp_all add: pool_live_def sys_inv_def shape_inv_def)
  have owner: "sy_owner s = Serving" using assms(1) by (simp add: pool_live_def)
  have step: "pool_step cores spawn s s'" and quiet: "s' \<noteq> s" "sy_accepted s' = sy_accepted s"
    "tp_shutdown (sy_pool s') = tp_shutdown (sy_pool s)" "\<forall>i. at_pc s i Waiting \<longrightarrow> at_pc s' i Waiting"
    using assms(2) by (simp_all add: pool_works_def)
  have move: "work_left pc < work_left (sy_pcs s ! i) \<Longrightarrow> sum_list (map work_left ((sy_pcs s)[i := pc])) < sum_list (map work_left (sy_pcs s))"
    if "i < length (sy_pcs s)" for i pc using sum_update [OF that, of work_left pc] by linarith
  show ?thesis using step inv
  proof (cases rule: pool_step_explicit)
    case (count i)
    then show ?thesis using owner move [of i Counted] by (simp add: pool_work_def routine_count_def)
  next
    case (name i)
    then show ?thesis using owner move [of i Named] by (simp add: pool_work_def routine_name_def)
  next
    case (bind i)
    then show ?thesis using owner move [of i At_Lock] by (simp add: pool_work_def routine_bind_def)
  next
    case (lock i)
    then show ?thesis using owner move [of i At_Check] by (simp add: pool_work_def)
  next
    case (wait i)
    then show ?thesis using owner move [of i Waiting] by (simp add: pool_work_def)
  next
    case (take i task)
    then show ?thesis using owner sum_update [of i "sy_pcs s" work_left "Has_Task task"] by (simp add: pool_work_def)
  next
    case (run i task)
    then show ?thesis using owner move [of i At_Lock] by (simp add: pool_work_def)
  next
    case (wakeup i)
    then have "at_pc s' i Waiting" using quiet(4) by blast
    then show ?thesis using wakeup by simp
  next
    case (exit i)
    then show ?thesis using pool_live_serving [OF assms(1)] by simp
  next
    case (submit_signal i x)
    from arg_cong [OF submit_signal(5), of "\<lambda>s. length (sy_accepted s)"] quiet(2) show ?thesis by simp
  next
    case (submit_nobody x)
    from arg_cong [OF submit_nobody(5), of "\<lambda>s. length (sy_accepted s)"] quiet(2) show ?thesis by simp
  next
    case submit_refused
    with quiet(1) show ?thesis by blast
  next
    case (shutdown mode)
    from arg_cong [OF shutdown(4), of "\<lambda>s. tp_shutdown (sy_pool s)"] quiet(3) shutdown(3) show ?thesis by simp
  qed (use owner in simp_all)
qed

text \<open>It moves one thread.\<close>

lemma pool_works_one:
  assumes "pool_live s" "pool_works cores spawn s s'"
  shows "\<exists>i pc. i < length (sy_pcs s) \<and> sy_pcs s' = (sy_pcs s)[i := pc]"
proof -
  have inv: "lock_inv s" "pool_inv (sy_pool s)" using assms(1) by (simp_all add: pool_live_def sys_inv_def shape_inv_def)
  obtain j where j: "j < length (sy_pcs s)" using assms(1) by (cases "sy_pcs s") (auto simp: pool_live_def)
  then have same: ?thesis if "sy_pcs s' = sy_pcs s" using that by (intro exI [of _ j] exI [of _ "sy_pcs s ! j"]) simp
  have down: "tp_shutdown (sy_pool s') = tp_shutdown (sy_pool s)" using assms(2) by (simp add: pool_works_def)
  have "pool_step cores spawn s s'" using assms(2) by (simp add: pool_works_def)
  then show ?thesis using inv
  proof (cases rule: pool_step_explicit)
    case (shutdown mode)
    from arg_cong [OF shutdown(4), of "\<lambda>s. tp_shutdown (sy_pool s)"] down shutdown(3) show ?thesis by simp
  qed (use same assms(1) in \<open>auto simp: routine_count_def routine_name_def routine_bind_def pool_live_def\<close>)
qed

lemma pool_works_live:
  assumes "pool_live s" "pool_works cores spawn s s'"
  shows "pool_live s'"
proof -
  have "sys_inv s'" using assms step_sys_inv by (auto simp: pool_live_def pool_works_def)
  moreover have "sy_pcs s' \<noteq> []" using pool_works_rank [OF assms] assms(1) by (auto simp: pool_live_def)
  ultimately show ?thesis using assms pool_works_rank [OF assms] by (simp add: pool_live_def pool_works_def)
qed

text \<open>A step of a thread that is awake is such a step.\<close>

lemma pool_worksI:
  assumes "pool_step cores spawn s s'" "i < length (sy_pcs s)" "sy_pcs s ! i \<noteq> Waiting" "sy_pcs s' = (sy_pcs s)[i := pc]" "pc \<noteq> sy_pcs s ! i"
    "sy_accepted s' = sy_accepted s" "tp_shutdown (sy_pool s') = tp_shutdown (sy_pool s)"
  shows "pool_works cores spawn s s'"
proof -
  have "sy_pcs s' ! i \<noteq> sy_pcs s ! i" using assms(2,4,5) by simp
  then have "s' \<noteq> s" by blast
  moreover have "at_pc s j Waiting \<Longrightarrow> at_pc s' j Waiting" for j using assms(3,4) by (cases "i = j") auto
  ultimately show ?thesis using assms(1,6,7) by (simp add: pool_works_def)
qed

lemma check_works:
  assumes "pool_live s" "at_pc s i At_Check"
  shows "\<exists>s'. pool_works cores spawn s s' \<and> sy_ran s' = sy_ran s"
proof -
  have inv: "lock_inv s" "pool_inv (sy_pool s)" "tp_lock (sy_pool s) = Mutex_Held i"
    using assms by (simp_all add: pool_live_def sys_inv_def shape_inv_def lock_inv_def)
  have "\<exists>s'. routine_locked i s = Ret s'"
    using inv(3) by (cases "tp_work_count (sy_pool s) = 0") (auto simp: routine_locked_def Let_def take_drop_head [OF inv(2)])
  then obtain s' where s': "routine_locked i s = Ret s'" by blast
  have "pool_step cores spawn s s'" using assms(2) s' by (rule pool_step.locked)
  moreover have "\<exists>pc. sy_pcs s' = (sy_pcs s)[i := pc] \<and> pc \<noteq> At_Check \<and> sy_accepted s' = sy_accepted s \<and> sy_ran s' = sy_ran s \<and>
    tp_shutdown (sy_pool s') = tp_shutdown (sy_pool s)"
    using locked_explicit [OF s' inv(1,2) assms(2)] pool_live_serving [OF assms(1)] by (auto split: if_splits)
  then obtain pc where "sy_pcs s' = (sy_pcs s)[i := pc]" "pc \<noteq> At_Check" "sy_accepted s' = sy_accepted s" "sy_ran s' = sy_ran s"
    "tp_shutdown (sy_pool s') = tp_shutdown (sy_pool s)"
    by blast
  ultimately show ?thesis using assms(2) by (intro exI [of _ s'] conjI pool_worksI [where i = i and pc = pc]) simp_all
qed

lemma contender_works:
  assumes "pool_live s" "i < length (sy_pcs s)" "contender (sy_pcs s ! i)"
  shows "\<exists>s'. pool_works cores spawn s s' \<and> sy_ran s' = sy_ran s"
proof (cases "sy_pcs s ! i")
  case Spawned
  then show ?thesis using assms(2)
    by (intro exI [of _ "routine_count i s"] conjI pool_worksI [where i = i and pc = Counted]) (simp_all add: pool_step.count, simp_all add: routine_count_def)
next
  case Counted
  then show ?thesis using assms(2)
    by (intro exI [of _ "routine_name i s"] conjI pool_worksI [where i = i and pc = Named]) (simp_all add: pool_step.name, simp_all add: routine_name_def)
next
  case Named
  then show ?thesis using assms(2)
    by (intro exI [of _ "routine_bind i s"] conjI pool_worksI [where i = i and pc = At_Lock]) (simp_all add: pool_step.bind, simp_all add: routine_bind_def)
next
  case At_Lock
  show ?thesis
  proof (cases "tp_lock (sy_pool s)")
    case Mutex_Free
    let ?s' = "(set_pc i At_Check s)\<lparr>sy_pool := (sy_pool s)\<lparr>tp_lock := Mutex_Held i\<rparr>\<rparr>"
    have "routine_lock i s = Ret ?s'" using Mutex_Free by (simp add: routine_lock_def)
    then have "pool_step cores spawn s ?s'" using At_Lock assms(2) by (intro pool_step.lock [where i = i]) simp_all
    then show ?thesis using At_Lock assms(2) by (intro exI [of _ ?s'] conjI pool_worksI [where i = i and pc = At_Check]) simp_all
  next
    case (Mutex_Held j)
    then have "at_pc s j At_Check" using assms(1) by (simp add: pool_live_def sys_inv_def lock_inv_def)
    then show ?thesis by (rule check_works [OF assms(1)])
  next
    case Mutex_Destroyed
    then show ?thesis using assms(1) by (simp add: pool_live_def sys_inv_def lock_inv_def)
  qed
next
  case At_Check
  then show ?thesis using check_works [OF assms(1)] assms(2) by blast
qed (use assms(3) in simp_all)

lemma held_runs:
  assumes "pool_live s" "at_pc s i (Has_Task t)"
  shows "\<exists>s'. routine_run i t s = Ret s' \<and> pool_works cores spawn s s'"
proof -
  have "t \<in># mset (sy_taken s)" using assms(1) held_task_mem [OF assms(2)] by (simp add: pool_live_def sys_inv_def task_inv_def)
  then have "t \<in> set (sy_accepted s)" using assms(1) by (simp add: pool_live_def sys_inv_def task_inv_def)
  then obtain f where "task_fun t = Some f" using assms(1) by (auto simp: pool_live_def)
  then have run: "routine_run i t s = Ret ((set_pc i At_Lock s)\<lparr>sy_ran := sy_ran s @ [t]\<rparr>)" (is "_ = Ret ?s'")
    by (simp add: routine_run_def thread_pool_task_run_def)
  have "pool_step cores spawn s ?s'" by (rule pool_step.run [OF assms(2) run])
  then have "pool_works cores spawn s ?s'" using assms(2) by (intro pool_worksI [where i = i and pc = At_Lock]) simp_all
  then show ?thesis using run by blast
qed

text \<open>While there is work, some thread is awake: no wake-up is lost.\<close>

lemma someone_awake:
  assumes "pool_live s" "pool_tasks (sy_pool s) \<noteq> []" "held_tasks (sy_pcs s) = {#}"
  shows "\<exists>i < length (sy_pcs s). contender (sy_pcs s ! i)"
proof (rule ccontr)
  assume none: "\<not> ?thesis"
  have "int (length (pool_tasks (sy_pool s))) = tp_work_count (sy_pool s)"
    using assms(1) by (simp add: pool_live_def sys_inv_def shape_inv_def length_pool_tasks pool_inv_def)
  then have work: "0 < tp_work_count (sy_pool s)" using assms(2) by (cases "pool_tasks (sy_pool s)") auto
  have zero: "count_if contender (sy_pcs s) = 0" using none by (auto simp: count_if_zero in_set_conv_nth)
  obtain pc where pc: "pc \<in> set (sy_pcs s)" using assms(1) by (cases "sy_pcs s") (auto simp: pool_live_def)
  then obtain i where "at_pc s i pc" unfolding in_set_conv_nth by blast
  moreover from this none have "\<not> contender pc" by blast
  moreover have "pc \<noteq> Exited" using pool_live_serving [OF assms(1)] pc by blast
  moreover have "pc \<noteq> Has_Task t" for t using held_task_mem [of i s t] assms(3) \<open>at_pc s i pc\<close> by auto
  ultimately have "Waiting \<in> set (sy_pcs s)" using pc by (cases pc) auto
  then show False using assms(1) work zero by (simp add: pool_live_def sys_inv_def sleep_inv_def)
qed

lemma pool_works_on:
  assumes "pool_live s" "\<not> pool_idle s"
  shows "\<exists>s'. pool_works cores spawn s s'"
proof (cases "held_tasks (sy_pcs s) = {#}")
  case True
  then have "pool_tasks (sy_pool s) \<noteq> []" using assms(2) by (simp add: pool_idle_def)
  from someone_awake [OF assms(1) this True] contender_works [OF assms(1)] show ?thesis by blast
next
  case False
  then obtain t where "Has_Task t \<in> set (sy_pcs s)" using held_tasks_none [of "sy_pcs s"] by blast
  then obtain i where "at_pc s i (Has_Task t)" unfolding in_set_conv_nth by blast
  then show ?thesis using held_runs [OF assms(1)] by blast
qed

interpretation work: converging_system "pool_works cores spawn" "\<lambda>s. pool_live s \<and> sy_accepted s = acc" pool_idle pool_work
  for cores spawn acc
proof (unfold_locales, goal_cases)
  case (1 s)
  then show ?case using pool_works_on by blast
next
  case (2 s s')
  then show ?case using pool_works_live [of s cores spawn s'] by (simp add: pool_works_def)
next
  case (3 s s')
  then show ?case using pool_works_rank [of s cores spawn s'] by blast
qed

section \<open>A pool that is shut down\<close>




section \<open>Properties\<close>





end
