(* ===== verification/Server_Convergence.thy ===== *)
theory Server_Convergence
  imports Server_Progress Pool_Convergence
begin

text \<open>
  What the interleaved server must do. When nothing else arrives, every schedule of the pool threads, with the workers finishing the block
  that they have locked and taking no new one, hands every accepted connection to the workers. The turns that change neither the pool nor
  the lock of the queue (a wait of the listening loop, a poll of a worker) are left out of a schedule: they can go on for ever in between.
\<close>























end
