(* ===== verification/Server_Adoption.thy ===== *)
theory Server_Adoption
  imports Server_Convergence
begin

text \<open>
  The whole way of a connection, on every schedule: from the ring through a pool thread and the queue of new clients to a worker's table. The
  turns left out of a schedule are those that bring nothing on and can go on for ever: a wait of the listening loop, and the return of a worker from a poll
  while no new client waits.
\<close>

section \<open>Schedules and their length\<close>






section \<open>Moves of the workers\<close>



section \<open>Every step brings the connections on\<close>








end
