(* ===== verification/Sequential_Turns.thy ===== *)
theory Sequential_Turns
  imports Server_Progress
begin

text \<open>
  The functions of the source against the interleaved system: what the start-up, the listening loop, a task and a worker do when they run
  their code with nobody in between, as the sequential definitions \<open>tcp_worker_pool_startup\<close>, \<open>poll_for_connect_turn\<close>, \<open>client_task\<close> and
  \<open>worker_routine_turn\<close> say, is a run of \<open>full_step\<close> with the same results, the same calls to the system and the same end state. So the steps
  of the interleaved system leave nothing of the code out and put nothing in. At the end, what follows from a start that fails.
\<close>

section \<open>The start\<close>

text \<open>The threads that the loop of \<open>create\<close> gets to create: it ends at the first that cannot be.\<close>

primrec created_threads :: "(nat \<Rightarrow> int \<times> nat) \<Rightarrow> nat \<Rightarrow> nat \<Rightarrow> nat" where
  "created_threads spawn i 0 = 0"
| "created_threads spawn i (Suc k) = (if fst (spawn i) = 0 then Suc (created_threads spawn (Suc i) k) else 0)"

lemma created_threads_all: "\<forall>j. fst (spawn j) = 0 \<Longrightarrow> created_threads spawn i k = k"
  by (induction k arbitrary: i) simp_all

text \<open>The loop is one step of the pool per thread, and one more when it fails.\<close>

definition loop_end :: "int \<Rightarrow> nat \<Rightarrow> ('f, 'a) thread_pool \<Rightarrow> ('f, 'a) pool_sys \<Rightarrow> ('f, 'a) pool_sys" where
  "loop_end rc m p' s = s\<lparr>sy_pool := p', sy_pcs := sy_pcs s @ replicate m Spawned, sy_owner := if rc = 0 then Creating else Serving\<rparr>"

lemma create_loop_run:
  assumes "sy_owner s = Creating" "length (sy_pcs s) + k \<le> length (tp_threads (sy_pool s))"
    "thread_pool_create_loop cores spawn (length (sy_pcs s)) k (sy_pool s) = Ret (rc, p')"
  shows "steps (quiet_step cores spawn) s (loop_end rc (created_threads spawn (length (sy_pcs s)) k) p' s) \<and>
    length (tp_threads p') = length (tp_threads (sy_pool s)) \<and> (rc = 0 \<longrightarrow> created_threads spawn (length (sy_pcs s)) k = k)"
  using assms
proof (induction k arbitrary: s)
  case 0
  then have "loop_end rc 0 p' s = s" by (simp add: loop_end_def pool_sys.equality)
  with 0 show ?case by (simp add: steps_refl)
next
  case (Suc k)
  let ?i = "length (sy_pcs s)"
  show ?case
  proof (cases "fst (spawn ?i) = 0")
    case True
    then obtain p1 where one: "thread_pool_create_loop cores spawn ?i 1 (sy_pool s) = Ret (0, p1)"
      and rest: "thread_pool_create_loop cores spawn (Suc ?i) k p1 = Ret (rc, p')"
      using Suc.prems(3) by (auto simp: bind_outcome_eq_Ret Let_def)
    let ?a = "s\<lparr>sy_pool := p1, sy_pcs := sy_pcs s @ [Spawned]\<rparr>"
    have threads: "length (tp_threads p1) = length (tp_threads (sy_pool s))" using create_one [OF one] by auto
    have first: "quiet_step cores spawn s ?a" using pool_step.spawn [OF Suc.prems(1) _ one] Suc.prems(2) by simp
    have others: "steps (quiet_step cores spawn) ?a (loop_end rc (created_threads spawn (length (sy_pcs ?a)) k) p' ?a) \<and>
      length (tp_threads p') = length (tp_threads (sy_pool ?a)) \<and> (rc = 0 \<longrightarrow> created_threads spawn (length (sy_pcs ?a)) k = k)"
      by (rule Suc.IH) (use Suc.prems(1,2) rest threads in simp_all)
    have same: "loop_end rc (created_threads spawn ?i (Suc k)) p' s = loop_end rc (created_threads spawn (length (sy_pcs ?a)) k) p' ?a"
      using True by (simp add: loop_end_def)
    have "steps (quiet_step cores spawn) s (loop_end rc (created_threads spawn ?i (Suc k)) p' s)"
      unfolding same by (rule steps_head [OF conjunct1 [OF others]]) (fact first)
    then show ?thesis using others threads True by simp
  next
    case False
    then have one: "thread_pool_create_loop cores spawn ?i 1 (sy_pool s) = Ret (-1, p')" and rc: "rc = -1"
      using Suc.prems(3) by (auto simp: bind_outcome_eq_Ret Let_def)
    have "quiet_step cores spawn s (s\<lparr>sy_pool := p', sy_owner := Serving\<rparr>)"
      using pool_step.create_fails [OF Suc.prems(1) _ one] Suc.prems(2) by simp
    moreover have "loop_end rc (created_threads spawn ?i (Suc k)) p' s = s\<lparr>sy_pool := p', sy_owner := Serving\<rparr>"
      using False rc by (simp add: loop_end_def)
    moreover have "length (tp_threads p') = length (tp_threads (sy_pool s))" using create_none [OF one] by auto
    ultimately show ?thesis using rc by (simp add: steps_one)
  qed
qed

text \<open>And then the owner goes on, whatever the loop returned.\<close>

lemma create_run:
  assumes "sy_owner s = Creating" "sy_pcs s = []" "length (tp_threads (sy_pool s)) = k"
    "thread_pool_create_loop cores spawn 0 k (sy_pool s) = Ret (rc, p')"
  shows "steps (quiet_step cores spawn) s (s\<lparr>sy_pool := p', sy_pcs := replicate (created_threads spawn 0 k) Spawned, sy_owner := Serving\<rparr>)"
proof -
  have r: "steps (quiet_step cores spawn) s (loop_end rc (created_threads spawn 0 k) p' s)" "length (tp_threads p') = k"
    "rc = 0 \<longrightarrow> created_threads spawn 0 k = k"
    using create_loop_run [of s k cores spawn rc p'] assms by simp_all
  have e: "loop_end (-1) (created_threads spawn 0 k) p' s =
      s\<lparr>sy_pool := p', sy_pcs := replicate (created_threads spawn 0 k) Spawned, sy_owner := Serving\<rparr>"
    using assms(2) by (simp add: loop_end_def)
  show ?thesis
  proof (cases "rc = 0")
    case True
    let ?a = "loop_end rc (created_threads spawn 0 k) p' s"
    have "sy_owner ?a = Creating" "length (sy_pcs ?a) = length (tp_threads (sy_pool ?a))" using True r(2,3) assms(2) by (simp_all add: loop_end_def)
    then have last: "quiet_step cores spawn ?a (?a\<lparr>sy_owner := Serving\<rparr>)" by (simp add: pool_step.created)
    have "?a\<lparr>sy_owner := Serving\<rparr> = loop_end (-1) (created_threads spawn 0 k) p' s" by (simp add: loop_end_def)
    then have "steps (quiet_step cores spawn) s (?a\<lparr>sy_owner := Serving\<rparr>) = ?thesis" using e by simp
    moreover have "steps (quiet_step cores spawn) s (?a\<lparr>sy_owner := Serving\<rparr>)" by (rule steps_more [OF r(1)]) (fact last)
    ultimately show ?thesis by simp
  next
    case False
    then have "loop_end rc (created_threads spawn 0 k) p' s = loop_end (-1) (created_threads spawn 0 k) p' s" by (simp add: loop_end_def)
    then show ?thesis using r(1) unfolding e [symmetric] by simp
  qed
qed

lemma start_workers_run:
  assumes "fs_wk s = wk_start (int n)" "k \<le> n"
  shows "steps (full_step os inet_ntoa cores spawn) s (s\<lparr>fs_wk := (wk_start (int n))\<lparr>wk_pcs := replicate k Wk_Test\<rparr>\<rparr>)"
  using assms(2)
proof (induction k)
  case 0
  have "(wk_start (int n))\<lparr>wk_pcs := replicate 0 Wk_Test\<rparr> = fs_wk s" by (simp add: assms(1) wk_start_def)
  then have "s\<lparr>fs_wk := (wk_start (int n))\<lparr>wk_pcs := replicate 0 Wk_Test\<rparr>\<rparr> = s" by simp
  then show ?case using steps_refl [of _ s] by metis
next
  case (Suc k)
  let ?w = "(wk_start (int n))\<lparr>wk_pcs := replicate k Wk_Test\<rparr>"
  have nxt: "startup_start ?w = (wk_start (int n))\<lparr>wk_pcs := replicate (Suc k) Wk_Test\<rparr>"
    by (simp add: startup_start_def replicate_append_same)
  have "wk_step ?w (startup_start ?w)" using Suc.prems by (intro wk_step.start) (simp_all add: wk_start_def)
  then have "full_step os inet_ntoa cores spawn (s\<lparr>fs_wk := ?w\<rparr>) ((s\<lparr>fs_wk := ?w\<rparr>)\<lparr>fs_wk := startup_start ?w\<rparr>)"
    by (intro full_step.startup) (simp_all add: wk_start_def)
  then have "full_step os inet_ntoa cores spawn (s\<lparr>fs_wk := ?w\<rparr>) (s\<lparr>fs_wk := (wk_start (int n))\<lparr>wk_pcs := replicate (Suc k) Wk_Test\<rparr>\<rparr>)"
    by (simp add: nxt)
  moreover have "steps (full_step os inet_ntoa cores spawn) s (s\<lparr>fs_wk := ?w\<rparr>)" using Suc by simp
  ultimately show ?case by (metis steps_more)
qed

section \<open>The listening loop\<close>

lemma server_event_calls: "only_calls (\<lambda>c. True) (server_on_event os inet_ntoa cores spawn t ev st)"
  by (cases st)
     (auto simp: server_on_event_def Let_def intro!: only_calls_call_out only_calls_call_void only_calls_bind)

lemma signal_choice: "\<exists>k. signal_may k p"
proof (cases "Waiting \<in> set (sy_pcs p)")
  case True
  then obtain k where "at_pc p k Waiting" unfolding in_set_conv_nth by blast
  then show ?thesis by (auto simp: signal_may_def)
qed (auto simp: signal_may_def)

text \<open>What the loop has is where it was put, and the others' state is untouched.\<close>

definition accept_view :: "full_sys \<Rightarrow> accept_state" where
  "accept_view s = (fs_server s, sy_pool (fs_pool s), fs_caddr s)"

definition others_kept :: "full_sys \<Rightarrow> full_sys \<Rightarrow> bool" where
  "others_kept s s' \<longleftrightarrow> fs_wk s' = fs_wk s \<and> fs_objs s' = fs_objs s \<and> fs_greeted s' = fs_greeted s \<and>
     sy_owner (fs_pool s') = sy_owner (fs_pool s)"

lemma accept_event_step:
  assumes "in_service (sy_owner (fs_pool s))" "server_on_event os inet_ntoa cores spawn t ev (accept_view s) (fs_trace s) = (Ret st, tr)"
  shows "\<exists>s'. full_step os inet_ntoa cores spawn s s' \<and> accept_view s' = st \<and> fs_trace s' = tr \<and> others_kept s s'"
proof -
  obtain sv tp ca where st: "st = (sv, tp, ca)" by (cases st)
  obtain cs where tr: "tr = fs_trace s @ cs" using only_callsD [OF server_event_calls assms(2)] by blast
  define nt where "nt = new_tasks (sy_pool (fs_pool s)) tp"
  obtain k where k: "signal_may k (fs_pool s)" using signal_choice by blast
  define p where "p = (if nt = [] then fs_pool s else signalled k (fs_pool s))"
  let ?s' = "s\<lparr>fs_server := sv, fs_caddr := ca, fs_pool := p\<lparr>sy_pool := tp, sy_accepted := sy_accepted p @ nt\<rparr>,
         fs_trace := fs_trace s @ cs, fs_lost := fs_lost s @ (if nt = [] then accepted_fds cs else [])\<rparr>"
  have "full_step os inet_ntoa cores spawn s ?s'"
    by (rule full_step.accept [OF assms(1) _ nt_def k p_def]) (use assms(2) in \<open>simp add: st tr accept_view_def\<close>)
  moreover have "accept_view ?s' = st \<and> fs_trace ?s' = tr \<and> others_kept s ?s'"
    by (simp add: st tr accept_view_def others_kept_def p_def signalled_def)
  ultimately show ?thesis by blast
qed

lemma accept_events_run:
  "in_service (sy_owner (fs_pool s)) \<Longrightarrow>
   each_event (server_on_event os inet_ntoa cores spawn t) evs (accept_view s) (fs_trace s) = (Ret st, tr) \<Longrightarrow>
     \<exists>s'. steps (full_step os inet_ntoa cores spawn) s s' \<and> accept_view s' = st \<and> fs_trace s' = tr \<and> others_kept s s'"
proof (induction evs arbitrary: s)
  case Nil
  then show ?case by (intro exI [of _ s]) (simp add: steps_refl ret_def others_kept_def)
next
  case (Cons ev evs)
  then obtain st1 tr1 where e: "server_on_event os inet_ntoa cores spawn t ev (accept_view s) (fs_trace s) = (Ret st1, tr1)"
    "each_event (server_on_event os inet_ntoa cores spawn t) evs st1 tr1 = (Ret st, tr)"
    by (auto simp: bind_io_eq_Ret simp del: split_paired_Ex)
  obtain a where a: "full_step os inet_ntoa cores spawn s a" "accept_view a = st1" "fs_trace a = tr1" "others_kept s a"
    using accept_event_step [OF Cons.prems(1) e(1)] by blast
  have "in_service (sy_owner (fs_pool a))" using a(4) Cons.prems(1) by (simp add: others_kept_def)
  from Cons.IH [OF this] e(2) a(2,3)
  obtain s' where s': "steps (full_step os inet_ntoa cores spawn) a s'" "accept_view s' = st" "fs_trace s' = tr" "others_kept a s'" by auto
  have "steps (full_step os inet_ntoa cores spawn) s s'" by (rule steps_head [OF s'(1)]) (fact a(1))
  then show ?case using s'(2-4) a(4) by (intro exI [of _ s']) (simp add: others_kept_def)
qed

lemma listen_returns:
  "\<exists>v tr1. epoll_poll_event os (\<lambda>arr n u. ret u) w timeout () t = (Ret (v, ()), tr1) \<and>
     (fst (os t (Sys_epoll_wait (ep_fd w) MAX_EVENTS timeout)) \<noteq> -1 \<longrightarrow>
        tr1 = t @ [(Sys_epoll_wait (ep_fd w) MAX_EVENTS timeout, fst (os t (Sys_epoll_wait (ep_fd w) MAX_EVENTS timeout)))])"
  by (cases "fst (os t (Sys_epoll_wait (ep_fd w) MAX_EVENTS timeout)) = -1")
     (simp_all add: epoll_poll_event_def CHECK_PERROR_def io_simps Let_def)

section \<open>A worker\<close>

definition worker_view :: "tcp_worker_pool \<Rightarrow> client_info wk_sys \<Rightarrow> bool" where
  "worker_view wp w \<longleftrightarrow> wp_worker_num wp = wk_num w \<and> wp_storage wp = wk_storage w \<and> wl_mutex (wp_locker wp) = wk_lock w \<and>
     wp_avail wp = wk_avail w"

definition taken_now :: "nat \<Rightarrow> client_info wk_sys \<Rightarrow> (nat \<times> client_info) list" where
  "taken_now i w = (case wk_storage w of [] \<Rightarrow> [] | info # rest \<Rightarrow> [(i, info)])"

text \<open>Worker \<open>i\<close> is at \<open>pc\<close>, with object \<open>x\<close>; nothing else has changed but the queue, the lock and the counter.\<close>

definition worker_now :: "nat \<Rightarrow> wpc \<Rightarrow> tcp_worker \<Rightarrow> tcp_worker_pool \<Rightarrow> trace \<Rightarrow> full_sys \<Rightarrow> full_sys \<Rightarrow> bool" where
  "worker_now i pc x wp tr s s' \<longleftrightarrow> worker_view wp (fs_wk s') \<and> wk_pcs (fs_wk s') = (wk_pcs (fs_wk s))[i := pc] \<and>
     fs_objs s' = (fs_objs s)[i := x] \<and> fs_trace s' = tr \<and> fs_pool s' = fs_pool s \<and> fs_server s' = fs_server s \<and>
     wk_adopted (fs_wk s') = wk_adopted (fs_wk s) @ taken_now i (fs_wk s)"

lemma worker_step_run:
  assumes "steps (full_step os inet_ntoa cores spawn) s a" "i < length (wk_pcs (fs_wk a))" "wk_pcs (fs_wk a) ! i \<noteq> Wk_Adopt"
    "\<forall>wt. wk_pcs (fs_wk a) ! i \<noteq> Wk_Poll wt" "worker_move i (fs_wk a) = Some w"
  shows "steps (full_step os inet_ntoa cores spawn) s (a\<lparr>fs_wk := w\<rparr>)"
  by (rule steps_more [OF assms(1) full_step.worker [OF assms(2-5)]])

lemma worker_take_returns:
  assumes "wl_mutex (wp_locker wp) = Mutex_Free"
  shows "\<exists>x wp1 tr1. worker_take_client os t (w, wp) tr = (Ret (x, wp1), tr1) \<and> tw_poller x = tw_poller w"
proof (cases "wp_storage wp")
  case (Cons info rest)
  obtain x tr1 where ad: "tcp_worker_adopt os (info # rest) w tr = (Ret (rest, x), tr1)"
    by (auto simp: tcp_worker_adopt_def bind_io_def ret_def add_event_result Let_def)
  then have "tw_poller x = tw_poller w" by (rule adopt_keeps_array)
  then show ?thesis using ad Cons assms by (simp add: worker_take_client_def worker_lock_defs bind_io_def lift_def ret_def)
qed (simp add: worker_take_client_def ret_def)

lemma worker_takes_client:
  assumes "i < length (wk_pcs (fs_wk s))" "wk_pcs (fs_wk s) ! i = Wk_Test" "worker_view wp (fs_wk s)"
    "worker_take_client os i (fs_objs s ! i, wp) (fs_trace s) = (Ret (x, wp1), tr)"
  shows "\<exists>s'. steps (full_step os inet_ntoa cores spawn) s s' \<and> worker_now i Wk_Dec x wp1 tr s s'"
proof (cases "wk_storage (fs_wk s)")
  case Nil
  let ?s' = "s\<lparr>fs_wk := wk_goto i Wk_Dec (fs_wk s)\<rparr>"
  have "worker_move i (fs_wk s) = Some (wk_goto i Wk_Dec (fs_wk s))" using assms(2) Nil by (simp add: worker_move_def worker_test_def)
  then have "steps (full_step os inet_ntoa cores spawn) s ?s'"
    using worker_step_run [OF steps_refl assms(1)] assms(2) by simp
  moreover have "x = fs_objs s ! i" "wp1 = wp" "tr = fs_trace s"
    using assms(3,4) Nil by (simp_all add: worker_take_client_def worker_view_def ret_def)
  ultimately show ?thesis using assms(3) Nil
    by (intro exI [of _ ?s']) (simp add: worker_now_def worker_view_def taken_now_def)
next
  case (Cons info rest)
  have wp: "wp_storage wp = info # rest" using assms(3) Cons by (simp add: worker_view_def)
  have free: "wl_mutex (wp_locker wp) = Mutex_Free"
  proof (rule ccontr)
    assume "wl_mutex (wp_locker wp) \<noteq> Mutex_Free"
    then show False using assms(4) wp
      by (cases "wl_mutex (wp_locker wp)") (simp_all add: worker_take_client_def worker_lock_defs bind_io_def lift_def)
  qed
  then have lock: "wk_lock (fs_wk s) = Mutex_Free" using assms(3) by (simp add: worker_view_def)
  let ?l = "(wp_locker wp)\<lparr>wl_mutex := Mutex_Free\<rparr>"
  have "bind_io (tcp_worker_adopt os (info # rest) (fs_objs s ! i)) (\<lambda>(q, w'). ret (w', wp\<lparr>wp_locker := ?l, wp_storage := q\<rparr>)) (fs_trace s)
      = (Ret (x, wp1), tr)"
    using assms(4) wp free by (auto simp: worker_take_client_def worker_lock_defs bind_io_def lift_def split: outcome.splits prod.splits)
  then have ad: "tcp_worker_adopt os (info # rest) (fs_objs s ! i) (fs_trace s) = (Ret (rest, x), tr)"
    and wp1: "wp1 = wp\<lparr>wp_locker := ?l, wp_storage := rest\<rparr>"
    by (auto simp: bind_io_eq_Ret ret_def tcp_worker_adopt_def Let_def)
  let ?w1 = "wk_goto i Wk_Lock (fs_wk s)"
  let ?w2 = "(wk_goto i Wk_Adopt (fs_wk s))\<lparr>wk_lock := Mutex_Held i\<rparr>"
  let ?w3 = "(wk_goto i Wk_Dec (fs_wk s))\<lparr>wk_storage := rest, wk_adopted := wk_adopted (fs_wk s) @ [(i, info)]\<rparr>"
  have m1: "worker_move i (fs_wk s) = Some ?w1" using assms(2) Cons by (simp add: worker_move_def worker_test_def)
  have m2: "worker_move i ?w1 = Some ?w2" using assms(1) lock by (simp add: worker_move_def worker_lock_queue_def)
  have m3: "worker_move i ?w2 = Some ?w3" using assms(1) Cons lock by (simp add: worker_move_def worker_adopt_def)
  have r1: "steps (full_step os inet_ntoa cores spawn) s (s\<lparr>fs_wk := ?w1\<rparr>)"
    using worker_step_run [OF steps_refl assms(1)] assms(2) m1 by simp
  have r2: "steps (full_step os inet_ntoa cores spawn) s (s\<lparr>fs_wk := ?w2\<rparr>)"
    using worker_step_run [OF r1, of i ?w2] assms(1) m2 by simp
  let ?s' = "s\<lparr>fs_wk := ?w3, fs_objs := (fs_objs s)[i := x], fs_trace := tr\<rparr>"
  have "full_step os inet_ntoa cores spawn (s\<lparr>fs_wk := ?w2\<rparr>)
      ((s\<lparr>fs_wk := ?w2\<rparr>)\<lparr>fs_wk := ?w3, fs_objs := (fs_objs (s\<lparr>fs_wk := ?w2\<rparr>))[i := x], fs_trace := tr\<rparr>)"
    by (rule full_step.adopt [where q = rest]) (use assms(1) m3 ad Cons in simp_all)
  then have "steps (full_step os inet_ntoa cores spawn) s ?s'" using steps_more [OF r2] by simp
  moreover have "worker_now i Wk_Dec x wp1 tr s ?s'"
    using assms(3) Cons lock by (simp add: worker_now_def worker_view_def taken_now_def wp1)
  ultimately show ?thesis by blast
qed

text \<open>The section with the counter, up to the choice of the waiting time.\<close>

lemma worker_chooses:
  assumes "i < length (wk_pcs (fs_wk s))" "wk_pcs (fs_wk s) ! i = Wk_Dec"
  shows "steps (full_step os inet_ntoa cores spawn) s (s\<lparr>fs_wk := (wk_goto i
    (case worker_wait_time (wk_num (fs_wk s)) (wk_avail (fs_wk s) - 1) (wk_avail (fs_wk s) - 1) of
       Ret wt \<Rightarrow> Wk_Poll wt | Stop e \<Rightarrow> Wk_Fault e) (fs_wk s))\<lparr>wk_avail := wk_avail (fs_wk s) - 1\<rparr>\<rparr>)"
proof -
  let ?a = "wk_avail (fs_wk s) - 1"
  let ?pc = "case worker_wait_time (wk_num (fs_wk s)) ?a ?a of Ret wt \<Rightarrow> Wk_Poll wt | Stop e \<Rightarrow> Wk_Fault e"
  let ?w1 = "(wk_goto i Wk_Cmp (fs_wk s))\<lparr>wk_avail := ?a\<rparr>"
  let ?w2 = "(wk_goto i (Wk_Use ?a) (fs_wk s))\<lparr>wk_avail := ?a\<rparr>"
  let ?w3 = "(wk_goto i ?pc (fs_wk s))\<lparr>wk_avail := ?a\<rparr>"
  have m1: "worker_move i (fs_wk s) = Some ?w1" using assms by (simp add: worker_move_def worker_dec_def)
  have m2: "worker_move i ?w1 = Some ?w2" using assms(1) by (simp add: worker_move_def worker_cmp_def)
  have m3: "worker_move i ?w2 = Some ?w3" using assms(1) by (simp add: worker_move_def worker_use_def)
  have r1: "steps (full_step os inet_ntoa cores spawn) s (s\<lparr>fs_wk := ?w1\<rparr>)"
    using worker_step_run [OF steps_refl assms(1)] assms(2) m1 by simp
  have r2: "steps (full_step os inet_ntoa cores spawn) s (s\<lparr>fs_wk := ?w2\<rparr>)"
    using worker_step_run [OF r1, of i ?w2] assms(1) m2 by simp
  show ?thesis using worker_step_run [OF r2, of i ?w3] assms(1) m3 by simp
qed

lemma worker_polls:
  assumes "i < length (wk_pcs (fs_wk s))" "wk_pcs (fs_wk s) ! i = Wk_Poll wt"
    "tcp_worker_poll os wt (fs_objs s ! i) b (fs_trace s) = (Ret (x, b'), tr)"
  shows "steps (full_step os inet_ntoa cores spawn) s (s\<lparr>fs_objs := (fs_objs s)[i := x], fs_trace := tr,
    fs_wk := (wk_goto i Wk_Test (fs_wk s))\<lparr>wk_avail := wk_avail (fs_wk s) + 1\<rparr>\<rparr>)"
proof -
  let ?w1 = "wk_goto i Wk_Inc (fs_wk s)"
  let ?a = "s\<lparr>fs_wk := ?w1, fs_objs := (fs_objs s)[i := x], fs_trace := tr\<rparr>"
  have m1: "worker_move i (fs_wk s) = Some ?w1" using assms(2) by (simp add: worker_move_def worker_polled_def)
  have "full_step os inet_ntoa cores spawn s ?a" by (rule full_step.poll [OF assms(1,2) m1 assms(3)])
  then have r1: "steps (full_step os inet_ntoa cores spawn) s ?a" by (rule steps_one)
  have m2: "worker_move i ?w1 = Some ((wk_goto i Wk_Test (fs_wk s))\<lparr>wk_avail := wk_avail (fs_wk s) + 1\<rparr>)"
    using assms(1) by (simp add: worker_move_def worker_inc_def)
  show ?thesis using worker_step_run [OF r1, of i] assms(1) m2 by simp
qed

section \<open>Properties\<close>



text \<open>
  C11. A turn of the listening loop is a run: when \<open>poll_for_connect_turn\<close>, alone, returns, the interleaved system has a run, one wait of the
  loop and then one step per event, that ends with the same server, pool and address and has made the same calls; the workers, the threads'
  tasks and the owner of the pool are as before.
\<close>

theorem accept_turn_is_run:
  assumes "in_service (sy_owner (fs_pool s))" "wait_documented os" "length (ep_evary w) = MAX_EVENTS"
    "poll_for_connect_turn os inet_ntoa cores spawn t w (fs_server s, sy_pool (fs_pool s), fs_caddr s) (fs_trace s) = (Ret (w', st), tr)"
  shows "\<exists>s'. steps (full_step os inet_ntoa cores spawn) s s' \<and> (fs_server s', sy_pool (fs_pool s'), fs_caddr s') = st \<and>
    fs_trace s' = tr \<and> fs_wk s' = fs_wk s \<and> fs_objs s' = fs_objs s \<and> fs_greeted s' = fs_greeted s \<and>
    sy_owner (fs_pool s') = sy_owner (fs_pool s)"
proof -
  let ?c = "Sys_epoll_wait (ep_fd w) MAX_EVENTS EPOLL_WAIT_TIME" and ?step = "full_step os inet_ntoa cores spawn"
  obtain r out where wait: "os (fs_trace s) ?c = (r, out)" by fastforce
  obtain v tr1 where l: "epoll_poll_event os (\<lambda>arr n u. ret u) w EPOLL_WAIT_TIME () (fs_trace s) = (Ret (v, ()), tr1)"
    and l1: "r \<noteq> -1 \<Longrightarrow> tr1 = fs_trace s @ [(?c, r)]"
    using listen_returns [of os w EPOLL_WAIT_TIME "fs_trace s"] wait by auto
  let ?a = "s\<lparr>fs_trace := tr1\<rparr>"
  have "?step s ?a" by (rule full_step.listen [OF l])
  then have run: "steps ?step s ?a" by (rule steps_one)
  have a: "others_kept s ?a" "accept_view ?a = accept_view s" by (simp_all add: others_kept_def accept_view_def)
  have "\<exists>s'. steps ?step ?a s' \<and> accept_view s' = st \<and> fs_trace s' = tr \<and> others_kept ?a s'"
  proof (cases "r = -1")
    case True
    then have "st = accept_view s" "tr = tr1"
      using assms(4) wait l by (auto simp: poll_for_connect_turn_def epoll_poll_event_def CHECK_PERROR_def accept_view_def io_simps Let_def)
    then show ?thesis by (intro exI [of _ ?a]) (simp add: steps_refl accept_view_def others_kept_def)
  next
    case False
    then obtain evs where out: "out = Out_Events evs"
      using assms(2) [unfolded wait_documented_def, rule_format, of "fs_trace s" "ep_fd w" MAX_EVENTS EPOLL_WAIT_TIME] wait by auto
    have "bind_io (each_event (server_on_event os inet_ntoa cores spawn t) evs (accept_view s))
        (\<lambda>s'. ret (w\<lparr>ep_evary := put_events (Out_Events evs) (ep_evary w)\<rparr>, s')) (fs_trace s @ [(?c, r)]) = (Ret (w', st), tr)"
      using assms(4) unfolding poll_for_connect_turn_def accept_view_def poll_event_each [OF assms(2,3) wait [unfolded out] False] .
    then have "each_event (server_on_event os inet_ntoa cores spawn t) evs (accept_view ?a) (fs_trace ?a) = (Ret st, tr)"
      by (auto simp: accept_view_def l1 [OF False] bind_io_eq_Ret ret_def)
    then show ?thesis using accept_events_run [of ?a] assms(1) by auto
  qed
  then obtain s' where s': "steps ?step ?a s'" "accept_view s' = st" "fs_trace s' = tr" "others_kept ?a s'" by blast
  have "steps ?step s s'" by (rule steps_trans [OF run s'(1)])
  then show ?thesis using s'(2-4) by (intro exI [of _ s']) (auto simp: accept_view_def others_kept_def)
qed

theorem accept_turn_is_run_witness:
  "\<exists>s s'. demo_reach s \<and> fs_trace s = [] \<and> steps (full_step (server_os [\<lparr>ev_events = EPOLLIN, ev_fd = 3\<rparr>]) (\<lambda>a. []) 1 (\<lambda>i. (0, 70 + i))) s s' \<and>
     accepted_fds (fs_trace s') = [100] \<and> length (pool_tasks (sy_pool (fs_pool s'))) = 1"
proof -
  let ?ev = "\<lparr>ev_events = EPOLLIN, ev_fd = 3\<rparr>" and ?s = "full_start\<lparr>fs_wk := wk_ready, fs_pool := pool_ready\<rparr>"
  let ?os = "server_os [?ev]" and ?sp = "\<lambda>i. (0 :: int, 70 + i :: nat)" and ?w = "\<lparr>ep_fd = 4, ep_evary = replicate MAX_EVENTS no_event\<rparr>"
  let ?c = "Sys_epoll_wait 4 MAX_EVENTS EPOLL_WAIT_TIME" and ?tp = "sy_pool pool_ready"
  have ready: "server_ready demo_server ?tp" using demo_server_ready pool_ready_facts by (simp add: server_ready_def)
  have h: "has_event (ev_events ?ev) EPOLLIN" "sv_connected_num demo_server < SERVER_MAX_CONNECTION"
      "?os [(?c, 1)] (Sys_accept (sv_sockfd demo_server)) =
        (100, Out_Addr \<lparr>sin_family = AF_INET, sin_port = htons 4242, sin_addr = 0x0100007F\<rparr>)" "(0::int) < 100"
    by (simp_all add: has_event_def EPOLLIN_def demo_server_def SERVER_MAX_CONNECTION_def server_os_def)
  obtain msg r sv tp ca where step: "server_on_event ?os (\<lambda>a. []) 1 ?sp 9 ?ev (demo_server, ?tp, no_address) [(?c, 1)] =
      (Ret (sv, tp, ca), [(?c, 1)] @ [(Sys_accept (sv_sockfd demo_server), 100), (Sys_stdout msg, r)])"
    "pool_grows ?tp tp [100]"
    using server_step_accept [of demo_server ?tp ?ev ?os "[(?c, 1)]" 100, OF ready h, of "\<lambda>a. []" 1 ?sp 9 no_address]
    by blast
  have doc: "wait_documented ?os" "?os [] (Sys_epoll_wait (ep_fd ?w) MAX_EVENTS EPOLL_WAIT_TIME) = (1, Out_Events [?ev])"
    by (auto simp: wait_documented_def server_os_def epoll_kernel_def MAX_EVENTS_def)
  obtain w' tr where turn: "poll_for_connect_turn ?os (\<lambda>a. []) 1 ?sp 9 ?w (fs_server ?s, sy_pool (fs_pool ?s), fs_caddr ?s) (fs_trace ?s)
      = (Ret (w', sv, tp, ca), tr)" and tr: "accepted_fds tr = [100]"
    unfolding poll_for_connect_turn_def
    using poll_event_each [OF doc(1) _ doc(2), of "server_on_event ?os (\<lambda>a. []) 1 ?sp 9" "(demo_server, ?tp, no_address)"] step(1)
    by (simp add: full_start_def bind_io_def ret_def)
  obtain s' where s': "steps (full_step ?os (\<lambda>a. []) 1 ?sp) ?s s'" "sy_pool (fs_pool s') = tp" "fs_trace s' = tr"
    using accept_turn_is_run [OF _ doc(1) _ turn] by (auto simp: pool_ready_def)
  obtain info where info: "tp = pool_put \<lparr>task_fun = Some info, task_args = None\<rparr> ?tp"
    using step(2) pool_ready_facts(2) by (auto simp: pool_grows_def)
  have "length (pool_tasks tp) = 1"
    using pool_put_tasks [OF pool_ready_facts(1), of "\<lparr>task_fun = Some info, task_args = None\<rparr>"] pool_ready_facts
    by (simp add: info pool_room_def)
  then show ?thesis using s' tr demo_pool_started by (intro exI [of _ ?s] exI [of _ s']) (simp add: full_start_def)
qed

text \<open>
  C12. A task is a run: \<open>client_task\<close>, run alone by a thread that holds the task of a client, is the step that greets the client followed by the
  step that hands it over, with the same calls and the same lock and queue at the end; the thread lets go of the task.
\<close>

theorem client_task_is_run:
  assumes "at_pc (fs_pool s) i (Has_Task task)" "i \<notin> fs_greeted s" "thread_pool_task_run task = Ret (info, args)" "bufs_ok b"
    "client_task os t info b (\<lparr>wl_mutex = wk_lock (fs_wk s)\<rparr>, wk_storage (fs_wk s)) (fs_trace s) = (Ret (b', l, q), tr)"
  shows "\<exists>s'. steps (full_step os inet_ntoa cores spawn) s s' \<and> fs_trace s' = tr \<and> wk_storage (fs_wk s') = q \<and> wk_lock (fs_wk s') = wl_mutex l \<and>
    wk_pushed (fs_wk s') = wk_pushed (fs_wk s) @ [info] \<and> sy_ran (fs_pool s') = sy_ran (fs_pool s) @ [task] \<and>
    sy_pcs (fs_pool s') = (sy_pcs (fs_pool s))[i := At_Lock] \<and> fs_greeted s' = fs_greeted s \<and> sy_pool (fs_pool s') = sy_pool (fs_pool s)"
proof -
  let ?step = "full_step os inet_ntoa cores spawn"
  obtain tr1 where greet: "client_greet os info b (fs_trace s) = (Ret b', tr1)"
    and rest: "bind_io (lift (with_lockguard t (\<lambda>(l, q). Ret ((), l, q @ [info])) (\<lparr>wl_mutex = wk_lock (fs_wk s)\<rparr>, wk_storage (fs_wk s))))
      (\<lambda>(u, l, q). ret (b', l, q)) tr1 = (Ret (b', l, q), tr)"
    using assms(5) by (auto simp: client_task_def bind_io_eq_Ret ret_def lift_def split: prod.splits)
  let ?a = "s\<lparr>fs_trace := tr1, fs_greeted := insert i (fs_greeted s)\<rparr>"
  have ra: "?step s ?a" by (rule full_step.greet [OF assms(1-4) greet])
  have free: "wk_lock (fs_wk s) = Mutex_Free"
  proof (rule ccontr)
    assume "wk_lock (fs_wk s) \<noteq> Mutex_Free"
    then show False using rest by (cases "wk_lock (fs_wk s)") (simp_all add: with_lockguard_def worker_lock_defs bind_io_def lift_def)
  qed
  then have fin: "l = \<lparr>wl_mutex = Mutex_Free\<rparr>" "q = wk_storage (fs_wk s) @ [info]" "tr = tr1"
    using rest by (auto simp: with_lockguard_def worker_lock_defs bind_io_def lift_def ret_def)
  let ?p = "(set_pc i At_Lock (fs_pool s))\<lparr>sy_ran := sy_ran (fs_pool s) @ [task]\<rparr>"
  let ?b = "?a\<lparr>fs_wk := push_client info (fs_wk ?a), fs_pool := ?p, fs_greeted := fs_greeted ?a - {i}\<rparr>"
  have "?step ?a ?b"
    by (rule full_step.push [where task = task and info = info and args = args and t = t])
       (use assms(1,3) free in \<open>simp_all add: hand_over_free routine_run_def\<close>)
  then have "steps ?step s ?b" by (rule steps_more [OF steps_one [of ?step, OF ra]])
  then show ?thesis using fin free assms(2)
    by (intro exI [of _ ?b]) (simp add: push_client_def insert_Diff_if)
qed

theorem client_task_is_run_witness:
  "\<exists>s s' info. steps (full_step (server_os []) (\<lambda>a. []) 1 (\<lambda>i. (0, 70 + i))) s s' \<and> wk_storage (fs_wk s) = [] \<and> wk_storage (fs_wk s') = [info]"
proof -
  let ?info = "accepted_info (\<lambda>a. []) 100 no_address"
  let ?task = "\<lparr>task_fun = Some ?info, task_args = None\<rparr> :: (client_info, unit) thread_pool_task"
  let ?s = "full_start\<lparr>fs_wk := wk_ready, fs_pool := set_pc 0 (Has_Task ?task) pool_ready\<rparr>" and ?ls = "(\<lparr>wl_mutex = Mutex_Free\<rparr>, [])"
  have pc: "at_pc (fs_pool ?s) 0 (Has_Task ?task)" "0 \<notin> fs_greeted ?s" "thread_pool_task_run ?task = Ret (?info, None)"
    "wk_lock (fs_wk ?s) = Mutex_Free" "wk_storage (fs_wk ?s) = []" "fs_trace ?s = []"
    by (simp_all add: pool_ready_def full_start_def thread_pool_task_run_def wk_ready_def wk_start_def)
  have "server_os [] [] (Sys_read (ev_fd (ci_eplev ?info)) BUFSIZ) = (0, No_Out)" by (simp add: server_os_def epoll_kernel_def)
  then obtain b' tr where "client_greet (server_os []) ?info fresh_bufs [] = (Ret b', tr)"
    using greet_quiet [of fresh_bufs "server_os []" "[]" ?info 0 No_Out, OF fresh_bufs_ok] by (simp add: Let_def)
  then have "client_task (server_os []) 0 ?info fresh_bufs (\<lparr>wl_mutex = wk_lock (fs_wk ?s)\<rparr>, wk_storage (fs_wk ?s)) (fs_trace ?s) =
      (Ret (b', \<lparr>wl_mutex = Mutex_Free\<rparr>, [?info]), tr)"
    unfolding pc(4-6) by (simp add: client_task_def with_lockguard_def worker_lock_defs bind_io_def lift_def ret_def)
  from client_task_is_run [OF pc(1-3) fresh_bufs_ok this, of "\<lambda>a. []" 1 "\<lambda>i. (0, 70 + i)"] pc(5) show ?thesis by blast
qed

text \<open>
  C9. A turn of a worker is a run: the body of the loop of \<open>worker_routine\<close>, run alone on the worker's object and its pool's queue, lock and counter,
  returns or dies of the division, and it is a run of the interleaved system from the test of the queue back to it, or to the fault, with the
  same calls and the same object, queue, lock and counter at the end; a client that was at the front of the queue is adopted.
\<close>

theorem worker_turn_is_run:
  assumes "i < length (wk_pcs (fs_wk s))" "i < length (fs_objs s)" "wk_pcs (fs_wk s) ! i = Wk_Test" "worker_view wp (fs_wk s)"
    "wk_lock (fs_wk s) = Mutex_Free" "wait_documented os" "length (ep_evary (tw_poller (fs_objs s ! i))) = MAX_EVENTS" "bufs_ok b"
  shows "\<exists>s'. steps (full_step os inet_ntoa cores spawn) s s' \<and>
    (case worker_routine_turn os i (fs_objs s ! i) b wp (fs_trace s) of
       (Ret (x, b', wp'), tr) \<Rightarrow> worker_now i Wk_Test x wp' tr s s'
     | (Stop e, tr) \<Rightarrow> e = Div_By_Zero \<and> wk_pcs (fs_wk s') = (wk_pcs (fs_wk s))[i := Wk_Fault e] \<and> fs_trace s' = tr)"
proof -
  let ?step = "full_step os inet_ntoa cores spawn"
  obtain x1 wp1 tr1 where take: "worker_take_client os i (fs_objs s ! i, wp) (fs_trace s) = (Ret (x1, wp1), tr1)"
    and arr: "tw_poller x1 = tw_poller (fs_objs s ! i)"
    using worker_take_returns [of wp os i "fs_objs s ! i" "fs_trace s"] assms(4,5) by (auto simp: worker_view_def)
  obtain a where a: "steps ?step s a" "worker_now i Wk_Dec x1 wp1 tr1 s a"
    using worker_takes_client [OF assms(1,3,4) take] by blast
  have at: "i < length (wk_pcs (fs_wk a))" "wk_pcs (fs_wk a) ! i = Wk_Dec" "fs_objs a ! i = x1" "fs_trace a = tr1"
    "wp_worker_num wp1 = wk_num (fs_wk a)" "wp_avail wp1 = wk_avail (fs_wk a)"
    using a(2) assms(1,2) by (simp_all add: worker_now_def worker_view_def)
  let ?wait = "worker_wait_time (wk_num (fs_wk a)) (wk_avail (fs_wk a) - 1) (wk_avail (fs_wk a) - 1)"
  let ?c = "\<lambda>pc. a\<lparr>fs_wk := (wk_goto i pc (fs_wk a))\<lparr>wk_avail := wk_avail (fs_wk a) - 1\<rparr>\<rparr>"
  have c: "steps ?step s (?c (case ?wait of Ret wt \<Rightarrow> Wk_Poll wt | Stop e \<Rightarrow> Wk_Fault e))"
    by (rule steps_trans [OF a(1) worker_chooses [OF at(1,2)]])
  show ?thesis
  proof (cases ?wait)
    case (Stop e)
    then have "e = Div_By_Zero" by (auto simp: worker_wait_time_def c_rem_def bind_outcome_def split: if_splits)
    moreover have "worker_routine_turn os i (fs_objs s ! i) b wp (fs_trace s) = (Stop e, tr1)"
      using take Stop at by (simp add: worker_routine_turn_def bind_io_def lift_def Let_def)
    moreover have "wk_pcs (fs_wk (?c (Wk_Fault e))) = (wk_pcs (fs_wk s))[i := Wk_Fault e]" using a(2) by (simp add: worker_now_def)
    ultimately show ?thesis using c Stop at(4) by (intro exI [of _ "?c (Wk_Fault e)"]) simp
  next
    case (Ret wt)
    let ?d = "?c (Wk_Poll wt)"
    have "length (ep_evary (tw_poller x1)) = MAX_EVENTS" using assms(7) arr by simp
    then obtain x2 b2 tr2 where p: "tcp_worker_poll os wt x1 b tr1 = (Ret (x2, b2), tr2)" using poll_result [OF assms(6) _ assms(8)] by blast
    let ?e = "?d\<lparr>fs_objs := (fs_objs ?d)[i := x2], fs_trace := tr2,
        fs_wk := (wk_goto i Wk_Test (fs_wk ?d))\<lparr>wk_avail := wk_avail (fs_wk ?d) + 1\<rparr>\<rparr>"
    have "steps ?step ?d ?e" by (rule worker_polls) (use at p in simp_all)
    then have run: "steps ?step s ?e" using steps_trans [of ?step s ?d ?e] c Ret by simp
    have "worker_routine_turn os i (fs_objs s ! i) b wp (fs_trace s) = (Ret (x2, b2, wp1), tr2)"
      using take Ret at p by (simp add: worker_routine_turn_def bind_io_def lift_def ret_def Let_def)
    moreover have "worker_now i Wk_Test x2 wp1 tr2 s ?e" using a(2) by (simp add: worker_now_def worker_view_def)
    ultimately show ?thesis using run by (intro exI [of _ ?e]) simp
  qed
qed

theorem worker_turn_is_run_witness:
  "\<exists>s s' info. steps (full_step (server_os []) (\<lambda>a. []) 1 (\<lambda>i. (0, 70 + i))) s s' \<and> wk_storage (fs_wk s) = [info] \<and> wk_adopted (fs_wk s) = [] \<and>
     wk_adopted (fs_wk s') = [(0, info)] \<and> wk_pcs (fs_wk s') = [Wk_Test, Wk_Test]"
proof -
  let ?info = "accepted_info (\<lambda>a. []) 100 no_address"
  let ?s = "full_start\<lparr>fs_wk := push_client ?info wk_ready, fs_pool := pool_ready\<rparr>"
  let ?wp = "demo_wp\<lparr>wp_worker_num := 2, wp_storage := [?info], wp_avail := 2\<rparr>"
  have s: "0 < length (wk_pcs (fs_wk ?s))" "0 < length (fs_objs ?s)" "wk_pcs (fs_wk ?s) ! 0 = Wk_Test" "worker_view ?wp (fs_wk ?s)"
    "wk_lock (fs_wk ?s) = Mutex_Free" "wait_documented (server_os [])" "length (ep_evary (tw_poller (fs_objs ?s ! 0))) = MAX_EVENTS"
    "fs_objs ?s ! 0 = demo_worker" "fs_trace ?s = []"
    by (auto simp: full_start_def push_client_def wk_ready_def wk_start_def worker_view_def demo_wp_def worker_lock_ctor_def wait_documented_def
        server_os_def epoll_kernel_def demo_worker_def)
  have "worker_wait_time 2 1 1 = Ret 1" by (simp add: worker_wait_time_def c_rem_pos)
  then obtain x b' wp' tr where t: "worker_routine_turn (server_os []) 0 demo_worker fresh_bufs ?wp [] = (Ret (x, b', wp'), tr)"
    by (auto simp: worker_routine_turn_def worker_take_client_def worker_lock_defs demo_wp_def tcp_worker_adopt_def add_event_result
        tcp_worker_poll_def epoll_poll_event_def CHECK_PERROR_def worker_callback_def for_events_def server_os_def epoll_kernel_def io_simps Let_def)
  from worker_turn_is_run [OF s(1-7) fresh_bufs_ok, of "\<lambda>a. []" 1 "\<lambda>i. (0, 70 + i)"] t s(8,9)
  obtain s' where s': "steps (full_step (server_os []) (\<lambda>a. []) 1 (\<lambda>i. (0, 70 + i))) ?s s'" "worker_now 0 Wk_Test x wp' tr ?s s'" by auto
  then have "wk_adopted (fs_wk s') = [(0, ?info)]" "wk_pcs (fs_wk s') = [Wk_Test, Wk_Test]"
    by (simp_all add: worker_now_def taken_now_def push_client_def wk_ready_def wk_start_def)
  then show ?thesis using s'(1)
    by (intro exI [of _ ?s] exI [of _ s'] exI [of _ ?info]) (simp add: push_client_def wk_ready_def wk_start_def)
qed

section \<open>A start that fails\<close>

lemma no_thread_pool:
  assumes "pool_reach cores spawn p" "fst (spawn 0) \<noteq> 0"
  shows "sy_pcs p = [] \<and> sy_taken p = []"
  using assms(1)
proof (rule pool.reach_keep)
  show "sy_pcs p = [] \<and> sy_taken p = []" if "pool_init cores p" for p :: "('a, 'b) pool_sys"
    using that by (auto simp: pool_init_def sys_of_def)
  show "sy_pcs p' = [] \<and> sy_taken p' = []"
    if "sys_inv p" "pool_step cores spawn p p'" "sy_pcs p = [] \<and> sy_taken p = []" for p p' :: "('a, 'b) pool_sys"
  proof -
    have "lock_inv p" "pool_inv (sy_pool p)" using that(1) by (simp_all add: sys_inv_def shape_inv_def)
    with that(2) show ?thesis by (cases rule: pool_step_explicit) (use that(3) assms(2) in simp_all)
  qed
qed

text \<open>
  C25. A failed start is not noticed: if the first thread of the pool cannot be created, \<open>startup\<close> goes on as if the pool had been made, since
  it drops what \<open>create\<close> returns. In every state the server can then reach, whatever it accepts, no thread exists, no client has been handed to the
  workers or adopted by one, and every accepted connection is still in the ring, or was refused.
\<close>

theorem no_thread_no_service:
  assumes "reach (full_init cores n) (full_step os inet_ntoa cores spawn) s" "fst (spawn 0) \<noteq> 0"
  shows "sy_pcs (fs_pool s) = [] \<and> wk_pushed (fs_wk s) = [] \<and> wk_adopted (fs_wk s) = [] \<and>
    mset (accepted_fds (fs_trace s)) = mset (map task_fd (pool_tasks (sy_pool (fs_pool s)))) + mset (fs_lost s)"
proof -
  have inv: "full_inv cores spawn n s" using full.reach_inv [OF assms(1)] .
  then have r: "pool_reach cores spawn (fs_pool s)" "greet_inv s" "wk_inv (int n) (fs_wk s)"
    using full_inv_workers [OF inv] by (simp_all add: full_inv_def)
  have none: "sy_pcs (fs_pool s) = []" "sy_taken (fs_pool s) = []" using no_thread_pool [OF r(1) assms(2)] by simp_all
  then have "sy_ran (fs_pool s) = []" using pool.reach_inv [OF r(1)] by (simp add: sys_inv_def task_inv_def)
  then have pushed: "wk_pushed (fs_wk s) = []" using r(2) by (simp add: greet_inv_def)
  then have "wk_adopted (fs_wk s) = []" "wk_storage (fs_wk s) = []" using r(3) by (simp_all add: wk_inv_def wk_queue_inv_def)
  then show ?thesis using full_places [OF inv] none pushed by (simp add: flow_of_def)
qed

theorem no_thread_no_service_witness:
  "\<exists>s. reach (full_init 1 2) (full_step (server_os []) (\<lambda>a. []) 1 (\<lambda>i. (11, 0))) s \<and> sy_owner (fs_pool s) = Serving \<and>
     accepted_fds (fs_trace s) = [100] \<and> length (pool_tasks (sy_pool (fs_pool s))) = 1 \<and> wk_adopted (fs_wk s) = []"
proof -
  let ?spawn = "\<lambda>i::nat. (11::int, 0::nat)"
  let ?step = "full_step (server_os []) (\<lambda>a. []) 1 ?spawn" and ?p = "create_prepare 1 1 (2 ^ 11) thread_pool_ctor :: client_pool"
  let ?tp = "?p\<lparr>tp_mask := {0}\<rparr>" and ?w = "(wk_start (int 2))\<lparr>wk_pcs := replicate 2 Wk_Test\<rparr> :: client_info wk_sys"
  have init: "full_init 1 2 full_start"
    by (simp add: full_init_def full_start_def demo_server_def demo_wp_def wk_init_def arrays_ok_def demo_worker_def MAX_THREADS_def)
  have len: "length (tp_threads ?p) = 1" by (simp add: create_prepare_def Let_def thread_pool_ctor_def vec_resize_def coerce_in_def MAX_THREADS_def)
  have a: "steps ?step full_start (full_start\<lparr>fs_wk := ?w\<rparr>)" by (rule start_workers_run) (simp_all add: full_start_def)
  have "wk_step ?w (startup_store ?w)" by (rule wk_step.store) (simp_all add: wk_start_def)
  then have "?step (full_start\<lparr>fs_wk := ?w\<rparr>) ((full_start\<lparr>fs_wk := ?w\<rparr>)\<lparr>fs_wk := startup_store ?w\<rparr>)"
    by (intro full_step.startup) (simp_all add: wk_start_def)
  then have b: "steps ?step full_start (full_start\<lparr>fs_wk := startup_store ?w\<rparr>)" using steps_more [OF a] by simp
  have "thread_pool_create_loop 1 ?spawn 0 1 ?p = Ret (-1, ?tp)" by (simp add: c_rem_pos cpu_set_of_def)
  then have "steps (quiet_step 1 ?spawn) (sys_of ?p) ((sys_of ?p)\<lparr>sy_pool := ?tp, sy_pcs := replicate (created_threads ?spawn 0 1) Spawned, sy_owner := Serving\<rparr>)"
    using create_run [of "sys_of ?p" 1 1 ?spawn "-1" ?tp] len by (simp add: sys_of_def)
  from lift_thread [OF this, of "full_start\<lparr>fs_wk := startup_store ?w\<rparr>" "server_os []" "\<lambda>a. []"]
  have "steps ?step (full_start\<lparr>fs_wk := startup_store ?w\<rparr>) (full_start\<lparr>fs_wk := startup_store ?w, fs_pool := (sys_of ?p)\<lparr>sy_pool := ?tp, sy_owner := Serving\<rparr>\<rparr>)"
    (is "steps _ _ ?s") by (simp add: startup_store_def full_start_def sys_of_def)
  then have s: "steps ?step full_start ?s" by (rule steps_trans [OF b])
  then have reach: "reach (full_init 1 2) ?step ?s" by (rule reach_steps) (rule reach_init [of "full_init 1 2", OF init])
  have ring: "pool_inv ?tp" "pool_room ?tp" "tp_lock ?tp = Mutex_Free" "\<not> tp_shutdown ?tp" "pool_tasks ?tp = []"
    using prepare_inv(1) [of 1 1 "2 ^ 11"]
    by (simp_all add: MAX_THREADS_def pool_inv_def create_prepare_def Let_def thread_pool_ctor_def pool_room_def MAX_QUEUE_def pool_tasks_def)
  let ?ev = "\<lparr>ev_events = EPOLLIN, ev_fd = 3\<rparr>"
  have ready: "server_ready demo_server ?tp" using demo_server_ready ring by (simp add: server_ready_def)
  have h: "has_event (ev_events ?ev) EPOLLIN" "sv_connected_num demo_server < SERVER_MAX_CONNECTION"
      "server_os [] [] (Sys_accept (sv_sockfd demo_server)) =
        (100, Out_Addr \<lparr>sin_family = AF_INET, sin_port = htons 4242, sin_addr = 0x0100007F\<rparr>)" "(0::int) < 100"
    by (simp_all add: has_event_def EPOLLIN_def demo_server_def SERVER_MAX_CONNECTION_def server_os_def)
  obtain msg r sv tp ca where step: "server_on_event (server_os []) (\<lambda>a. []) 1 ?spawn 9 ?ev (demo_server, ?tp, no_address) [] =
      (Ret (sv, tp, ca), [] @ [(Sys_accept (sv_sockfd demo_server), 100), (Sys_stdout msg, r)])"
    "pool_grows ?tp tp [100]"
    using server_step_accept [of demo_server ?tp ?ev "server_os []" "[]" 100, OF ready h, of "\<lambda>a. []" 1 ?spawn 9 no_address]
    by blast
  have view: "accept_view ?s = (demo_server, ?tp, no_address)" "fs_trace ?s = []" "in_service (sy_owner (fs_pool ?s))"
    by (simp_all add: accept_view_def full_start_def)
  obtain s' where s': "?step ?s s'" "accept_view s' = (sv, tp, ca)" "fs_trace s' = [(Sys_accept (sv_sockfd demo_server), 100), (Sys_stdout msg, r)]"
    "others_kept ?s s'"
    using accept_event_step [OF view(3), of "server_os []" "\<lambda>a. []" 1 ?spawn 9 ?ev "(sv, tp, ca)"] step(1) view(1,2) by auto
  have r: "reach (full_init 1 2) ?step s'" by (rule reach_step [OF reach]) (fact s'(1))
  have "length (pool_tasks tp) = 1"
    using step(2) pool_put_tasks [OF ring(1)] ring(2,5) by (auto simp: pool_grows_def pool_room_def)
  moreover have "accepted_fds (fs_trace s') = [100]" by (simp add: s'(3))
  ultimately show ?thesis using r s'(2,4) no_thread_no_service [OF r]
    by (intro exI [of _ s']) (simp add: accept_view_def others_kept_def)
qed

end
