(* ===== verification/Tcp_Client.thy ===== *)
theory Tcp_Client
  imports Tcp_Server
begin

text \<open>
  \<open>tcp_client\<close> (\<open>tcp_client.h\<close>, \<open>tcp_client.cpp\<close>): the two constructors, the destructor, \<open>parse_serverarg\<close>,
  \<open>cnnto_server\<close> and \<open>cnnto_server2\<close>. \<open>inet_addr\<close> and \<open>inet_ntoa\<close> are parameters; a null address string is \<open>None\<close>.
\<close>

record tcp_client =
  tc_sockfd :: int
  tc_cnn_svr_set :: bool
  tc_cnn_svr_addr :: sockaddr_in

definition tcp_client_ctor :: "os \<Rightarrow> tcp_client io" where
  "tcp_client_ctor os =
     call os (Sys_socket AF_INET SOCK_STREAM IPPROTO_TCP) (\<lambda>fd.
     CHECK_PERROR os fd ''Create client socket failed!''
       (ret \<lparr>tc_sockfd = fd, tc_cnn_svr_set = False, tc_cnn_svr_addr = no_address\<rparr>))"

text \<open>\<open>strcmp\<close> on a null pointer is undefined.\<close>

definition parse_serverarg :: "(string \<Rightarrow> u32) \<Rightarrow> u16 \<Rightarrow> string option \<Rightarrow> tcp_client \<Rightarrow> tcp_client outcome" where
  "parse_serverarg inet_addr port svr_addr c = (case svr_addr of
      None \<Rightarrow> Stop Null_Deref
    | Some a \<Rightarrow> Ret (c\<lparr>tc_cnn_svr_addr :=
          \<lparr>sin_family = AF_INET, sin_port = htons port,
           sin_addr = inet_addr (if a = ''localhost'' then ''127.0.0.1'' else a)\<rparr>,
        tc_cnn_svr_set := True\<rparr>))"

definition tcp_client_ctor2 :: "os \<Rightarrow> (string \<Rightarrow> u32) \<Rightarrow> u16 \<Rightarrow> string option \<Rightarrow> tcp_client io" where
  "tcp_client_ctor2 os inet_addr port svr_addr =
     bind_io (tcp_client_ctor os) (\<lambda>c. lift (parse_serverarg inet_addr port svr_addr c))"

definition tcp_client_dtor :: "os \<Rightarrow> tcp_client \<Rightarrow> unit io" where
  "tcp_client_dtor os c = call_void os (Sys_close (tc_sockfd c)) (ret ())"

definition cnnto_server :: "os \<Rightarrow> (u32 \<Rightarrow> string) \<Rightarrow> tcp_client \<Rightarrow> int io" where
  "cnnto_server os inet_ntoa c =
     (if \<not> tc_cnn_svr_set c then
        call_void os (Sys_stderr (''Server address and port must be set first!'' @ newline)) (ret (-1))
      else call os (Sys_connect (tc_sockfd c) (tc_cnn_svr_addr c)) (\<lambda>res.
        CHECK_PERROR os res ''Client connect server failed!''
        (if res \<noteq> -1
         then call_void os (Sys_stdout (''Connect to server at '' @ inet_ntoa (sin_addr (tc_cnn_svr_addr c)) @ '':''
                              @ dec_int (uint (htons (sin_port (tc_cnn_svr_addr c)))) @ '' succeed!'')) (ret res)
         else ret res)))"

definition cnnto_server2 :: "os \<Rightarrow> (string \<Rightarrow> u32) \<Rightarrow> (u32 \<Rightarrow> string) \<Rightarrow> u16 \<Rightarrow> string option \<Rightarrow> tcp_client \<Rightarrow> (int \<times> tcp_client) io"
where
  "cnnto_server2 os inet_addr inet_ntoa port svr_addr c =
     bind_io (lift (parse_serverarg inet_addr port svr_addr c)) (\<lambda>c'.
     bind_io (cnnto_server os inet_ntoa c') (\<lambda>res. ret (res, c')))"

section \<open>Properties\<close>

text \<open>
  A client connects only to an address it was given: without one, \<open>cnnto_server\<close> makes no \<open>connect\<close> call and
  returns -1; \<open>cnnto_server2\<close> makes exactly one, on the client's socket, with the port in network byte order and
  \<open>localhost\<close> taken as 127.0.0.1, and returns its result.
\<close>

theorem client_connects_to_given:
  "(\<not> tc_cnn_svr_set c \<longrightarrow> (\<exists>msg r. cnnto_server os inet_ntoa c t = (Ret (-1), t @ [(Sys_stderr msg, r)]))) \<and>
   (\<exists>addr res c' rest. cnnto_server2 os inet_addr inet_ntoa port (Some a) c t =
        (Ret (res, c'), t @ (Sys_connect (tc_sockfd c) addr, res) # rest) \<and>
      htons (sin_port addr) = port \<and> sin_addr addr = inet_addr (if a = ''localhost'' then ''127.0.0.1'' else a) \<and>
      tc_cnn_svr_set c' \<and> (\<forall>fd ad r. (Sys_connect fd ad, r) \<notin> set rest))"
  by (auto simp: cnnto_server_def cnnto_server2_def parse_serverarg_def CHECK_PERROR_def io_simps Let_def)

theorem client_connects_to_given_witness:
  "\<exists>msg r. cnnto_server (server_os []) (\<lambda>a. []) \<lparr>tc_sockfd = 3, tc_cnn_svr_set = False, tc_cnn_svr_addr = no_address\<rparr> []
     = (Ret (-1), [] @ [(Sys_stderr msg, r)])"
  using client_connects_to_given [of "\<lparr>tc_sockfd = 3, tc_cnn_svr_set = False, tc_cnn_svr_addr = no_address\<rparr>" "server_os []" "\<lambda>a. []" "[]"]
  by simp

end
