(* ===== verification/Example_Client.thy ===== *)
theory Example_Client
  imports Tcp_Client
begin

text \<open>
  \<open>example_tcpclient.cpp\<close>: \<open>main\<close>, which runs \<open>client_test\<close>, and the demonstrations beside it: \<open>pthread_pid_test\<close> with its
  \<open>thread_routine\<close>, the classes \<open>A\<close>, \<open>B\<close> and \<open>C\<close> that print their construction and destruction, and \<open>other_test\<close>, a queue of shared objects.
  \<open>getopt\<close> is not modelled: its results are the list of pairs of an option character and \<open>optarg\<close>.
\<close>

section \<open>client\_test and main\<close>

text \<open>\<open>None\<close> is the jump to \<open>hint\<close>.\<close>

fun client_options :: "(char \<times> string) list \<Rightarrow> string option \<times> u16 \<Rightarrow> (string option \<times> u16) option" where
  "client_options [] a = Some a"
| "client_options ((opt, optarg) # opts) (addr, port) =
     (if opt = CHR ''s'' then client_options opts (Some optarg, port)
      else if opt = CHR ''p'' then client_options opts (addr, word_of_int (atoi optarg))
      else None)"

text \<open>\<open>hint\<close> prints the usage and exits with status 0: \<open>None\<close> is that the process has exited.\<close>

definition client_hint :: "os \<Rightarrow> string \<Rightarrow> int option io" where
  "client_hint os argv0 =
     call_void os (Sys_stdout (''usage '' @ argv0 @ '' -s [server_address] -p [server_port]'')) (ret None)"

definition client_test ::
  "os \<Rightarrow> (string \<Rightarrow> u32) \<Rightarrow> (u32 \<Rightarrow> string) \<Rightarrow> string \<Rightarrow> nat \<Rightarrow> (char \<times> string) list \<Rightarrow> int option io"
where
  "client_test os inet_addr inet_ntoa argv0 argc opts =
     (if argc < 3 then client_hint os argv0
      else case client_options opts (None, 0) of None \<Rightarrow> client_hint os argv0
      | Some (addr, port) \<Rightarrow>
          bind_io (tcp_client_ctor os) (\<lambda>c.
          bind_io (cnnto_server2 os inet_addr inet_ntoa port addr c) (\<lambda>(res, c').
          bind_io (tcp_client_dtor os c') (\<lambda>u. ret (Some res)))))"

text \<open>The result of \<open>main\<close> is the exit status: \<open>EXIT_SUCCESS\<close> from \<open>hint\<close>, else the 0 that \<open>main\<close> returns.\<close>

definition EXIT_SUCCESS :: int where "EXIT_SUCCESS = 0"

definition client_main ::
  "os \<Rightarrow> (string \<Rightarrow> u32) \<Rightarrow> (u32 \<Rightarrow> string) \<Rightarrow> string \<Rightarrow> nat \<Rightarrow> (char \<times> string) list \<Rightarrow> int io"
where
  "client_main os inet_addr inet_ntoa argv0 argc opts =
     bind_io (client_test os inet_addr inet_ntoa argv0 argc opts) (\<lambda>r.
       case r of None \<Rightarrow> ret EXIT_SUCCESS | Some res \<Rightarrow> ret 0)"

section \<open>pthread\_pid\_test\<close>

definition thread_routine_pid :: "os \<Rightarrow> unit io" where
  "thread_routine_pid os =
     call os Sys_gettid (\<lambda>pid. call_void os (Sys_stdout (''thread pid is '' @ dec_int pid @ newline)) (ret ()))"

text \<open>
  Each thread is joined before the next is created, so the threads run one after the other. \<open>spawn i\<close> is the result of
  \<open>pthread_create\<close>, which the code does not look at: joining an identifier that was never stored is undefined.
\<close>

fun pthread_pid_loop :: "os \<Rightarrow> (nat \<Rightarrow> int) \<Rightarrow> nat \<Rightarrow> nat \<Rightarrow> unit io" where
  "pthread_pid_loop os spawn i 0 = ret ()"
| "pthread_pid_loop os spawn i (Suc k) =
     (if spawn i \<noteq> 0 then stop Null_Deref
      else bind_io (thread_routine_pid os) (\<lambda>u. pthread_pid_loop os spawn (Suc i) k))"

definition pthread_pid_test :: "os \<Rightarrow> (nat \<Rightarrow> int) \<Rightarrow> unit io" where
  "pthread_pid_test os spawn = pthread_pid_loop os spawn 0 4"

section \<open>The classes A, B and C\<close>

definition A_ctor :: "os \<Rightarrow> unit io" where
  "A_ctor os = call_void os (Sys_stdout (''A constructor'' @ newline)) (ret ())"

definition A_dtor :: "os \<Rightarrow> unit io" where
  "A_dtor os = call_void os (Sys_stdout (''A destructor'' @ newline)) (ret ())"

record class_B =
  b_name :: string

text \<open>A constructor runs the one of the base class first, a destructor last.\<close>

definition B_ctor :: "os \<Rightarrow> string \<Rightarrow> class_B io" where
  "B_ctor os nm = bind_io (A_ctor os) (\<lambda>u.
     call_void os (Sys_stdout (''B constructor '' @ nm @ newline)) (ret \<lparr>b_name = nm\<rparr>))"

definition B_dtor :: "os \<Rightarrow> class_B \<Rightarrow> unit io" where
  "B_dtor os b = call_void os (Sys_stdout (''B destructor '' @ b_name b @ newline)) (A_dtor os)"

definition C_ctor :: "os \<Rightarrow> int \<Rightarrow> unit io" where
  "C_ctor os a = call_void os (Sys_stdout (''C constructor a is '' @ dec_int a @ newline)) (ret ())"

section \<open>other\_test\<close>

text \<open>
  The shared objects are entries of a store, each with its use count; a \<open>shared_ptr\<close> is the index of its object. The queue is
  destroyed at the end.
\<close>

record shared_ss =
  sh_uses :: nat
  sh_a :: int

definition make_shared_ss :: "shared_ss list \<Rightarrow> nat \<times> shared_ss list" where
  "make_shared_ss st = (length st, st @ [\<lparr>sh_uses = 1, sh_a = 0\<rparr>])"

definition shared_copy :: "nat \<Rightarrow> shared_ss list \<Rightarrow> shared_ss list" where
  "shared_copy p st = st[p := (st ! p)\<lparr>sh_uses := sh_uses (st ! p) + 1\<rparr>]"

definition shared_drop :: "nat \<Rightarrow> shared_ss list \<Rightarrow> shared_ss list" where
  "shared_drop p st = st[p := (st ! p)\<lparr>sh_uses := sh_uses (st ! p) - 1\<rparr>]"

fun other_test_loop :: "nat \<Rightarrow> nat list \<times> shared_ss list \<Rightarrow> nat list \<times> shared_ss list" where
  "other_test_loop 0 (xx, st) = (xx, st)"
| "other_test_loop (Suc k) (xx, st) =
     (case make_shared_ss st of (m, st1) \<Rightarrow> other_test_loop k (xx @ [m], shared_drop m (shared_copy m st1)))"

definition other_test :: "shared_ss list \<Rightarrow> shared_ss list" where
  "other_test st = (case other_test_loop 10 ([], st) of (xx, st') \<Rightarrow> fold shared_drop xx st')"

section \<open>Lemmas\<close>

lemma pthread_pid_loop_runs:
  "\<forall>j \<in> {i..<i + k}. spawn j = 0 \<Longrightarrow>
     \<exists>cs. pthread_pid_loop os spawn i k t = (Ret (), t @ cs) \<and> length (filter (\<lambda>c. fst c = Sys_gettid) cs) = k \<and>
       (\<forall>c \<in> set cs. fst c = Sys_gettid \<or> (\<exists>pid. fst c = Sys_stdout (''thread pid is '' @ dec_int pid @ newline)))"
proof (induction k arbitrary: i t)
  case 0
  then show ?case by (simp add: ret_def)
next
  case (Suc k)
  define r where "r = fst (os t Sys_gettid)"
  define c where "c = Sys_stdout (''thread pid is '' @ dec_int r @ newline)"
  define q where "q = fst (os (t @ [(Sys_gettid, r)]) c)"
  let ?t = "t @ [(Sys_gettid, r), (c, q)]"
  have "spawn i = 0" "\<forall>j \<in> {Suc i..<Suc i + k}. spawn j = 0" using Suc.prems by simp_all
  moreover from Suc.IH [OF this(2), of ?t]
  obtain cs where "pthread_pid_loop os spawn (Suc i) k ?t = (Ret (), ?t @ cs)" "length (filter (\<lambda>c. fst c = Sys_gettid) cs) = k"
    "\<forall>c \<in> set cs. fst c = Sys_gettid \<or> (\<exists>pid. fst c = Sys_stdout (''thread pid is '' @ dec_int pid @ newline))"
    by blast
  ultimately show ?case
    by (intro exI [of _ "[(Sys_gettid, r), (c, q)] @ cs"])
       (auto simp: thread_routine_pid_def io_simps r_def c_def q_def)
qed

lemma other_test_loop_owns:
  "other_test_loop k (xx, st) = (xx @ [length st..<length st + k], st @ replicate k \<lparr>sh_uses = 1, sh_a = 0\<rparr>)"
proof (induction k arbitrary: xx st)
  case (Suc k)
  have "shared_drop (length st) (shared_copy (length st) (st @ [\<lparr>sh_uses = 1, sh_a = 0\<rparr>])) = st @ [\<lparr>sh_uses = 1, sh_a = 0\<rparr>]"
    by (simp add: shared_drop_def shared_copy_def)
  then show ?case using Suc by (simp add: make_shared_ss_def replicate_append_same upt_rec)
qed simp

lemma drop_all_shared:
  "fold shared_drop [length st..<length st + k] (st @ replicate k \<lparr>sh_uses = 1, sh_a = 0\<rparr>)
     = st @ replicate k \<lparr>sh_uses = 0, sh_a = 0\<rparr>"
proof (induction k arbitrary: st)
  case (Suc k)
  have "shared_drop (length st) (st @ replicate (Suc k) \<lparr>sh_uses = 1, sh_a = 0\<rparr>)
      = (st @ [\<lparr>sh_uses = 0, sh_a = 0\<rparr>]) @ replicate k \<lparr>sh_uses = 1, sh_a = 0\<rparr>"
    by (simp add: shared_drop_def)
  then show ?case using Suc.IH [of "st @ [\<lparr>sh_uses = 0, sh_a = 0\<rparr>]"] by (simp add: upt_rec)
qed simp

section \<open>Properties\<close>

text \<open>
  The example client run with a port but no address follows a null pointer: \<open>svr_addr\<close> is still null when
  \<open>parse_serverarg\<close> compares it with \<open>localhost\<close>.
\<close>

theorem client_without_address:
  "\<exists>t'. client_main os inet_addr inet_ntoa argv0 3 [(CHR ''p'', p)] t = (Stop Null_Deref, t')"
  by (auto simp: client_main_def client_test_def tcp_client_ctor_def cnnto_server2_def parse_serverarg_def CHECK_PERROR_def io_simps Let_def
      split: prod.splits outcome.splits)

text \<open>
  The exit status of the example client says nothing about the connection: it is 0 whenever the process ends by itself, also after the
  usage was printed or \<open>connect\<close> failed; a process with fewer than three arguments or an option that is not \<open>-s\<close> or \<open>-p\<close> makes no call
  but the one that prints the usage.
\<close>

theorem client_main_status:
  "(fst (client_main os inet_addr inet_ntoa argv0 argc opts t) = Ret st \<longrightarrow> st = 0) \<and>
   (argc < 3 \<or> client_options opts (None, 0) = None \<longrightarrow>
      (\<exists>r. client_main os inet_addr inet_ntoa argv0 argc opts t =
         (Ret 0, t @ [(Sys_stdout (''usage '' @ argv0 @ '' -s [server_address] -p [server_port]''), r)])))"
  by (auto simp: client_main_def client_test_def client_hint_def EXIT_SUCCESS_def io_simps split: prod.splits outcome.splits option.splits)

theorem client_main_status_witness:
  "\<exists>r. client_main (server_os []) (\<lambda>s. 0) (\<lambda>a. []) ''cl'' 3 [(CHR ''x'', [])] [] =
     (Ret 0, [] @ [(Sys_stdout (''usage '' @ ''cl'' @ '' -s [server_address] -p [server_port]''), r)])"
  using client_main_status [of "server_os []" "\<lambda>s. 0" "\<lambda>a. []" "''cl''" 3 "[(CHR ''x'', [])]" "[]"] by simp

text \<open>Four threads, each created when the one before has been joined, ask for their identifiers and print them.\<close>

theorem pthread_pid_test_prints:
  assumes "\<forall>i < 4. spawn i = 0"
  shows "\<exists>cs. pthread_pid_test os spawn t = (Ret (), t @ cs) \<and> length (filter (\<lambda>c. fst c = Sys_gettid) cs) = 4 \<and>
    (\<forall>c \<in> set cs. fst c = Sys_gettid \<or> (\<exists>pid. fst c = Sys_stdout (''thread pid is '' @ dec_int pid @ newline)))"
  unfolding pthread_pid_test_def by (rule pthread_pid_loop_runs) (use assms in simp)

theorem pthread_pid_test_prints_witness: "\<exists>t. pthread_pid_test (server_os []) (\<lambda>i. 0) [] = (Ret (), t)"
  using pthread_pid_test_prints [of "\<lambda>i. 0" "server_os []" "[]"] by auto

text \<open>The life of a \<open>B\<close>: its base part is made first and destroyed last, and the name it was made with is printed both times.\<close>

theorem class_B_life:
  "\<exists>b r1 r2 r3 r4. B_ctor os nm t = (Ret b, t @ [(Sys_stdout (''A constructor'' @ newline), r1), (Sys_stdout (''B constructor '' @ nm @ newline), r2)]) \<and>
     bind_io (B_ctor os nm) (B_dtor os) t = (Ret (), t @ [(Sys_stdout (''A constructor'' @ newline), r1),
       (Sys_stdout (''B constructor '' @ nm @ newline), r2), (Sys_stdout (''B destructor '' @ nm @ newline), r3),
       (Sys_stdout (''A destructor'' @ newline), r4)])"
  by (auto simp: B_ctor_def B_dtor_def A_ctor_def A_dtor_def io_simps)

text \<open>\<open>other_test\<close> makes ten objects and releases every one of them; it touches no other object.\<close>

theorem other_test_releases: "other_test st = st @ replicate 10 \<lparr>sh_uses = 0, sh_a = 0\<rparr>"
  unfolding other_test_def other_test_loop_owns using drop_all_shared [of st 10] by simp

end
