(* ===== verification/Async_Sigio.thy ===== *)
theory Async_Sigio
  imports Utils
begin

text \<open>
  \<open>async_sigio\<close> (\<open>async_sigio.h\<close>, \<open>async_sigio.cpp\<close>): registering a callback in the static multimap, the signal
  handler that runs the callbacks, \<open>enable\<close>, and the destructor. A multimap is the list of its pairs in the order of its
  iteration: by key, and by insertion among equal keys.
\<close>

definition SIGIO :: int where "SIGIO = 29"
definition SA_RESTART :: int where "SA_RESTART = 0x10000000"
definition O_ASYNC :: int where "O_ASYNC = 0x2000"

type_synonym 's sig_callback = "int \<Rightarrow> 's \<Rightarrow> 's io"
type_synonym 's callback_map = "(int \<times> 's sig_callback) list"

definition multimap_insert :: "int \<Rightarrow> 'v \<Rightarrow> (int \<times> 'v) list \<Rightarrow> (int \<times> 'v) list" where
  "multimap_insert k v m = takeWhile (\<lambda>e. fst e \<le> k) m @ (k, v) # dropWhile (\<lambda>e. fst e \<le> k) m"

definition equal_range :: "int \<Rightarrow> (int \<times> 'v) list \<Rightarrow> (int \<times> 'v) list" where
  "equal_range k m = takeWhile (\<lambda>e. fst e \<le> k) (dropWhile (\<lambda>e. fst e < k) m)"

record 's async_sigio =
  as_perror :: bool
  as_fd :: int
  as_sa_flags :: int
  as_callback :: "'s sig_callback"

definition init_reg_callback :: "'s async_sigio \<Rightarrow> 's callback_map \<Rightarrow> 's async_sigio \<times> 's callback_map" where
  "init_reg_callback a callbacks =
     (a\<lparr>as_sa_flags := SA_RESTART\<rparr>, multimap_insert SIGIO (as_callback a) callbacks)"

definition async_sigio_ctor :: "int \<Rightarrow> 's sig_callback \<Rightarrow> bool \<Rightarrow> 's callback_map \<Rightarrow> 's async_sigio \<times> 's callback_map" where
  "async_sigio_ctor fd callback perror callbacks =
     init_reg_callback \<lparr>as_perror = perror, as_fd = fd, as_sa_flags = 0, as_callback = callback\<rparr> callbacks"

text \<open>The destructor closes the descriptor and leaves the map as it is.\<close>

definition async_sigio_dtor :: "os \<Rightarrow> 's async_sigio \<Rightarrow> 's callback_map \<Rightarrow> 's callback_map io" where
  "async_sigio_dtor os a callbacks = call_void os (Sys_close (as_fd a)) (ret callbacks)"

fun run_callbacks :: "int \<Rightarrow> 's callback_map \<Rightarrow> 's \<Rightarrow> 's io" where
  "run_callbacks sig [] s = ret s"
| "run_callbacks sig (e # es) s = bind_io (snd e sig s) (run_callbacks sig es)"

definition async_sigio_handler :: "int \<Rightarrow> 's callback_map \<Rightarrow> 's \<Rightarrow> 's io" where
  "async_sigio_handler sig callbacks s = run_callbacks sig (equal_range SIGIO callbacks) s"

definition fail_with :: "os \<Rightarrow> bool \<Rightarrow> string \<Rightarrow> int io" where
  "fail_with os perror msg = (if perror then call_void os (Sys_stderr (msg @ newline)) (ret (-1)) else ret (-1))"

definition async_sigio_enable :: "os \<Rightarrow> 's async_sigio \<Rightarrow> int io" where
  "async_sigio_enable os a =
     call os (Sys_sigaction SIGIO (as_sa_flags a)) (\<lambda>r1.
     if r1 = -1 then fail_with os (as_perror a) ''sigaction(): SIGIO set failed''
     else call os Sys_getpid (\<lambda>pid.
     call os (Sys_fcntl_setown (as_fd a) pid) (\<lambda>r2.
     if r2 = -1 then fail_with os (as_perror a) ''fcntl(): F_SETOWN set failed''
     else call os (Sys_fcntl_getfl (as_fd a)) (\<lambda>flags.
     call os (Sys_fcntl_setfl (as_fd a) (or flags (or O_ASYNC O_NONBLOCK))) (\<lambda>r3.
     if r3 = -1 then fail_with os (as_perror a) ''fcntl(): (O_ASYNC | O_NONBLOCK) set failed''
     else ret 0)))))"

section \<open>Lemmas\<close>

definition only_sigio :: "'s callback_map \<Rightarrow> bool" where
  "only_sigio m \<longleftrightarrow> (\<forall>e \<in> set m. fst e = SIGIO)"

lemma only_sigio_Nil: "only_sigio []"
  by (simp add: only_sigio_def)

lemma multimap_insert_sigio: "only_sigio m \<Longrightarrow> multimap_insert SIGIO cb m = m @ [(SIGIO, cb)]"
  unfolding multimap_insert_def only_sigio_def
  by (subst takeWhile_eq_all_conv [THEN iffD2], force, subst dropWhile_eq_Nil_conv [THEN iffD2], force) simp

lemma equal_range_sigio: "only_sigio m \<Longrightarrow> equal_range SIGIO m = m"
proof -
  assume m: "only_sigio m"
  have "dropWhile (\<lambda>e. fst e < SIGIO) m = m"
    using m by (cases m) (auto simp: only_sigio_def)
  then show ?thesis using m by (auto simp: equal_range_def only_sigio_def takeWhile_eq_all_conv)
qed

text \<open>Constructing a list of objects one after the other.\<close>

definition register_all :: "(int \<times> 's sig_callback) list \<Rightarrow> 's callback_map \<Rightarrow> 's callback_map" where
  "register_all objs m = fold (\<lambda>(fd, cb) m. snd (async_sigio_ctor fd cb True m)) objs m"

lemma register_all_result:
  "only_sigio m \<Longrightarrow> register_all objs m = m @ map (\<lambda>(fd, cb). (SIGIO, cb)) objs \<and> only_sigio (register_all objs m)"
proof (induction objs arbitrary: m)
  case Nil
  then show ?case by (simp add: register_all_def)
next
  case (Cons o1 objs)
  obtain fd cb where o1: "o1 = (fd, cb)" by (cases o1)
  have one: "snd (async_sigio_ctor fd cb True m) = m @ [(SIGIO, cb)]"
    using multimap_insert_sigio [OF Cons.prems] by (simp add: async_sigio_ctor_def init_reg_callback_def)
  have next_map: "register_all (o1 # objs) m = register_all objs (m @ [(SIGIO, cb)])"
    by (simp add: register_all_def o1 one)
  have "only_sigio (m @ [(SIGIO, cb)])" using Cons.prems by (auto simp: only_sigio_def)
  from Cons.IH [OF this] show ?case unfolding next_map by (auto simp: o1)
qed

lemma or_minus_one: "or (-1 :: int) x = -1"
  by simp

section \<open>Properties\<close>

text \<open>
  The handler runs the callback of every object ever constructed, in the order of construction, and destroying an
  object does not take its callback out: the destructor's call leaves the map unchanged although its comment announces
  the removal, so the handler calls into destroyed objects.
\<close>

theorem sigio_runs_all_ever_registered:
  "async_sigio_handler sig (register_all objs []) s t = run_callbacks sig (map (\<lambda>(fd, cb). (SIGIO, cb)) objs) s t \<and>
   (\<exists>r. async_sigio_dtor os a (register_all objs []) t = (Ret (register_all objs []), t @ [(Sys_close (as_fd a), r)]))"
proof -
  have reg: "register_all objs [] = map (\<lambda>(fd, cb). (SIGIO, cb)) objs" "only_sigio (register_all objs [])"
    using register_all_result [OF only_sigio_Nil, of objs] by auto
  have "equal_range SIGIO (register_all objs []) = register_all objs []"
    using reg(2) by (rule equal_range_sigio)
  then show ?thesis using reg(1) by (simp add: async_sigio_handler_def async_sigio_dtor_def io_simps)
qed

text \<open>
  \<open>enable\<close> returns 0 only when the handler is installed, the process owns the descriptor's signals and the flags were
  set, and -1 otherwise. On success the new flags are the old ones with \<open>O_ASYNC\<close> and \<open>O_NONBLOCK\<close>; a failed
  \<open>F_GETFL\<close> is not noticed, and then every flag is asked for.
\<close>

theorem sigio_enable_result:
  "\<exists>res cs. async_sigio_enable os a t = (Ret res, t @ cs) \<and> (res = 0 \<or> res = -1) \<and>
    (res = 0 \<longrightarrow> (\<exists>r1 pid r2 flags r3. r1 \<noteq> -1 \<and> r2 \<noteq> -1 \<and> r3 \<noteq> -1 \<and>
       cs = [(Sys_sigaction SIGIO (as_sa_flags a), r1), (Sys_getpid, pid), (Sys_fcntl_setown (as_fd a) pid, r2),
             (Sys_fcntl_getfl (as_fd a), flags),
             (Sys_fcntl_setfl (as_fd a) (if flags = -1 then -1 else or flags (or O_ASYNC O_NONBLOCK)), r3)]))"
  by (auto simp: async_sigio_enable_def fail_with_def io_simps Let_def or_minus_one)

theorem sigio_enable_result_witness:
  "\<exists>cs. async_sigio_enable (epoll_kernel []) (fst (async_sigio_ctor 0 (\<lambda>sig s. ret (s :: nat)) True [])) [] = (Ret 0, [] @ cs)"
proof -
  let ?a = "fst (async_sigio_ctor 0 (\<lambda>sig s. ret (s :: nat)) True [])"
  obtain res cs where r: "async_sigio_enable (epoll_kernel []) ?a [] = (Ret res, [] @ cs)" "res = 0 \<or> res = -1"
    using sigio_enable_result [of "epoll_kernel []" ?a "[]"] by blast
  have "fst (async_sigio_enable (epoll_kernel []) ?a []) = Ret 0"
    by (simp add: async_sigio_enable_def io_simps epoll_kernel_def)
  then show ?thesis using r by auto
qed

end
