(* ===== verification/Cbreak_Term.thy ===== *)
theory Cbreak_Term
  imports Utils
begin

text \<open>
  \<open>cbreak_term\<close> (\<open>cbreak_term.h\<close>, \<open>cbreak_term.cpp\<close>): the constructor and \<open>init\<close>, which puts a terminal into cbreak mode.
  The flag values are those of Linux.
\<close>

definition ISIG :: u32 where "ISIG = 0x001"
definition ICANON :: u32 where "ICANON = 0x002"
definition ECHO :: u32 where "ECHO = 0x008"
definition TOSTOP :: u32 where "TOSTOP = 0x100"
definition ICRNL :: u32 where "ICRNL = 0x100"
definition VTIME :: int where "VTIME = 5"
definition VMIN :: int where "VMIN = 6"

record cbreak_term =
  ct_perror :: bool
  ct_infd :: int
  ct_tmio :: termios

fun out_termios :: "sysout \<Rightarrow> termios \<Rightarrow> termios" where
  "out_termios (Out_Termios x) old = x"
| "out_termios out old = old"

definition cbreak_mode :: "termios \<Rightarrow> termios outcome" where
  "cbreak_mode x =
     (let l1 = and (c_lflag x) (not (or ICANON ECHO)); l2 = or l1 ISIG; l3 = and l2 (not ICRNL) in
      bind_outcome (vec_put_index (c_cc x) VMIN 1) (\<lambda>cc1.
      bind_outcome (vec_put_index cc1 VTIME 0) (\<lambda>cc2. Ret (x\<lparr>c_lflag := l3, c_cc := cc2\<rparr>))))"

definition cbreak_init :: "os \<Rightarrow> cbreak_term \<Rightarrow> (int \<times> cbreak_term) io" where
  "cbreak_init os c =
     call_out os (Sys_tcgetattr (ct_infd c)) (\<lambda>r out.
     let c1 = c\<lparr>ct_tmio := out_termios out (ct_tmio c)\<rparr> in
     if r = -1 then
       (if ct_perror c then call_void os (Sys_stderr (''tcgetattr(): get attributes failed'' @ newline)) (ret (-1, c1))
        else ret (-1, c1))
     else bind_io (lift (cbreak_mode (ct_tmio c1))) (\<lambda>x.
       let c2 = c1\<lparr>ct_tmio := x\<rparr> in
       call os (Sys_tcsetattr (ct_infd c) x) (\<lambda>r2.
       if r2 = -1 then
         (if ct_perror c then call_void os (Sys_stderr (''tcsetattr(): set attributes failed'' @ newline)) (ret (-1, c2))
          else ret (-1, c2))
       else ret (0, c2))))"

definition no_termios :: termios where
  "no_termios = \<lparr>c_iflag = 0, c_oflag = 0, c_cflag = 0, c_lflag = 0, c_cc = replicate 32 0\<rparr>"

definition cbreak_term_ctor :: "os \<Rightarrow> int \<Rightarrow> bool \<Rightarrow> cbreak_term io" where
  "cbreak_term_ctor os infd perror =
     bind_io (cbreak_init os \<lparr>ct_perror = perror, ct_infd = infd, ct_tmio = no_termios\<rparr>) (\<lambda>(res, c). ret c)"

section \<open>Lemmas\<close>

lemma flag_bits: "bit (2 ^ k :: u32) n \<longleftrightarrow> n = k \<and> k < 32"
  by (auto simp: bit_exp_iff)

lemma lflag_bits:
  "bit (and (or (and l (not (or ICANON ECHO))) ISIG) (not ICRNL)) n \<longleftrightarrow>
     n < 32 \<and> (n = 0 \<or> (bit l n \<and> n \<notin> {1, 3, 8}))"
proof -
  have vals: "ICANON = 2 ^ 1" "ECHO = 2 ^ 3" "ISIG = 2 ^ 0" "ICRNL = 2 ^ 8"
    by (simp_all add: ICANON_def ECHO_def ISIG_def ICRNL_def)
  have "bit l n \<Longrightarrow> n < 32" using bit_imp_le_length [of l n] by simp
  then show ?thesis
    unfolding vals by (auto simp only: bit_and_iff bit_or_iff bit_not_iff flag_bits possible_bit_word) auto
qed

section \<open>Properties\<close>

text \<open>
  What cbreak mode really sets: line editing and echo are switched off, signals on, one character at a time without
  timeout. The bit of \<open>ICRNL\<close>, an input flag, is cleared in the local flags, where it is \<open>TOSTOP\<close>: carriage returns
  are still translated to newlines, since the input flags stay as they were, and background output is no longer stopped.
\<close>

theorem cbreak_mode_flags:
  assumes "length (c_cc x) = 32"
  shows "\<exists>y. cbreak_mode x = Ret y \<and> c_iflag y = c_iflag x \<and> c_oflag y = c_oflag x \<and> c_cflag y = c_cflag x \<and>
    (\<forall>n. bit (c_lflag y) n \<longleftrightarrow> n < 32 \<and> (n = 0 \<or> (bit (c_lflag x) n \<and> n \<notin> {1, 3, 8}))) \<and>
    and (c_lflag y) TOSTOP = 0 \<and> c_cc y ! 6 = 1 \<and> c_cc y ! 5 = 0"
proof -
  let ?l = "and (or (and (c_lflag x) (not (or ICANON ECHO))) ISIG) (not ICRNL)"
  have stop: "TOSTOP = 2 ^ 8" by (simp add: TOSTOP_def)
  have "and ?l TOSTOP = 0"
  proof (rule bit_eqI)
    fix n
    show "bit (and ?l TOSTOP) n = bit (0 :: u32) n"
      unfolding stop bit_and_iff [of ?l "2 ^ 8"] lflag_bits flag_bits by auto
  qed
  then show ?thesis
    using assms lflag_bits [of "c_lflag x"]
    by (simp add: cbreak_mode_def vec_put_index_def vec_in_def VMIN_def VTIME_def Let_def)
qed

theorem cbreak_mode_flags_witness:
  "\<exists>y. cbreak_mode (no_termios\<lparr>c_lflag := 0x10B, c_iflag := 0x100\<rparr>) = Ret y \<and> c_iflag y = 0x100 \<and> and (c_lflag y) TOSTOP = 0"
  using cbreak_mode_flags [of "no_termios\<lparr>c_lflag := 0x10B, c_iflag := 0x100\<rparr>"] by (auto simp: no_termios_def)

end
