(* ===== verification/Examples.thy ===== *)
theory Examples
  imports Example_Client Async_Sigio Cbreak_Term
begin

text \<open>
  The example programs \<open>example_tcpserver.cpp\<close> (the option loop and what it starts) and \<open>main.cpp\<close>: the test of signal-driven input and the epoll test with its polling thread. \<open>getopt\<close> is
  not modelled: its results are the list of pairs of an option character and \<open>optarg\<close>.
\<close>

section \<open>example\_tcpserver.cpp\<close>

record server_args =
  sa_thread_num :: u32
  sa_svr_port :: u16

definition server_args_default :: "int \<Rightarrow> server_args" where
  "server_args_default cores = \<lparr>sa_thread_num = word_of_int cores, sa_svr_port = 5555\<rparr>"

text \<open>Any other option, \<open>-h\<close> too, prints the usage, and the loop goes on.\<close>

fun server_options :: "os \<Rightarrow> string \<Rightarrow> (char \<times> string) list \<Rightarrow> server_args \<Rightarrow> server_args io" where
  "server_options os argv0 [] a = ret a"
| "server_options os argv0 ((opt, optarg) # opts) a =
     (if opt = CHR ''n'' then server_options os argv0 opts (a\<lparr>sa_thread_num := word_of_int (atoi optarg)\<rparr>)
      else if opt = CHR ''p'' then server_options os argv0 opts (a\<lparr>sa_svr_port := word_of_int (atoi optarg)\<rparr>)
      else call_void os (Sys_stdout (''usage '' @ argv0 @ '' -n [thread number] -p [server_port]'')) (server_options os argv0 opts a))"

definition server_setup :: "os \<Rightarrow> int \<Rightarrow> string \<Rightarrow> (char \<times> string) list \<Rightarrow> tcp_server io" where
  "server_setup os cores argv0 opts =
     bind_io (server_options os argv0 opts (server_args_default cores)) (\<lambda>a.
       tcp_server_ctor os cores (sa_svr_port a) (sa_thread_num a) (Some ''0.0.0.0''))"

text \<open>The whole of \<open>main\<close> up to the endless loop of \<open>poll_for_connect\<close>, whose turn is \<open>poll_for_connect_turn\<close>.\<close>

definition server_main ::
  "os \<Rightarrow> (string \<Rightarrow> u32) \<Rightarrow> int \<Rightarrow> (nat \<Rightarrow> int \<times> nat) \<Rightarrow> string \<Rightarrow> (char \<times> string) list \<Rightarrow> client_pool \<Rightarrow> (tcp_server \<times> client_pool \<times> epoll_wrapper) io"
where
  "server_main os inet_addr cores spawn argv0 opts tp =
     bind_io (server_setup os cores argv0 opts) (\<lambda>sv.
     bind_io (server_startup os inet_addr cores spawn sv tp) (\<lambda>(sv', tp').
     bind_io (poll_for_connect_init os sv') (\<lambda>w. ret (sv', tp', w))))"

section \<open>main.cpp\<close>

text \<open>
  \<open>sigio_handler\<close> on the bytes that are waiting: what it prints, the flag \<open>finish\<close>, and the bytes left unread. The
  condition of the loop reads a byte before it tests the flag.
\<close>

fun sigio_loop :: "string \<Rightarrow> bool \<Rightarrow> string list \<times> bool \<times> string" where
  "sigio_loop [] finish = ([], finish, [])"
| "sigio_loop (ch # rest) finish =
     (if finish then ([], finish, rest)
      else case sigio_loop rest (ch = CHR ''#'') of (out, f, left) \<Rightarrow>
        ((if ch \<noteq> CR \<or> ch \<noteq> LF then ''read '' @ [ch] @ newline else ''read <CR>'') # out, f, left))"

definition sigio_handler :: "string \<Rightarrow> bool \<Rightarrow> string list \<times> bool \<times> string" where
  "sigio_handler waiting finish =
     (case sigio_loop waiting finish of (out, f, left) \<Rightarrow> ((''io comes in!'' @ newline) # out, f, left))"

definition event_str2 :: "char list \<Rightarrow> u32 \<Rightarrow> char list outcome" where
  "event_str2 fresh events =
     (let p0 = 0; p1 = p0 + length ''epoll in ''; p2 = p1 + length ''epoll hup '' in
      bind_outcome (if has_event events EPOLLIN then put_cstr fresh p0 ''epoll in '' else Ret fresh) (\<lambda>b1.
      bind_outcome (if has_event events EPOLLHUP then put_cstr b1 p1 ''epoll hup '' else Ret b1) (\<lambda>b2.
      if has_event events EPOLLERR then put_cstr b2 p2 ''epoll err '' else Ret b2)))"

text \<open>\<open>o_async_io\<close>: the terminal driven by signals. \<open>inputs\<close> are the bytes that arrive during each sleep; what the handler leaves
  unread waits for the next signal. The result is whether the loop has ended after those inputs.\<close>

definition STDIN_FILENO :: int where "STDIN_FILENO = 0"

fun print_all :: "os \<Rightarrow> string list \<Rightarrow> 'a io \<Rightarrow> 'a io" where
  "print_all os [] k = k"
| "print_all os (m # ms) k = call_void os (Sys_stdout m) (print_all os ms k)"

fun o_async_loop :: "os \<Rightarrow> string list \<Rightarrow> string \<Rightarrow> bool \<Rightarrow> bool io" where
  "o_async_loop os inputs left True = ret True"
| "o_async_loop os [] left False = ret False"
| "o_async_loop os (inp # inputs) left False =
     call_void os (Sys_stdout (''do other things before io comes in'' @ newline)) (call_void os (Sys_sleep 2)
     (if inp = [] then o_async_loop os inputs left False
      else case sigio_handler (left @ inp) False of (out, f, rest) \<Rightarrow> print_all os out (o_async_loop os inputs rest f)))"

definition o_async_io :: "os \<Rightarrow> string list \<Rightarrow> bool io" where
  "o_async_io os inputs =
     (case async_sigio_ctor STDIN_FILENO (\<lambda>sig s. ret (s :: unit)) True [] of (a, callbacks) \<Rightarrow>
      bind_io (async_sigio_enable os a) (\<lambda>res.
      bind_io (cbreak_term_ctor os STDIN_FILENO True) (\<lambda>c.
      bind_io (o_async_loop os inputs [] False) (\<lambda>fin.
      if fin then bind_io (async_sigio_dtor os a callbacks) (\<lambda>u. ret True) else ret False))))"

text \<open>
  The callback of \<open>epoll_pipe\<close> on one event; \<open>open_fd\<close> is the counter, \<open>heap\<close> and \<open>fresh\<close> are the uninitialised \<open>new char[128]\<close> and
  \<open>buf[255]\<close>, \<open>err\<close> is the \<open>errno\<close> of the read.
\<close>

definition epoll_pipe_event :: "os \<Rightarrow> int \<Rightarrow> char list \<Rightarrow> char list \<Rightarrow> epoll_event \<Rightarrow> int \<Rightarrow> int io" where
  "epoll_pipe_event os err heap fresh ev open_fd =
     bind_io (lift (event_str2 heap (ev_events ev))) (\<lambda>str.
     bind_io (lift (c_strlen str)) (\<lambda>k.
     call_void os (Sys_stdout (''fd='' @ dec_int (ev_fd ev) @ '', epollev: '' @ take k str @ newline))
     (if has_event (ev_events ev) EPOLLIN then
        call_out os (Sys_read (ev_fd ev) 255) (\<lambda>readn out.
        let buf = put_bytes fresh (out_bytes out) in
        bind_io (check_print_abt os err readn ''read error!'' True) (\<lambda>u.
        bind_io (lift (c_strlen buf)) (\<lambda>k.
        call_void os (Sys_stdout (''read '' @ dec_int readn @ '' bytes: '' @ take k buf @ newline)) (ret open_fd))))
      else if has_event (ev_events ev) (or EPOLLHUP EPOLLERR) then ret (open_fd - 1)
      else ret open_fd)))"

text \<open>
  \<open>thread_poll\<close> on its copy of the wrapper. The loop need not end, so it has fuel: \<open>None\<close> is that it still runs. The two texts are in
  UTF-8. \<open>pthread_exit\<close> unwinds the stack, so the copy is destroyed.
\<close>

definition poll_thread_text :: string where
  "poll_thread_text = [CHR 0xE5, CHR 0x9C, CHR 0xA8, CHR 0xE5, CHR 0xAD, CHR 0x90, CHR 0xE7, CHR 0xBA, CHR 0xBF, CHR 0xE7, CHR 0xA8,
     CHR 0x8B, CHR 0xE4, CHR 0xB8, CHR 0xAD, CHR 0xE8, CHR 0xBD, CHR 0xAE, CHR 0xE8, CHR 0xAF, CHR 0xA2] @ ''...''
     @ [CHR 0xE6, CHR 0xAF, CHR 0x8F] @ ''2s'' @ [CHR 0xE8, CHR 0xBD, CHR 0xAE, CHR 0xE8, CHR 0xAF, CHR 0xA2, CHR
     0xE4, CHR 0xB8, CHR 0x80, CHR 0xE6, CHR 0xAC, CHR 0xA1, CHR 0x0A]"

definition polling_text :: string where
  "polling_text = ''epoll'' @ [CHR 0xE8, CHR 0xBD, CHR 0xAE, CHR 0xE8, CHR 0xAF, CHR 0xA2] @ ''...'' @ [CHR 0x0A]"

fun thread_poll_loop :: "os \<Rightarrow> int \<Rightarrow> char list \<Rightarrow> char list \<Rightarrow> nat \<Rightarrow> epoll_wrapper \<Rightarrow> int \<Rightarrow> int option io" where
  "thread_poll_loop os err heap fresh 0 w open_fd = ret None"
| "thread_poll_loop os err heap fresh (Suc fuel) w open_fd =
     (if open_fd > 0 then
        call_void os (Sys_stdout polling_text)
        (bind_io (epoll_poll_event os (for_events (epoll_pipe_event os err heap fresh)) w 0 open_fd) (\<lambda>(w', open_fd').
         call_void os (Sys_sleep 2) (thread_poll_loop os err heap fresh fuel w' open_fd')))
      else call_void os (Sys_stdout (''open_fd all closed!'' @ newline)) (ret (Some open_fd)))"

definition thread_poll :: "os \<Rightarrow> int \<Rightarrow> char list \<Rightarrow> char list \<Rightarrow> nat \<Rightarrow> epoll_wrapper \<Rightarrow> int \<Rightarrow> int option io" where
  "thread_poll os err heap fresh fuel w open_fd =
     call_void os (Sys_stdout poll_thread_text)
     (bind_io (thread_poll_loop os err heap fresh fuel w open_fd) (\<lambda>r. case r of
        None \<Rightarrow> ret None
      | Some n \<Rightarrow> bind_io (epoll_wrapper_dtor os w) (\<lambda>u. ret (Some n))))"

definition O_RDONLY :: int where "O_RDONLY = 0"
definition O_CLOEXEC :: int where "O_CLOEXEC = 0x80000"

fun epoll_pipe_open :: "os \<Rightarrow> int \<Rightarrow> epoll_wrapper \<Rightarrow> string list \<Rightarrow> unit io" where
  "epoll_pipe_open os err w [] = ret ()"
| "epoll_pipe_open os err w (arg # args) =
     call os (Sys_open arg O_RDONLY) (\<lambda>fd.
     bind_io (check_print_abt os err fd ''open file descriptor failed!'' True) (\<lambda>u.
     call_void os (Sys_stdout (''open '' @ arg @ '' on '' @ dec_int fd @ newline))
     (bind_io (epoll_add_event os w fd (or EPOLLIN EPOLLET) False) (\<lambda>res. epoll_pipe_open os err w args))))"

definition epoll_pipe :: "os \<Rightarrow> int \<Rightarrow> char list \<Rightarrow> char list \<Rightarrow> nat \<Rightarrow> string list \<Rightarrow> int option io" where
  "epoll_pipe os err heap fresh fuel argv =
     (if length argv < 2 \<or> argv ! 1 = ''--help'' then
        call_void os (Sys_stderr (''usage: '' @ hd argv @ '' file'' @ newline)) (ret (Some 0))
      else bind_io (epoll_wrapper_ctor os) (\<lambda>w.
        call os (Sys_epoll_create1 O_CLOEXEC) (\<lambda>epoll_fd.
        bind_io (check_print_abt os err epoll_fd ''epoll_create failed!'' True) (\<lambda>u.
        bind_io (epoll_pipe_open os err w (tl argv)) (\<lambda>u.
        bind_io (thread_poll os err heap fresh fuel w (int (length argv) - 1)) (\<lambda>r. case r of
          None \<Rightarrow> ret None
        | Some n \<Rightarrow> bind_io (epoll_wrapper_dtor os w) (\<lambda>u. ret (Some n))))))))"

text \<open>\<open>main\<close> has both tests commented out and exits.\<close>

definition main_status :: "int io" where
  "main_status = ret EXIT_SUCCESS"

section \<open>Lemmas\<close>

lemma sigio_loop_hash:
  "CHR ''#'' \<notin> set pre \<Longrightarrow> sigio_loop (pre @ CHR ''#'' # x # rest) False =
     (map (\<lambda>c. ''read '' @ [c] @ newline) (pre @ [CHR ''#'']), True, rest)"
  by (induction pre) (auto simp: CR_def LF_def)

text \<open>A poll whose events all carry input keeps the counter.\<close>

lemma pipe_event_in:
  assumes "has_event (ev_events ev) EPOLLIN" "epoll_pipe_event os err heap fresh ev n t = (Ret n', t')"
  shows "n' = n"
  using assms
  by (auto simp: epoll_pipe_event_def bind_io_eq_Ret call_void_def call_out_def lift_def ret_def Let_def
      simp del: split_paired_Ex)

lemma pipe_events_in:
  "\<forall>ev \<in> set evs. has_event (ev_events ev) EPOLLIN \<Longrightarrow>
     each_event (epoll_pipe_event os err heap fresh) evs n t = (Ret n', t') \<Longrightarrow> n' = n"
  by (induction evs arbitrary: n t) (auto simp: bind_io_eq_Ret ret_def dest: pipe_event_in)

lemma poll_counts:
  assumes "wait_documented os" "length (ep_evary w) = MAX_EVENTS"
    and "\<And>t ep k timeout evs ev. snd (os t (Sys_epoll_wait ep k timeout)) = Out_Events evs \<Longrightarrow> ev \<in> set evs \<Longrightarrow>
      has_event (ev_events ev) EPOLLIN"
    and "epoll_poll_event os (for_events (epoll_pipe_event os err heap fresh)) w timeout n t = (Ret (w', n'), t')"
  shows "length (ep_evary w') = MAX_EVENTS \<and> n' = n"
proof -
  obtain r out where wait: "os t (Sys_epoll_wait (ep_fd w) MAX_EVENTS timeout) = (r, out)" by fastforce
  show ?thesis
  proof (cases "r = -1")
    case True
    then show ?thesis using assms(2,4) wait
      by (auto simp: epoll_poll_event_def CHECK_PERROR_def call_void_def call_out_def ret_def Let_def)
  next
    case False
    then obtain evs where out: "out = Out_Events evs"
      using assms(1) [unfolded wait_documented_def, rule_format, of t "ep_fd w" MAX_EVENTS timeout] wait by auto
    have evs: "\<forall>ev \<in> set evs. has_event (ev_events ev) EPOLLIN"
      using assms(3) [of t "ep_fd w" MAX_EVENTS timeout evs] wait out by simp
    have "bind_io (each_event (epoll_pipe_event os err heap fresh) evs n)
        (\<lambda>s'. ret (w\<lparr>ep_evary := put_events (Out_Events evs) (ep_evary w)\<rparr>, s'))
        (t @ [(Sys_epoll_wait (ep_fd w) MAX_EVENTS timeout, r)]) = (Ret (w', n'), t')"
      using assms(4) unfolding poll_event_each [OF assms(1,2) wait [unfolded out] False] .
    then show ?thesis using pipe_events_in [OF evs] assms(2) by (auto simp: bind_io_eq_Ret ret_def)
  qed
qed

section \<open>Properties\<close>

text \<open>
  The signal handler never reports a carriage return, since its condition \<open>ch != CR || ch != LF\<close> is always
  true, and it loses a byte: it stops after \<open>#\<close> only when it has read one more byte, which is neither printed nor left
  for the next reader.
\<close>

theorem sigio_handler_loses_byte:
  assumes "CHR ''#'' \<notin> set pre"
  shows "sigio_handler (pre @ CHR ''#'' # x # rest) False =
    ((''io comes in!'' @ newline) # map (\<lambda>c. ''read '' @ [c] @ newline) (pre @ [CHR ''#'']), True, rest)"
  using sigio_loop_hash [OF assms] by (simp add: sigio_handler_def)

theorem sigio_handler_loses_byte_witness:
  "snd (sigio_handler (CR # ''#ab'') False) = (True, ''b'')"
  using sigio_handler_loses_byte [of "[CR]" "CHR ''a''" "''b''"] by (simp add: CR_def)



text \<open>
  The epoll test never ends when every hang-up comes together with data, which is how a pipe reports a writer that wrote and left:
  such an event is taken as input only, \<open>open_fd\<close> is not decremented, and no fuel is enough for the polling thread's loop.
\<close>

theorem poll_thread_never_ends:
  assumes "wait_documented os" "length (ep_evary w) = MAX_EVENTS" "0 < n"
    and "\<And>t ep k timeout evs ev. snd (os t (Sys_epoll_wait ep k timeout)) = Out_Events evs \<Longrightarrow> ev \<in> set evs \<Longrightarrow>
      has_event (ev_events ev) EPOLLIN"
  shows "fst (thread_poll_loop os err heap fresh fuel w n t) \<noteq> Ret (Some m)"
  using assms(2,3)
proof (induction fuel arbitrary: w n t)
  case 0
  then show ?case by (simp add: ret_def)
next
  case (Suc fuel)
  let ?f = "epoll_pipe_event os err heap fresh" and ?t = "t @ [(Sys_stdout polling_text, fst (os t (Sys_stdout polling_text)))]"
  obtain r t1 where poll: "epoll_poll_event os (for_events ?f) w 0 n ?t = (r, t1)" by fastforce
  have keep: "length (ep_evary w') = MAX_EVENTS \<and> n' = n" if "r = Ret (w', n')" for w' n'
    using poll_counts [of os w err heap fresh 0 n ?t w' n' t1, OF assms(1) Suc.prems(1) assms(4)] poll that by auto
  show ?case
  proof (cases r)
    case (Stop e)
    then show ?thesis using Suc.prems(2) poll by (simp add: call_void_def call_out_def bind_io_def)
  next
    case (Ret x)
    obtain w' n' where x: "x = (w', n')" by (cases x)
    then have "length (ep_evary w') = MAX_EVENTS" "0 < n'" using keep Ret Suc.prems(2) by auto
    from Suc.IH [OF this] show ?thesis using Suc.prems(2) poll Ret x by (simp add: call_void_def call_out_def bind_io_def)
  qed
qed

theorem poll_thread_never_ends_witness:
  "\<forall>fuel m. fst (thread_poll_loop (epoll_kernel [\<lparr>ev_events = or EPOLLIN EPOLLHUP, ev_fd = 5\<rparr>]) 0 (replicate 128 (CHR 0x00))
     (replicate 255 (CHR 0x00)) fuel \<lparr>ep_fd = 3, ep_evary = replicate MAX_EVENTS no_event\<rparr> 1 []) \<noteq> Ret (Some m)"
proof (intro allI)
  fix fuel m
  let ?os = "epoll_kernel [\<lparr>ev_events = or EPOLLIN EPOLLHUP, ev_fd = 5\<rparr>]"
  have "has_event (ev_events ev) EPOLLIN"
    if "snd (?os t (Sys_epoll_wait ep k timeout)) = Out_Events evs" "ev \<in> set evs" for t ep k timeout evs ev
  proof -
    have "evs = take k [\<lparr>ev_events = or EPOLLIN EPOLLHUP, ev_fd = 5\<rparr>]" using that(1) by (simp add: epoll_kernel_def)
    then have "ev = \<lparr>ev_events = or EPOLLIN EPOLLHUP, ev_fd = 5\<rparr>" using that(2) by (auto dest: in_set_takeD)
    then show ?thesis by (simp add: has_event_def EPOLLIN_def EPOLLHUP_def)
  qed
  from poll_thread_never_ends [OF epoll_kernel_documented(2) _ _ this, of "\<lparr>ep_fd = 3, ep_evary = replicate MAX_EVENTS no_event\<rparr>" 1]
  show "fst (thread_poll_loop ?os 0 (replicate 128 (CHR 0x00)) (replicate 255 (CHR 0x00)) fuel
     \<lparr>ep_fd = 3, ep_evary = replicate MAX_EVENTS no_event\<rparr> 1 []) \<noteq> Ret (Some m)" by simp
qed

text \<open>
  If it does end, the epoll test closes one descriptor twice: the polling thread works on a copy of the wrapper, whose destructor
  closes the epoll descriptor, and so does the destructor of the original.
\<close>

theorem epoll_pipe_closes_twice:
  assumes "epoll_pipe os err heap fresh fuel argv [] = (Ret (Some n), t)" "2 \<le> length argv" "argv ! 1 \<noteq> ''--help''"
  shows "\<exists>fd r1 r2 t0. t = t0 @ [(Sys_close fd, r1), (Sys_close fd, r2)] \<and> fd \<noteq> -1"
proof -
  obtain w t1 t2 where w: "epoll_wrapper_ctor os [] = (Ret w, t1)" and
    "bind_io (thread_poll os err heap fresh fuel w (int (length argv) - 1)) (\<lambda>r. case r of
       None \<Rightarrow> ret None | Some n \<Rightarrow> bind_io (epoll_wrapper_dtor os w) (\<lambda>u. ret (Some n))) t2 = (Ret (Some n), t)"
    using assms by (auto simp: epoll_pipe_def bind_io_eq_Ret call_def call_out_def) blast+
  then obtain m t3 where m: "thread_poll os err heap fresh fuel w (int (length argv) - 1) t2 = (Ret (Some m), t3)"
    "bind_io (epoll_wrapper_dtor os w) (\<lambda>u. ret (Some m)) t3 = (Ret (Some n), t)"
    by (auto simp: bind_io_eq_Ret ret_def split: option.splits)
  obtain t4 where "t3 = t4 @ [(Sys_close (ep_fd w), fst (os t4 (Sys_close (ep_fd w))))]"
    using m(1) by (auto simp: thread_poll_def bind_io_eq_Ret call_void_def call_out_def ret_def epoll_wrapper_dtor_def
        split: option.splits)
  moreover have "ep_fd w \<noteq> -1" using w by (auto simp: epoll_ctor_result Let_def split: if_splits)
  ultimately show ?thesis
    using m(2) by (auto simp: bind_io_eq_Ret call_void_def call_out_def ret_def epoll_wrapper_dtor_def)
qed

theorem epoll_pipe_closes_twice_witness:
  "\<exists>n t fd r1 r2 t0. epoll_pipe (epoll_kernel [\<lparr>ev_events = EPOLLHUP, ev_fd = 7\<rparr>]) 0 (replicate 128 (CHR 0x00)) (replicate 255 (CHR 0x00))
     2 [''main'', ''p''] [] = (Ret (Some n), t) \<and> t = t0 @ [(Sys_close fd, r1), (Sys_close fd, r2)]"
proof -
  let ?run = "epoll_pipe (epoll_kernel [\<lparr>ev_events = EPOLLHUP, ev_fd = 7\<rparr>]) 0 (replicate 128 (CHR 0x00)) (replicate 255 (CHR 0x00))
     2 [''main'', ''p''] []"
  have "fst ?run = Ret (Some 0)" by code_simp
  then obtain t where r: "?run = (Ret (Some 0), t)" by (metis prod.collapse)
  from epoll_pipe_closes_twice [OF r] r show ?thesis by fastforce
qed

end
