(* ===== verification/Spec2Isabelle.thy ===== *)
theory Spec2Isabelle
  imports Singleton Server_Adoption Sequential_Turns Examples
begin

text \<open>
  A verification development of \<^bold>\<open>NonblockingIO\<close>, an HTTP/TCP server on Linux epoll in C++.

  \<^bold>\<open>The program.\<close> \<open>tcp_server\<close> accepts connections in an epoll loop and submits each to \<open>tcp_worker_pool\<close>, whose \<open>submit\<close>
  makes it a task of the singleton \<open>thread_pool\<close>. A thread of that pool reads the first request, sends a page, and puts
  the client into the queue \<open>event_storage_\<close>. Worker threads (\<open>tcp_worker\<close>) take clients from that queue, register them
  with their own \<open>epoll_wrapper\<close> and answer what they send. \<open>worker_sync.h\<close> wraps the mutexes, \<open>error_map\<close> and
  \<open>httpcode_map\<close> are tables of texts behind double-checked singletons. \<open>async_sigio\<close>, \<open>cbreak_term\<close>, \<open>tcp_client\<close>
  and the example programs stand beside the server.

  \<^bold>\<open>Theories.\<close>
  \<^item> \<open>NB_Prelude\<close>: outcomes of calls that may stop (\<open>outcome\<close>, \<open>fault\<close>), C integers, \<open>std::vector\<close>, counting,
    transition systems with the locales \<open>safe_system\<close>, \<open>locked_system\<close>, \<open>refined_system\<close> and \<open>progressing_system\<close>, and the queue
    contract \<open>fifo\<close>.
  \<^item> \<open>Worker_Sync\<close> (\<open>worker_sync.h\<close>): mutex, \<open>worker_lock\<close>, \<open>worker_lockguard\<close>, \<open>worker_cond\<close>.
  \<^item> \<open>Thread_Pool\<close> (\<open>thread_pool.h\<close>, \<open>thread_pool.cpp\<close>): the class one call at a time. The ring refines a bounded list
    queue: \<open>pool_tasks\<close> is the abstraction, \<open>submit\<close> appends and taking removes the head.
  \<^item> \<open>Thread_Pool_Threads\<close>: \<open>thread_routine\<close>, \<open>create\<close>, \<open>submit\<close> and \<open>shutdown\<close> interleaved, as the step relation
    \<open>pool_step\<close>; mutual exclusion, conservation of tasks, no lost wakeup, what shutting down does, and its termination.
  \<^item> \<open>Singleton\<close>: \<open>thread_pool::instance\<close> (the same body as \<open>error_map::instance\<close> and \<open>httpcode_map::instance\<close>) and
    \<open>thread_pool::shutdown\<close>, interleaved.
  \<^item> \<open>C_Strings\<close>: character arrays, \<open>strlen\<close>, \<open>strcpy\<close>, decimal printing and \<open>atoi\<close>.
  \<^item> \<open>OS_Interface\<close>: the system calls. The operating system is the argument \<open>os\<close> of the definitions, code is a function from a
    trace of calls to an outcome and the longer trace.
  \<^item> \<open>Epoll_Wrapper\<close>, \<open>Code_Maps\<close>, \<open>Utils\<close>: the classes and files of those names.
  \<^item> \<open>Page_Body\<close>: the page of \<open>tcp_worker_pool::submit\<close>, literal by literal.
  \<^item> \<open>Tcp_Worker\<close>, \<open>Tcp_Worker_Pool\<close> (\<open>tcp_worker_pool.cpp\<close>, \<open>http_parser.h\<close>): handlers, callback, constructors, \<open>startup\<close>,
    \<open>submit\<close> and its task.
  \<^item> \<open>Worker_Threads\<close>: the loops of all workers interleaved, with the shared queue and the counter \<open>avail_woker_num_\<close>.
  \<^item> \<open>Pool_Convergence\<close>: what the pool must do: run every accepted task, and be deleted once it is shut down, whatever the schedule.
  \<^item> \<open>Worker_Progress\<close>: when the workers can drain the queue, when they must, and when the division by the counter has cornered them.
  \<^item> \<open>Tcp_Server\<close>, \<open>Tcp_Client\<close>, \<open>Async_Sigio\<close>, \<open>Cbreak_Term\<close>: the files of those names. \<open>Example_Client\<close> is
    \<open>example_tcpclient.cpp\<close>, \<open>Examples\<close> is \<open>example_tcpserver.cpp\<close> and \<open>main.cpp\<close>.
  \<^item> \<open>Concurrent_System\<close>: the listening loop, \<open>pool_step\<close> and \<open>wk_step\<close> composed into one interleaved system on one trace of
    calls, \<open>full_step\<close>, and its invariant; its pool and its workers are reachable states of the two component systems, so
    what is proved of those holds in it.
  \<^item> \<open>Server_Flow\<close>: the specification \<open>flow_step\<close> of what happens to connections, the refinement by \<open>full_step\<close> as an
    interpretation of \<open>refined_system\<close>, and a whole run.
  \<^item> \<open>Server_Capacity\<close>: the ring is as large as the number of connections the server ever accepts, and the tables of the workers
    are exactly what they adopted.
  \<^item> \<open>Server_Progress\<close>: what the interleaved server can always still do: serve what it has accepted, bring it to a worker.
  \<^item> \<open>Server_Convergence\<close>: what it must do: hand every accepted connection over to the workers, whatever the schedule;
    \<open>Server_Adoption\<close>: and bring it to a worker, unless the division ends the process.
  \<^item> \<open>Sequential_Turns\<close>: the start-up, a turn of the listening loop, a task and a turn of a worker, as functions of the source run
    alone, are runs of \<open>full_step\<close> with the same results; and what the server is when its threads could not be created.

  \<^bold>\<open>Conventions.\<close> A class is a record whose fields carry the names of the source with a prefix in place of the trailing
  underscore. An exception, an \<open>abort()\<close>, a trap or undefined behaviour is \<open>Stop\<close> with its reason, so every such path is a
  branch. Fixed-width counters and masks are words; the C \<open>int\<close> indexes of the ring are integers that the invariant bounds.
  Return codes of pthread calls, the number of processors and what the system answers are arguments. Threads
  are program counters in a state, and a step goes from one access to shared memory to the next; a section under a lock is
  one step where it runs from lock to unlock without waiting.

  \<^bold>\<open>Bounds.\<close> Loops of the source recurse on their remaining iterations, and the endless loops (threads, the accept loop) are
  step relations and have one turn as their definition, and the two agree. The one loop whose end depends on the outside, the polling thread of the epoll
  test (\<open>thread_poll_loop\<close>), has fuel; that no fuel is enough for some inputs is a property. Termination of shutting down, of serving what was
  accepted and of draining the queue are measures on the states of \<open>pool_step\<close>, \<open>full_step\<close> and \<open>wk_step\<close>; \<open>inevitable\<close> of the prelude says
  that every schedule comes to the goal and none ends before. The schedules it speaks of leave out the turns that can go on for ever and bring nothing
  on (spurious wake-ups, waits of the listening loop, polls of a worker while no client waits): with those, a fair scheduler is needed, which is not modelled.

  \<^bold>\<open>What the properties show.\<close> The queues keep every task and client exactly once and in order under all interleavings;
  locks exclude; counters do not wrap; the singletons are made once; replies fit their buffers; shutting down ends; the ring
  has room for every connection; what has been accepted must be served and come to a worker, whatever the schedule, unless the
  division by the counter ends the process, and can come to one without that unless the division has cornered the workers. They also
  pin down the defects of the code: tasks dropped by the graceful mode, the pool deleted under a thread that has not
  started, the shared affinity mask, the division by zero in a worker (certain with one worker), the refused client that nobody closes, descriptors
  that are never closed, a server that stops accepting for good, replies that carry old bytes of the buffer.

  \<^bold>\<open>Not modelled.\<close> Debug output under \<open>__DEBUG__\<close>, the two progress messages of \<open>thread_pool\<close> (lines 70 and 204), the C++ memory
  model (interleaving semantics is assumed, so the
  data race of the unlocked first test of the singletons and of \<open>event_storage_.empty()\<close> is not represented), memory
  allocation, the kernel beyond what a property names as a documented behaviour, \<open>getopt\<close>, whose results are an argument, and
  \<open>no_copyable.h\<close> (deleted copy operations). A worker that divides by zero has ended the process; in the step relations the other threads may go
  on after it, which makes the invariants stronger, and the properties on progress speak of runs without such a fault. The rest of the headers is
  declarations, which have no behaviour of their own.
\<close>

section \<open>Properties that span the components\<close>

text \<open>
  C1. No connection is lost between the threads: under every interleaving of the listening loop, the pool threads and
  the workers, and whatever the system answers, the connections that \<open>accept\<close> delivered are exactly those waiting in the ring,
  those in the hands of a pool thread, those in the workers' queue, those a worker has adopted, and those whose task the ring
  refused. Each adopted one is in the table of the worker that adopted it.
\<close>

theorem concurrent_conserves_clients:
  assumes "reach (full_init cores n) (full_step os inet_ntoa cores spawn) s"
  shows "mset (accepted_fds (fs_trace s)) = mset (map task_fd (pool_tasks (sy_pool (fs_pool s)))) +
      image_mset task_fd (held_tasks (sy_pcs (fs_pool s))) + mset (map client_fd (wk_storage (fs_wk s))) +
      mset (map (\<lambda>e. client_fd (snd e)) (wk_adopted (fs_wk s))) + mset (fs_lost s) \<and>
    (\<forall>(i, info) \<in> set (wk_adopted (fs_wk s)). tw_clients (fs_objs s ! i) (client_fd info) \<noteq> None)"
proof -
  have inv: "full_inv cores spawn n s" using full.reach_inv [OF assms] .
  then have "table_inv s" by (simp add: full_inv_def)
  then show ?thesis using full_places [OF inv] by (auto simp: flow_of_def table_inv_def)
qed

theorem concurrent_conserves_clients_witness:
  "\<exists>s. demo_reach s \<and> accepted_fds (fs_trace s) = [100] \<and> pool_tasks (sy_pool (fs_pool s)) = [] \<and> fs_lost s = [] \<and>
     tw_clients (fs_objs s ! 0) 100 \<noteq> None"
proof -
  obtain s info where s: "demo_reach s" "accepted_fds (fs_trace s) = [100]" "client_fd info = 100" "wk_adopted (fs_wk s) = [(0, info)]"
    using demo_adopted by blast
  from concurrent_conserves_clients [OF s(1)] s(2-4) show ?thesis using s(1) by auto
qed

text \<open>
  C2. The interleaved server refines the specification of a bounded hand-over pipeline: what is reachable in it is, seen as
  connections, reachable in the specification, and every step of the listening loop, of a pool thread or of a worker is one
  step of \<open>flow_step\<close> on the connections or leaves them where they are. So connections enter a
  bounded queue in the order they are accepted while it is open, leave it in that order, are served once, and are adopted in the order
  in which they were served.
\<close>

theorem concurrent_refines_flow:
  assumes "reach (full_init cores n) (full_step os inet_ntoa cores spawn) s"
  shows "reach flow_init flow_step (flow_of s) \<and>
    (\<forall>s'. full_step os inet_ntoa cores spawn s s' \<longrightarrow> flow_of s' = flow_of s \<or> flow_step (flow_of s) (flow_of s'))"
  using full_flow.reach_abs [OF assms] full_flow.abs_step [OF full.reach_inv [OF assms]] by blast

theorem concurrent_refines_flow_witness:
  "\<exists>s s'. demo_reach s \<and> fl_adopted (flow_of s) = [] \<and> fl_adopted (flow_of s') = [100] \<and> flow_step (flow_of s) (flow_of s')"
proof -
  obtain s s' info where s: "demo_reach s" "full_step (server_os []) (\<lambda>a. []) 1 (\<lambda>i. (0, 70 + i)) s s'" "client_fd info = 100"
    "wk_adopted (fs_wk s) = []" "wk_adopted (fs_wk s') = [(0, info)]"
    using demo_adopting by blast
  then have ad: "fl_adopted (flow_of s) = []" "fl_adopted (flow_of s') = [100]" by (simp_all add: flow_of_def)
  from concurrent_refines_flow [OF s(1)] s(2) have "flow_of s' = flow_of s \<or> flow_step (flow_of s) (flow_of s')" by blast
  then have "flow_step (flow_of s) (flow_of s')"
  proof
    assume "flow_of s' = flow_of s"
    then have "fl_adopted (flow_of s') = fl_adopted (flow_of s)" by simp
    then show ?thesis using ad by simp
  qed
  then show ?thesis using s(1) ad by blast
qed

text \<open>
  C5. A client is served before a worker gets it: every client in the workers' queue or adopted by a worker is one whose task
  a pool thread has run, in the order of those runs, and its socket was read once it had been accepted.
\<close>

theorem served_before_adopted:
  assumes "reach (full_init cores n) (full_step os inet_ntoa cores spawn) s"
  shows "map snd (wk_adopted (fs_wk s)) @ wk_storage (fs_wk s) = map task_client (sy_ran (fs_pool s)) \<and>
    (\<forall>info \<in> set (wk_storage (fs_wk s)) \<union> snd ` set (wk_adopted (fs_wk s)). greeted_in (fs_trace s) (client_fd info))"
proof -
  have inv: "greet_inv s" "reach (wk_init (int n)) wk_step (fs_wk s)" using full.reach_inv [OF assms] by (simp_all add: full_inv_def)
  have "wk_pushed (fs_wk s) = map snd (wk_adopted (fs_wk s)) @ wk_storage (fs_wk s)"
    using workers.reach_inv [OF inv(2)] by (simp add: wk_inv_def wk_queue_inv_def)
  then show ?thesis using inv(1) by (auto simp: greet_inv_def)
qed

theorem served_before_adopted_witness:
  "\<exists>s info. demo_reach s \<and> wk_adopted (fs_wk s) = [(0, info)] \<and> greeted_in (fs_trace s) 100"
proof -
  obtain s info where s: "demo_reach s" "client_fd info = 100" "wk_adopted (fs_wk s) = [(0, info)]"
    using demo_adopted by blast
  from served_before_adopted [OF s(1)] s(2,3) show ?thesis using s(1) by auto
qed



end
